(* ===== verification/Prelude.thy ===== *)
theory Prelude
  imports Main "HOL-Library.Word" "HOL-Library.AList" "HOL-Library.Multiset"
    "HOL-Library.Signed_Division" "HOL-Library.While_Combinator"
begin

text \<open>
  What every component of the broker shares: the width types of the C++ code, the ways an
  operation of the code can fail (as values), conversions between \<open>size_t\<close> and \<open>int\<close>,
  the association lists that stand for \<open>std::unordered_map\<close> (whose iteration order the
  language leaves open: a theorem about every list is a theorem about every order), the loop
  rules for \<open>while_option\<close>, and the contract of a \<open>std::priority_queue\<close> as a locale with its
  interpretation on the model of it.
\<close>

unbundle bit_operations_syntax

subsection \<open>Types and fact collections\<close>

type_synonym u8 = "8 word"
type_synonym u16 = "16 word"
type_synonym size_t = "64 word"

named_theorems inv_intros \<open>preservation rules of the state invariants\<close>
named_theorems frame_simps \<open>what an operation leaves unchanged\<close>

subsection \<open>Failures as values\<close>

text \<open>
  \<open>OutOfBounds\<close> is a read outside a buffer or an array (undefined behaviour in C++),
  \<open>NullDeref\<close> a use of a null \<open>shared_ptr\<close>, \<open>BadVariantAccess\<close> and \<open>LengthError\<close> the exceptions of
  \<open>std::get\<close> and \<open>vector::resize\<close>, \<open>RuntimeError\<close> an explicit \<open>throw\<close>. \<open>OutOfFuel\<close> marks a loop
  of the decoder cut off by its bound; it is proved not to occur.
\<close>

datatype fault =
    OutOfBounds
  | NullDeref
  | BadVariantAccess
  | LengthError
  | RuntimeError string
  | OutOfFuel

fun and_then :: "'e + 'a \<Rightarrow> ('a \<Rightarrow> 'e + 'b) \<Rightarrow> 'e + 'b" where
  "and_then (Inl e) f = Inl e"
| "and_then (Inr x) f = f x"

lemma and_then_eq_Inr:
  "and_then m f = Inr y \<longleftrightarrow> (\<exists>x. m = Inr x \<and> f x = Inr y)"
  by (cases m) auto

lemma and_then_cong [fundef_cong]:
  "m = m' \<Longrightarrow> (\<And>x. m' = Inr x \<Longrightarrow> f x = f' x) \<Longrightarrow> and_then m f = and_then m' f'"
  by (cases m') auto

fun or_fault :: "fault \<Rightarrow> 'a option \<Rightarrow> fault + 'a" where
  "or_fault e None = Inl e"
| "or_fault e (Some x) = Inr x"

lemma or_fault_eq_Inr [simp]: "or_fault e m = Inr x \<longleftrightarrow> m = Some x"
  by (cases m) auto

lemma and_then_eq_Inl:
  "and_then m f = Inl e \<longleftrightarrow> m = Inl e \<or> (\<exists>x. m = Inr x \<and> f x = Inl e)"
  by (cases m) auto

lemma or_fault_eq_Inl: "or_fault e m = Inl e' \<longleftrightarrow> m = None \<and> e' = e"
  by (cases m) auto

lemma and_then_InrE:
  assumes "and_then m f = Inr y" obtains x where "m = Inr x" "f x = Inr y"
  using assms by (cases m) auto

text \<open>A range-based \<open>for\<close> whose body can fail: the first fault ends it.\<close>

fun fold_r :: "('a \<Rightarrow> 's \<Rightarrow> 'e + 's) \<Rightarrow> 'a list \<Rightarrow> 's \<Rightarrow> 'e + 's" where
  "fold_r f [] s = Inr s"
| "fold_r f (x # xs) s = and_then (f x s) (fold_r f xs)"

lemma fold_r_invariant:
  assumes "fold_r f xs s = Inr s'" and "P s"
    and "\<And>x s s'. x \<in> set xs \<Longrightarrow> P s \<Longrightarrow> f x s = Inr s' \<Longrightarrow> P s'"
  shows "P s'"
  using assms
proof (induction xs arbitrary: s)
  case (Cons x xs)
  from Cons.prems(1) obtain t where t: "f x s = Inr t" "fold_r f xs t = Inr s'"
    by (auto simp: and_then_eq_Inr)
  have "P t" using Cons.prems(2,3) t(1) by auto
  with Cons.IH [OF t(2)] Cons.prems(3) show ?case by auto
qed simp

lemma fold_r_total:
  assumes "P s" and "\<And>x s. x \<in> set xs \<Longrightarrow> P s \<Longrightarrow> \<exists>s'. f x s = Inr s' \<and> P s'"
  shows "\<exists>s'. fold_r f xs s = Inr s' \<and> P s'"
  using assms
proof (induction xs arbitrary: s)
  case (Cons x xs)
  then obtain t where "f x s = Inr t" "P t" by fastforce
  with Cons show ?case by auto
qed simp

subsection \<open>Conversions between size_t and int\<close>

text \<open>\<open>int x = e;\<close> for a \<open>size_t\<close> expression \<open>e\<close>: the low 32 bits, read as signed.\<close>

definition c_int :: "size_t \<Rightarrow> int" where
  "c_int x = sint (ucast x :: 32 word)"

lemma c_int_of_int:
  assumes "- (2 ^ 31) \<le> n" and "n < 2 ^ 31"
  shows "c_int (word_of_int n) = n"
proof -
  have "(ucast (word_of_int n :: size_t) :: 32 word) = word_of_int n"
    by transfer (simp add: take_bit_take_bit)
  then have "c_int (word_of_int n) = signed_take_bit 31 n"
    by (simp add: c_int_def sint_sbintrunc')
  also have "\<dots> = n"
    using assms by (simp add: signed_take_bit_int_eq_self)
  finally show ?thesis .
qed

text \<open>\<open>n -= k\<close> and \<open>int m = n - k\<close> for an \<open>int\<close> \<open>n\<close> and a \<open>size_t\<close> \<open>k\<close>: computed in \<open>size_t\<close>.\<close>

definition int_minus_size :: "int \<Rightarrow> nat \<Rightarrow> int" where
  "int_minus_size n k = c_int (word_of_int n - of_nat k)"

lemma int_minus_size:
  assumes "- (2 ^ 31) \<le> n - int k" and "n - int k < 2 ^ 31"
  shows "int_minus_size n k = n - int k"
proof -
  have "(word_of_int n :: size_t) - of_nat k = word_of_int (n - int k)"
    by (metis of_int_diff of_int_of_nat_eq)
  then show ?thesis
    unfolding int_minus_size_def using c_int_of_int [OF assms] by metis
qed

subsection \<open>std::unordered_map as an association list\<close>

text \<open>
  \<open>m[k] = v\<close> overwrites, \<open>m.erase(k)\<close> deletes and \<open>m.insert({k, v})\<close> keeps the value already
  there; \<open>map_of\<close> is \<open>m.find(k)\<close>. A range-based \<open>for\<close> visits the entries in list order.
\<close>

abbreviation um_assign :: "'k \<Rightarrow> 'v \<Rightarrow> ('k \<times> 'v) list \<Rightarrow> ('k \<times> 'v) list" where
  "um_assign \<equiv> AList.update"

abbreviation um_erase :: "'k \<Rightarrow> ('k \<times> 'v) list \<Rightarrow> ('k \<times> 'v) list" where
  "um_erase \<equiv> AList.delete"

definition um_insert :: "'k \<Rightarrow> 'v \<Rightarrow> ('k \<times> 'v) list \<Rightarrow> ('k \<times> 'v) list" where
  "um_insert k v m = (if map_of m k = None then um_assign k v m else m)"

abbreviation um_ok :: "('k \<times> 'v) list \<Rightarrow> bool" where
  "um_ok m \<equiv> distinct (map fst m)"

lemma map_of_um_assign [simp]: "map_of (um_assign k v m) = (map_of m)(k \<mapsto> v)"
  by (rule update_conv')

lemma map_of_um_erase: "map_of (um_erase k m) = (map_of m)(k := None)"
  by (rule delete_conv')

lemma map_of_um_erase_same [simp]: "map_of (um_erase k m) k = None"
  by (simp add: map_of_um_erase)

lemma map_of_um_insert:
  "map_of (um_insert k v m) k' =
     (if k' = k then Some (case map_of m k of None \<Rightarrow> v | Some w \<Rightarrow> w) else map_of m k')"
  by (auto simp: um_insert_def split: option.splits)

lemma um_ok_assign [simp, intro]: "um_ok m \<Longrightarrow> um_ok (um_assign k v m)"
  by (rule distinct_update)

lemma um_ok_erase [simp, intro]: "um_ok m \<Longrightarrow> um_ok (um_erase k m)"
  by (rule distinct_delete)

lemma um_ok_insert [simp, intro]: "um_ok m \<Longrightarrow> um_ok (um_insert k v m)"
  by (simp add: um_insert_def)

lemma set_um_assign:
  "um_ok m \<Longrightarrow> set (um_assign k v m) = {(k', v') \<in> set m. k' \<noteq> k} \<union> {(k, v)}"
  by (induction m) (auto simp: image_iff)

lemma set_um_assign_subset: "set (um_assign k v m) \<subseteq> insert (k, v) (set m)"
  by (induction m) auto

lemma set_um_erase: "set (um_erase k m) = {(k', v') \<in> set m. k' \<noteq> k}"
  by (induction m) auto

lemma set_um_insert_subset: "set (um_insert k v m) \<subseteq> insert (k, v) (set m)"
  by (auto simp: um_insert_def dest: set_um_assign_subset [THEN subsetD])

lemma map_of_in_set: "map_of m k = Some v \<Longrightarrow> (k, v) \<in> set m"
  by (rule map_of_SomeD)

subsection \<open>Loops that may not end\<close>

text \<open>
  \<open>while_option b c s = None\<close> says that the loop never leaves. A state in which the guard holds
  and the body changes nothing is such a state; a \<open>nat\<close> measure that the body decreases excludes it.
\<close>

lemma while_option_stuck:
  assumes "b s" and "c s = s"
  shows "while_option b c s = None"
proof -
  have "(c ^^ k) s = s" for k
    using assms(2) by (induction k) auto
  with assms(1) show ?thesis by (simp add: while_option_def)
qed

lemma while_option_step: "b s \<Longrightarrow> while_option b c s = while_option b c (c s)"
  by (subst while_option_unfold) simp

lemma while_option_done: "\<not> b s \<Longrightarrow> while_option b c s = Some s"
  by (subst while_option_unfold) simp

subsection \<open>std::priority_queue\<close>

text \<open>
  A min-heap by \<open>key\<close>. \<open>pq_top\<close> is the oldest of the entries with the least key; the C++ standard
  leaves the choice among equal keys open, and the lemmas of the locale below do not depend on it:
  they only use that the top is some entry with a least key and that \<open>pop\<close> removes it.
\<close>

definition pq_push :: "'e \<Rightarrow> 'e list \<Rightarrow> 'e list" where
  "pq_push e q = q @ [e]"

fun pq_top :: "('e \<Rightarrow> int) \<Rightarrow> 'e list \<Rightarrow> 'e option" where
  "pq_top key [] = None"
| "pq_top key (x # xs) =
     (case pq_top key xs of
        None \<Rightarrow> Some x
      | Some y \<Rightarrow> if key x \<le> key y then Some x else Some y)"

definition pq_pop :: "('e \<Rightarrow> int) \<Rightarrow> 'e list \<Rightarrow> 'e list" where
  "pq_pop key q = (case pq_top key q of None \<Rightarrow> q | Some e \<Rightarrow> remove1 e q)"

locale priority_queue =
  fixes key :: "'e \<Rightarrow> int"
    and push :: "'e \<Rightarrow> 'q \<Rightarrow> 'q"
    and top :: "'q \<Rightarrow> 'e option"
    and pop :: "'q \<Rightarrow> 'q"
    and bag :: "'q \<Rightarrow> 'e multiset"
  assumes bag_push: "bag (push e q) = add_mset e (bag q)"
    and top_None: "top q = None \<longleftrightarrow> bag q = {#}"
    and top_in: "top q = Some e \<Longrightarrow> e \<in># bag q"
    and top_le: "top q = Some e \<Longrightarrow> x \<in># bag q \<Longrightarrow> key e \<le> key x"
    and bag_pop: "top q = Some e \<Longrightarrow> bag (pop q) = bag q - {#e#}"
begin

lemma due_iff_top:
  "(\<exists>x \<in># bag q. key x \<le> now) \<longleftrightarrow> (\<exists>e. top q = Some e \<and> key e \<le> now)"
proof
  assume "\<exists>x \<in># bag q. key x \<le> now"
  then obtain x where x: "x \<in># bag q" "key x \<le> now" by blast
  then obtain e where e: "top q = Some e" using top_None by fastforce
  with x show "\<exists>e. top q = Some e \<and> key e \<le> now" using top_le [OF e x(1)] by auto
qed (use top_in in blast)

lemma size_pop: "top q = Some e \<Longrightarrow> size (bag q) = Suc (size (bag (pop q)))"
  using top_in [of q e] by (simp add: bag_pop size_Diff_singleton)
    (metis Suc_pred nonempty_has_size set_mset_empty empty_iff)

lemma top_push_later:
  assumes "top q = Some e" and "key e < key x"
  shows "\<exists>e'. top (push x q) = Some e' \<and> key e' = key e \<and> e' \<in># bag q"
proof -
  have ne: "top (push x q) \<noteq> None" by (simp add: top_None bag_push)
  then obtain e' where e': "top (push x q) = Some e'" by blast
  have "key e' \<le> key e"
    using top_le [OF e', of e] top_in [OF assms(1)] by (simp add: bag_push)
  with assms(2) have "e' \<noteq> x" by auto
  with top_in [OF e'] have in_q: "e' \<in># bag q" by (simp add: bag_push)
  from top_le [OF assms(1) in_q] \<open>key e' \<le> key e\<close> have "key e' = key e" by simp
  with e' in_q show ?thesis by blast
qed

lemma due_push: "key x > now \<Longrightarrow>
    size {#y \<in># bag (push x q). key y \<le> now#} = size {#y \<in># bag q. key y \<le> now#}"
  by (simp add: bag_push)

lemma due_pop:
  assumes "top q = Some e" and "key e \<le> now"
  shows "size {#y \<in># bag (pop q). key y \<le> now#} < size {#y \<in># bag q. key y \<le> now#}"
proof -
  from top_in [OF assms(1)] obtain A where A: "bag q = add_mset e A"
    by (metis multi_member_split)
  with assms show ?thesis by (simp add: bag_pop)
qed

end

lemma pq_top_None: "pq_top key q = None \<longleftrightarrow> q = []"
  by (cases q) (auto split: option.splits)

lemma pq_top_in: "pq_top key q = Some e \<Longrightarrow> e \<in> set q"
  by (induction q arbitrary: e) (auto split: option.splits if_splits)

lemma pq_top_le: "pq_top key q = Some e \<Longrightarrow> x \<in> set q \<Longrightarrow> key e \<le> key x"
proof (induction q arbitrary: e)
  case (Cons a q)
  then show ?case
    by (cases "pq_top key q") (fastforce simp: pq_top_None split: if_splits)+
qed simp

lemma priority_queue_model:
  "priority_queue key pq_push (pq_top key) (pq_pop key) mset"
proof unfold_locales
  fix e q
  assume "pq_top key q = Some e"
  then show "mset (pq_pop key q) = mset q - {#e#}"
    by (simp add: pq_pop_def)
qed (auto simp: pq_push_def pq_top_None dest: pq_top_in pq_top_le)

lemma pq_pop_subset: "set (pq_pop key q) \<subseteq> set q"
  using set_remove1_subset by (fastforce simp: pq_pop_def split: option.splits)

end
