(* ===== verification/Packets.thy ===== *)
theory Packets
  imports Prelude
begin

text \<open>
  The packet data model and the length coding: \<open>mqtt/include/packets.h\<close> and
  \<open>mqtt/src/packets.cpp\<close>. Every struct is a record with its default value, the packet types are a
  datatype with their numeric codes, \<open>Packet::pkt\<close> is a datatype with one constructor per
  alternative of the variant, and the fixed-header byte, the connect flags and the remaining-length
  coding are functions on bytes.
\<close>

subsection \<open>Packet types\<close>

text \<open>
  The enumeration has the fixed underlying type \<open>uint8_t\<close>, so \<open>static_cast\<close> of any byte is a value
  of it; \<open>Reserved\<close> stands for the codes without a name.
\<close>

datatype PacketType =
    CONNECT | CONNACK | PUBLISH | PUBACK | PUBREC | PUBREL | PUBCOMP
  | SUBSCRIBE | SUBACK | UNSUBSCRIBE | UNSUBACK | PINGREQ | PINGRESP | DISCONNECT
  | Reserved u8

fun pt_code :: "PacketType \<Rightarrow> u8" where
  "pt_code CONNECT = 0x01"
| "pt_code CONNACK = 0x02"
| "pt_code PUBLISH = 0x03"
| "pt_code PUBACK = 0x04"
| "pt_code PUBREC = 0x05"
| "pt_code PUBREL = 0x06"
| "pt_code PUBCOMP = 0x07"
| "pt_code SUBSCRIBE = 0x08"
| "pt_code SUBACK = 0x09"
| "pt_code UNSUBSCRIBE = 0x0A"
| "pt_code UNSUBACK = 0x0B"
| "pt_code PINGREQ = 0x0C"
| "pt_code PINGRESP = 0x0D"
| "pt_code DISCONNECT = 0x0E"
| "pt_code (Reserved c) = c"

definition pt_of :: "u8 \<Rightarrow> PacketType" where
  "pt_of c =
     (if c = 0x01 then CONNECT else if c = 0x02 then CONNACK else if c = 0x03 then PUBLISH
      else if c = 0x04 then PUBACK else if c = 0x05 then PUBREC else if c = 0x06 then PUBREL
      else if c = 0x07 then PUBCOMP else if c = 0x08 then SUBSCRIBE else if c = 0x09 then SUBACK
      else if c = 0x0A then UNSUBSCRIBE else if c = 0x0B then UNSUBACK
      else if c = 0x0C then PINGREQ else if c = 0x0D then PINGRESP
      else if c = 0x0E then DISCONNECT else Reserved c)"

definition pt_wf :: "PacketType \<Rightarrow> bool" where
  "pt_wf t \<longleftrightarrow> pt_of (pt_code t) = t \<and> pt_code t < 16"

lemma pt_code_pt_of [simp]: "pt_code (pt_of c) = c"
  by (simp add: pt_of_def)

lemma pt_of_eq_iff: "pt_of c = pt_of d \<longleftrightarrow> c = d"
  by (metis pt_code_pt_of)

lemma pt_wf_named [simp]:
  "pt_wf CONNECT" "pt_wf CONNACK" "pt_wf PUBLISH" "pt_wf PUBACK" "pt_wf PUBREC" "pt_wf PUBREL"
  "pt_wf PUBCOMP" "pt_wf SUBSCRIBE" "pt_wf SUBACK" "pt_wf UNSUBSCRIBE" "pt_wf UNSUBACK"
  "pt_wf PINGREQ" "pt_wf PINGRESP" "pt_wf DISCONNECT"
  by (simp_all add: pt_wf_def pt_of_def)

subsection \<open>The fixed header\<close>

record Header =
  hdr_type :: PacketType
  hdr_dup :: bool
  hdr_qos :: u8
  hdr_retain :: bool

definition Header_default :: Header where
  "Header_default = \<lparr>hdr_type = CONNECT, hdr_dup = False, hdr_qos = 0, hdr_retain = False\<rparr>"

definition header_pack :: "Header \<Rightarrow> u8" where
  "header_pack h =
     (((0 OR push_bit 4 (pt_code (hdr_type h)))
          OR push_bit 3 (of_bool (hdr_dup h)))
          OR push_bit 1 (hdr_qos h))
          OR of_bool (hdr_retain h)"

definition header_unpack :: "u8 \<Rightarrow> Header" where
  "header_unpack byte =
     \<lparr>hdr_type = pt_of (drop_bit 4 byte AND 0x0F),
      hdr_dup = (byte AND 0x08 \<noteq> 0),
      hdr_qos = drop_bit 1 byte AND 0x03,
      hdr_retain = (byte AND 0x01 \<noteq> 0)\<rparr>"

text \<open>The headers whose fields fit their bits: a code of four bits and a two-bit QoS.\<close>

definition header_wf :: "Header \<Rightarrow> bool" where
  "header_wf h \<longleftrightarrow> pt_wf (hdr_type h) \<and> hdr_qos h < 4"

subsection \<open>CONNECT\<close>

record ConnectFlags =
  cf_username :: bool
  cf_passwd :: bool
  cf_will_retain :: bool
  cf_will_qos :: u8
  cf_will :: bool
  cf_cleansession :: bool

definition connect_flags_pack :: "ConnectFlags \<Rightarrow> u8" where
  "connect_flags_pack cf =
     (((((0 OR push_bit 7 (of_bool (cf_username cf)))
            OR push_bit 6 (of_bool (cf_passwd cf)))
            OR push_bit 5 (of_bool (cf_will_retain cf)))
            OR push_bit 3 (cf_will_qos cf))
            OR push_bit 2 (of_bool (cf_will cf)))
            OR push_bit 1 (of_bool (cf_cleansession cf))"

definition connect_flags_unpack :: "u8 \<Rightarrow> ConnectFlags" where
  "connect_flags_unpack byte =
     \<lparr>cf_username = (byte AND 0x80 \<noteq> 0),
      cf_passwd = (byte AND 0x40 \<noteq> 0),
      cf_will_retain = (byte AND 0x20 \<noteq> 0),
      cf_will_qos = drop_bit 3 byte AND 0x03,
      cf_will = (byte AND 0x04 \<noteq> 0),
      cf_cleansession = (byte AND 0x02 \<noteq> 0)\<rparr>"

definition connect_flags_wf :: "ConnectFlags \<Rightarrow> bool" where
  "connect_flags_wf cf \<longleftrightarrow> cf_will_qos cf < 4"

definition ConnectFlags_default :: ConnectFlags where
  "ConnectFlags_default =
     \<lparr>cf_username = False, cf_passwd = False, cf_will_retain = False, cf_will_qos = 0,
      cf_will = False, cf_cleansession = False\<rparr>"

record Connect =
  cn_level :: u8
  cn_cf :: ConnectFlags
  cn_keep_alive :: u16
  cn_client_id :: string
  cn_will_topic :: string
  cn_will_msg :: string
  cn_username :: string
  cn_passwd :: string

definition Connect_default :: Connect where
  "Connect_default =
     \<lparr>cn_level = 4, cn_cf = ConnectFlags_default, cn_keep_alive = 0, cn_client_id = '''',
      cn_will_topic = '''', cn_will_msg = '''', cn_username = '''', cn_passwd = ''''\<rparr>"

subsection \<open>The other packets\<close>

record Connack =
  ack_flags :: u8
  return_code :: u8

definition Connack_default :: Connack where
  "Connack_default = \<lparr>ack_flags = 0, return_code = 0\<rparr>"

text \<open>
  \<open>htons\<close> of the host: the bytes are swapped on a little-endian machine and left alone on a
  big-endian one. Every definition that packs a 16-bit value takes the host's byte order.
\<close>

definition htons :: "bool \<Rightarrow> u16 \<Rightarrow> u16" where
  "htons little_endian x =
     (if little_endian then push_bit 8 x OR drop_bit 8 x else x)"

definition connack_pack :: "bool \<Rightarrow> Connack \<Rightarrow> u16" where
  "connack_pack le ca =
     htons le ((0 OR push_bit 8 (ucast (ack_flags ca))) OR ucast (return_code ca))"

record Publish =
  pub_topic :: string
  pub_packet_id :: u16
  pub_payload :: "u8 list"

definition Publish_default :: Publish where
  "Publish_default = \<lparr>pub_topic = '''', pub_packet_id = 0, pub_payload = []\<rparr>"

record Ack =
  ack_packet_id :: u16

text \<open>The five acknowledgement packets are one C++ type, so a test for one of them passes for all.\<close>

type_synonym Puback = Ack
type_synonym Pubrec = Ack
type_synonym Pubrel = Ack
type_synonym Pubcomp = Ack
type_synonym Unsuback = Ack

definition Ack_default :: Ack where
  "Ack_default = \<lparr>ack_packet_id = 0\<rparr>"

definition ack_pack :: "bool \<Rightarrow> Ack \<Rightarrow> u16" where
  "ack_pack le a = htons le (ack_packet_id a)"

record topic_tuple =
  tp_topic :: string
  tp_qos :: u8

record Subscribe =
  sub_packet_id :: u16
  sub_payload :: "topic_tuple list"

record Suback =
  suback_packet_id :: u16
  suback_return_codes :: "u8 list"

record Unsubscribe =
  unsub_packet_id :: u16
  unsub_topics :: "string list"

subsection \<open>The packet container\<close>

datatype variant =
    VConnack Connack
  | VAck Ack
  | VConnect Connect
  | VPublish Publish
  | VSubscribe Subscribe
  | VUnsubscribe Unsubscribe

record Packet =
  header :: Header
  pkt_len :: nat
  pkt :: variant

text \<open>A value-initialised variant holds its first alternative.\<close>

definition Packet_default :: Packet where
  "Packet_default = \<lparr>header = Header_default, pkt_len = 0, pkt = VConnack Connack_default\<rparr>"

text \<open>\<open>std::get\<close> throws \<open>bad_variant_access\<close> when another alternative is held.\<close>

fun get_publish :: "variant \<Rightarrow> fault + Publish" where
  "get_publish (VPublish p) = Inr p"
| "get_publish _ = Inl BadVariantAccess"

fun get_ack :: "variant \<Rightarrow> fault + Ack" where
  "get_ack (VAck a) = Inr a"
| "get_ack _ = Inl BadVariantAccess"

fun get_connect :: "variant \<Rightarrow> fault + Connect" where
  "get_connect (VConnect c) = Inr c"
| "get_connect _ = Inl BadVariantAccess"

fun get_unsubscribe :: "variant \<Rightarrow> fault + Unsubscribe" where
  "get_unsubscribe (VUnsubscribe u) = Inr u"
| "get_unsubscribe _ = Inl BadVariantAccess"

subsection \<open>The remaining length\<close>

text \<open>
  \<open>encode_length\<close> appends to the buffer and returns \<open>encodedbyte\<close>, which its loop never increments.
  \<open>smod\<close> and \<open>sdiv\<close> truncate towards zero, as C++ does.
\<close>

function encode_loop :: "int \<Rightarrow> int \<Rightarrow> u8 list \<Rightarrow> int \<times> u8 list" where
  "encode_loop encodedbyte len buff =
     (if encodedbyte + 1 > 4 then (encodedbyte, buff)
      else
        let d = len smod 128;
            len' = len sdiv 128;
            d' = (if len' > 0 then d OR 128 else d);
            buff' = buff @ [word_of_int d']
        in if len' > 0 then encode_loop encodedbyte len' buff' else (encodedbyte, buff'))"
  by pat_completeness auto
termination
proof (relation "measure (\<lambda>(_, len, _). nat len)")
  fix encodedbyte len d len' d' :: int and buff buff' :: "u8 list"
  assume "\<not> encodedbyte + 1 > 4" "len' = len sdiv 128" "0 < len'"
  then have "0 < len" "len' = len div 128"
    by (auto simp: signed_divide_int_def sgn_if split: if_splits)
  with \<open>0 < len'\<close> show "((encodedbyte, len', buff'), encodedbyte, len, buff) \<in>
      measure (\<lambda>(_, len, _). nat len)" by simp
qed simp

declare encode_loop.simps [simp del]

definition encode_length :: "int \<Rightarrow> u8 list \<Rightarrow> int \<times> u8 list" where
  "encode_length len buff = encode_loop 0 len buff"

text \<open>
  \<open>decode_length\<close> reads at \<open>*buff\<close>, an offset into the bytes \<open>mem\<close> that the pointer may be followed
  into. The bound check compares with \<open>available_bytes\<close>, the throw comes after the digit is added.
\<close>

function decode_loop ::
    "u8 list \<Rightarrow> nat \<Rightarrow> nat \<Rightarrow> nat \<Rightarrow> int \<Rightarrow> int \<Rightarrow> fault + (size_t \<times> nat)" where
  "decode_loop mem available_bytes pos bytes_read len multiplier =
     (if bytes_read \<ge> available_bytes then Inr (- 1, pos)
      else if pos \<ge> length mem then Inl OutOfBounds
      else
        let nextbyte = mem ! pos;
            len' = len + uint (nextbyte AND 127) * multiplier;
            multiplier' = multiplier * 128
        in if multiplier' > 128 * 128 * 128
           then Inl (RuntimeError ''Malformed Remaining Length!!'')
           else if nextbyte AND 128 \<noteq> 0
           then decode_loop mem available_bytes (pos + 1) (bytes_read + 1) len' multiplier'
           else Inr (word_of_int len', pos + 1))"
  by pat_completeness auto
termination
  by (relation "measure (\<lambda>(_, av, _, br, _, _). av - br)") auto

declare decode_loop.simps [simp del]

definition decode_length :: "u8 list \<Rightarrow> nat \<Rightarrow> nat \<Rightarrow> fault + (size_t \<times> nat)" where
  "decode_length mem pos available_bytes = decode_loop mem available_bytes pos 0 0 1"

subsection \<open>Bytes, bit by bit\<close>

lemma and_masks: "(x::u8) AND 0x0F = take_bit 4 x" "(x::u8) AND 0x03 = take_bit 2 x"
   "(x::u8) AND 127 = take_bit 7 x"
  by (simp_all add: take_bit_eq_mask mask_eq_exp_minus_1)

lemma bit_of_bool_u8: "bit (of_bool P :: u8) n \<longleftrightarrow> P \<and> n = 0"
  by (auto simp: bit_1_iff)

lemma and_bit_test:
  "((b::u8) AND 0x80 \<noteq> 0) = bit b 7" "(b AND 0x40 \<noteq> 0) = bit b 6"
  "(b AND 0x20 \<noteq> 0) = bit b 5" "(b AND 0x08 \<noteq> 0) = bit b 3"
  "(b AND 0x04 \<noteq> 0) = bit b 2" "(b AND 0x02 \<noteq> 0) = bit b 1"
  "(b AND 0x01 \<noteq> 0) = bit b 0"
  using and_exp_eq_0_iff_not_bit [of b 7] and_exp_eq_0_iff_not_bit [of b 6]
    and_exp_eq_0_iff_not_bit [of b 5] and_exp_eq_0_iff_not_bit [of b 3]
    and_exp_eq_0_iff_not_bit [of b 2] and_exp_eq_0_iff_not_bit [of b 1]
    and_exp_eq_0_iff_not_bit [of b 0] by simp_all

lemma bit_push_u8: "bit (push_bit m (x::u8)) n \<longleftrightarrow> m \<le> n \<and> n < 8 \<and> bit x (n - m)"
  by (auto simp: bit_push_bit_iff possible_bit_word)

lemma bit_push_flag:
  "bit (push_bit 7 (of_bool P :: u8)) n \<longleftrightarrow> n = 7 \<and> P"
  "bit (push_bit 6 (of_bool P :: u8)) n \<longleftrightarrow> n = 6 \<and> P"
  "bit (push_bit 5 (of_bool P :: u8)) n \<longleftrightarrow> n = 5 \<and> P"
  "bit (push_bit 2 (of_bool P :: u8)) n \<longleftrightarrow> n = 2 \<and> P"
  "bit (push_bit 1 (of_bool P :: u8)) n \<longleftrightarrow> n = 1 \<and> P"
  unfolding bit_push_u8 bit_of_bool_u8 by auto

lemma take_bit_u8_less: "k < 8 \<Longrightarrow> take_bit k (x::u8) < 2 ^ k"
  unfolding take_bit_eq_mask by (rule and_mask_less') simp

lemma bit_zero: "bit (0::u8) n = False" by simp

lemmas u8_bits = bit_or_iff bit_push_u8 bit_drop_bit_eq bit_take_bit_iff bit_of_bool_u8 o_apply bit_zero

lemma less_8_cases: "n < 8 \<Longrightarrow> n = 0 \<or> n = 1 \<or> n = 2 \<or> n = 3 \<or> n = 4 \<or> n = 5 \<or> n = 6 \<or> n = (7::nat)"
  by arith

subsection \<open>The two flag bytes as codecs\<close>

text \<open>
  The interface both flag bytes keep: unpacking always gives a well-formed record, packing a
  well-formed record loses nothing, and packing what was unpacked gives the byte back up to \<open>norm\<close>
  (the bits the code does not read).
\<close>

locale byte_codec =
  fixes pack :: "'h \<Rightarrow> u8"
    and unpack :: "u8 \<Rightarrow> 'h"
    and wf :: "'h \<Rightarrow> bool"
    and norm :: "u8 \<Rightarrow> u8"
  assumes wf_unpack: "wf (unpack b)"
    and unpack_pack: "wf h \<Longrightarrow> unpack (pack h) = h"
    and pack_unpack: "pack (unpack b) = norm b"
begin

lemma pack_inj: "wf h \<Longrightarrow> wf h' \<Longrightarrow> pack h = pack h' \<longleftrightarrow> h = h'"
  by (metis unpack_pack)

lemma norm_idem: "norm (norm b) = norm b"
  by (metis pack_unpack unpack_pack wf_unpack)

lemma unpack_eq_iff: "unpack b = unpack b' \<longleftrightarrow> norm b = norm b'"
  by (metis pack_unpack unpack_pack wf_unpack)

lemma norm_pack: "wf h \<Longrightarrow> norm (pack h) = pack h"
  by (metis pack_unpack unpack_pack)

lemma range_unpack: "range unpack = {h. wf h}"
  by (auto simp: wf_unpack) (metis rangeI unpack_pack)

end

lemma bit_header_pack: "bit (header_pack h) n \<longleftrightarrow>
   (4 \<le> n \<and> n < 8 \<and> bit (pt_code (hdr_type h)) (n - 4)) \<or> (n = 3 \<and> hdr_dup h) \<or>
   (1 \<le> n \<and> n < 8 \<and> bit (hdr_qos h) (n - 1)) \<or> (n = 0 \<and> hdr_retain h)"
  unfolding header_pack_def u8_bits by auto

lemma bit_header_unpack:
  "bit (pt_code (hdr_type (header_unpack b))) n \<longleftrightarrow> n < 4 \<and> bit b (4 + n)"
  "hdr_dup (header_unpack b) \<longleftrightarrow> bit b 3"
  "bit (hdr_qos (header_unpack b)) n \<longleftrightarrow> n < 2 \<and> bit b (1 + n)"
  "hdr_retain (header_unpack b) \<longleftrightarrow> bit b 0"
  unfolding header_unpack_def Header.simps and_masks and_bit_test pt_code_pt_of u8_bits by auto

lemma bit_less_2p: "(x::u8) < 2 ^ k \<Longrightarrow> bit x n \<Longrightarrow> n < k"
  using less_mask_eq [of x k] bit_mask_iff [of k n, where ?'a = "8 word"] by (metis bit_and_iff)

lemma header_pack_unpack: "header_pack (header_unpack b) = b"
proof (rule bit_word_eqI)
  fix n assume n: "n < LENGTH(8)"
  then show "bit (header_pack (header_unpack b)) n = bit b n"
    unfolding bit_header_pack bit_header_unpack
    using less_8_cases [of n] by (auto simp: numeral_eq_Suc)
qed

lemma header_wf_unpack: "header_wf (header_unpack b)"
  using take_bit_u8_less [of 4 "drop_bit 4 b"] take_bit_u8_less [of 2 "drop_bit 1 b"]
  by (simp add: header_wf_def pt_wf_def header_unpack_def and_masks)

lemma header_unpack_pack:
  assumes "header_wf h" shows "header_unpack (header_pack h) = h"
proof -
  let ?h = "header_unpack (header_pack h)"
  have c: "pt_code (hdr_type h) < 2 ^ 4" and q: "hdr_qos h < 2 ^ 2" and t: "pt_of (pt_code (hdr_type h)) = hdr_type h"
    using assms by (simp_all add: header_wf_def pt_wf_def)
  have "pt_code (hdr_type ?h) = pt_code (hdr_type h)"
    by (rule bit_word_eqI)
      (use bit_less_2p [OF c] bit_less_2p [OF q] in \<open>fastforce simp: bit_header_unpack bit_header_pack\<close>)
  then have "hdr_type ?h = hdr_type h"
    using t by (metis header_wf_def header_wf_unpack pt_wf_def)
  moreover have "hdr_qos ?h = hdr_qos h"
    by (rule bit_word_eqI)
      (use bit_less_2p [OF c] bit_less_2p [OF q] in \<open>fastforce simp: bit_header_unpack bit_header_pack\<close>)
  moreover have "hdr_dup ?h = hdr_dup h" "hdr_retain ?h = hdr_retain h"
    using bit_less_2p [OF q, of 2] bit_less_2p [OF c]
    by (auto simp: bit_header_unpack bit_header_pack)
  ultimately show ?thesis by simp
qed

interpretation header_codec: byte_codec header_pack header_unpack header_wf "\<lambda>b. b"
  by unfold_locales (rule header_wf_unpack header_unpack_pack header_pack_unpack; assumption?)+

lemma bit_cf_pack: "bit (connect_flags_pack c) n \<longleftrightarrow>
   (n = 7 \<and> cf_username c) \<or> (n = 6 \<and> cf_passwd c) \<or> (n = 5 \<and> cf_will_retain c) \<or>
   (3 \<le> n \<and> n < 8 \<and> bit (cf_will_qos c) (n - 3)) \<or> (n = 2 \<and> cf_will c) \<or> (n = 1 \<and> cf_cleansession c)"
  unfolding connect_flags_pack_def bit_or_iff bit_push_flag
  unfolding bit_push_u8 bit_zero by blast

lemma bit_cf_unpack:
  "cf_username (connect_flags_unpack b) \<longleftrightarrow> bit b 7"
  "cf_passwd (connect_flags_unpack b) \<longleftrightarrow> bit b 6"
  "cf_will_retain (connect_flags_unpack b) \<longleftrightarrow> bit b 5"
  "bit (cf_will_qos (connect_flags_unpack b)) n \<longleftrightarrow> n < 2 \<and> bit b (3 + n)"
  "cf_will (connect_flags_unpack b) \<longleftrightarrow> bit b 2"
  "cf_cleansession (connect_flags_unpack b) \<longleftrightarrow> bit b 1"
  unfolding connect_flags_unpack_def ConnectFlags.simps and_masks and_bit_test u8_bits by auto

lemma connect_flags_pack_unpack: "connect_flags_pack (connect_flags_unpack b) = b AND 0xFE"
proof (rule bit_word_eqI)
  fix n assume n: "n < LENGTH(8)"
  have "bit (0xFE :: u8) n \<longleftrightarrow> n \<noteq> 0"
    using less_8_cases [of n] n by auto
  with n show "bit (connect_flags_pack (connect_flags_unpack b)) n = bit (b AND 0xFE) n"
    unfolding bit_cf_pack bit_cf_unpack bit_and_iff
    using less_8_cases [of n] by (auto simp: numeral_eq_Suc)
qed

lemma connect_flags_unpack_pack:
  assumes "connect_flags_wf c" shows "connect_flags_unpack (connect_flags_pack c) = c"
proof -
  let ?c = "connect_flags_unpack (connect_flags_pack c)"
  have q: "cf_will_qos c < 2 ^ 2"
    using assms by (simp add: connect_flags_wf_def)
  have "cf_will_qos ?c = cf_will_qos c"
    by (rule bit_word_eqI)
      (use bit_less_2p [OF q] in \<open>fastforce simp: bit_cf_unpack bit_cf_pack\<close>)
  moreover have "cf_username ?c = cf_username c" "cf_passwd ?c = cf_passwd c"
    "cf_will_retain ?c = cf_will_retain c" "cf_will ?c = cf_will c" "cf_cleansession ?c = cf_cleansession c"
    using bit_less_2p [OF q] by (force simp: bit_cf_unpack bit_cf_pack)+
  ultimately show ?thesis by simp
qed

lemma connect_flags_wf_unpack: "connect_flags_wf (connect_flags_unpack b)"
  using take_bit_u8_less [of 2 "drop_bit 3 b"]
  by (simp add: connect_flags_wf_def connect_flags_unpack_def and_masks)

interpretation connect_flags_codec:
  byte_codec connect_flags_pack connect_flags_unpack connect_flags_wf "\<lambda>b. b AND 0xFE"
  by unfold_locales
    (rule connect_flags_wf_unpack connect_flags_unpack_pack connect_flags_pack_unpack; assumption?)+

subsection \<open>The variable byte integer\<close>

text \<open>
  The reference form of the remaining length: little-endian base-128 digits, the high bit set on
  all but the last.
\<close>

fun vbi :: "nat \<Rightarrow> u8 list" where
  "vbi n = (if n < 128 then [of_nat n] else of_nat (n mod 128 + 128) # vbi (n div 128))"

declare vbi.simps [simp del]

lemma vbi_small: "n < 128 \<Longrightarrow> vbi n = [of_nat n]"
  by (subst vbi.simps) simp

lemma vbi_large: "\<not> n < 128 \<Longrightarrow> vbi n = of_nat (n mod 128 + 128) # vbi (n div 128)"
  by (subst vbi.simps) simp

lemma or_128: "(d::int) \<ge> 0 \<Longrightarrow> d < 128 \<Longrightarrow> d OR 128 = d + 128"
proof -
  assume "d \<ge> 0" "d < 128"
  then have "take_bit 7 d = d" by (simp add: take_bit_int_eq_self)
  then have "d AND 128 = 0"
    using bit_take_bit_iff [of 7 d 7] and_exp_eq_0_iff_not_bit [of d 7] by simp
  then show ?thesis by (simp add: disjunctive_add_eq_or [symmetric])
qed

lemma encode_loop_vbi:
  "encode_loop 0 (int n) buff = (0, buff @ vbi n)"
proof (induction n arbitrary: buff rule: vbi.induct)
  case (1 n)
  have d: "int n smod 128 = int (n mod 128)" "int n sdiv 128 = int (n div 128)"
    by (simp_all add: signed_modulo_int_def signed_divide_int_def zdiv_int zmod_int sgn_if)
  show ?case
  proof (cases "n < 128")
    case True
    then show ?thesis by (subst encode_loop.simps) (simp add: vbi_small d)
  next
    case False
    then have "0 < n div 128" by simp
    have o: "int (n mod 128) OR 128 = int (n mod 128 + 128)" by (simp add: or_128)
    show ?thesis
      using "1.IH" [OF False] False \<open>0 < n div 128\<close>
      by (subst encode_loop.simps) (simp add: Let_def d o vbi_large del: of_nat_add of_nat_div of_nat_mod)
  qed
qed

lemma vbi_not_Nil [simp]: "vbi n \<noteq> []"
  by (subst vbi.simps) simp

lemma length_vbi_le: "length (vbi n) \<le> Suc k \<longleftrightarrow> n < 128 ^ Suc k"
proof (induction k arbitrary: n)
  case 0
  then show ?case by (cases "n < 128") (simp_all add: vbi_small vbi_large)
next
  case (Suc k)
  have "n div 128 < 128 ^ Suc k \<longleftrightarrow> n < 128 ^ Suc (Suc k)"
    by (simp add: div_less_iff_less_mult mult.commute)
  moreover have "n < 128 \<Longrightarrow> n < 128 ^ Suc (Suc k)"
    by (rule less_le_trans [where y = "128 ^ 1"]) (simp, rule power_increasing, simp_all)
  ultimately show ?case using Suc.IH [of "n div 128"]
    by (cases "n < 128") (simp_all add: vbi_small vbi_large)
qed

lemma unat_digit:
  assumes "d < 128" shows "unat (of_nat d :: u8) = d" "unat (of_nat (d + 128) :: u8) = d + 128"
  using assms by (simp_all only: unat_of_nat) simp_all

lemma digit_low:
  assumes "d < 128"
  shows "uint ((of_nat d :: u8) AND 127) = int d" "uint ((of_nat (d + 128) :: u8) AND 127) = int d"
proof -
  have m: "(m::nat) AND 127 = m mod 128" for m
    using take_bit_eq_mask [of 7 m] by (simp add: mask_eq_exp_minus_1 take_bit_eq_mod)
  have "unat (x AND 127) = unat x mod 128" for x :: u8
    by (simp add: unsigned_and_eq m)
  then have "unat ((of_nat d :: u8) AND 127) = d" "unat ((of_nat (d + 128) :: u8) AND 127) = d"
    using assms by (simp_all only: unat_digit) simp_all
  then show "uint ((of_nat d :: u8) AND 127) = int d" "uint ((of_nat (d + 128) :: u8) AND 127) = int d"
    by (metis uint_nat)+
qed

lemma digit_high:
  assumes "d < 128"
  shows "(of_nat d :: u8) AND 128 = 0" "(of_nat (d + 128) :: u8) AND 128 \<noteq> 0"
proof -
  have "x AND 128 = 0 \<longleftrightarrow> even (unat x div 128)" for x :: u8
    using and_exp_eq_0_iff_not_bit [of x 7] bit_unsigned_iff [of x 7, where ?'a = nat]
    by (simp add: bit_iff_odd)
  then show "(of_nat d :: u8) AND 128 = 0" "(of_nat (d + 128) :: u8) AND 128 \<noteq> 0"
    using assms by (simp_all only: unat_digit) (simp_all add: div_add_self2)
qed

lemma decode_loop_vbi:
  assumes "br + length (vbi n) \<le> avail" and "k \<le> 3"
  shows "decode_loop (pre @ vbi n @ post) avail (length pre) br len (128 ^ k) =
    (if k + length (vbi n) \<le> 3 then Inr (word_of_int (len + int n * 128 ^ k), length pre + length (vbi n))
     else Inl (RuntimeError ''Malformed Remaining Length!!''))"
  using assms
proof (induction n arbitrary: pre br len k rule: vbi.induct)
  case (1 n)
  have mult: "(128::int) ^ k * 128 > 128 * 128 * 128 \<longleftrightarrow> k = 3"
    using "1.prems"(2) by (auto simp: le_less_Suc_eq numeral_eq_Suc le_Suc_eq)
  have av: "\<not> avail \<le> br"
    using "1.prems"(1) by (cases "vbi n") auto
  show ?case
  proof (cases "n < 128")
    case True
    with "1.prems" mult av show ?thesis
      by (subst decode_loop.simps) (auto simp: vbi_small digit_low digit_high Let_def)
  next
    case False
    let ?d = "n mod 128"
    let ?c = "of_nat (?d + 128) :: u8"
    have mem: "pre @ vbi n @ post = (pre @ [?c]) @ vbi (n div 128) @ post"
      using False by (simp add: vbi_large)
    have d: "uint (?c AND 127) = int ?d" "?c AND 128 \<noteq> 0"
      by (intro digit_low digit_high; simp)+
    have nth: "(pre @ vbi n @ post) ! length pre = ?c" "length pre < length (pre @ vbi n @ post)"
      using False by (simp_all add: vbi_large nth_append)
    show ?thesis
    proof (cases "k = 3")
      case True
      with "1.prems" mult av show ?thesis
        by (subst decode_loop.simps) (simp add: nth Let_def del: of_nat_add)
    next
      case k: False
      have IH: "decode_loop ((pre @ [?c]) @ vbi (n div 128) @ post) avail (length (pre @ [?c])) (Suc br)
          (len + int ?d * 128 ^ k) (128 ^ Suc k) =
        (if Suc k + length (vbi (n div 128)) \<le> 3 then Inr (word_of_int (len + int ?d * 128 ^ k + int (n div 128) * 128 ^ Suc k), length (pre @ [?c]) + length (vbi (n div 128)))
         else Inl (RuntimeError ''Malformed Remaining Length!!''))"
        by (rule "1.IH" [OF False]) (use "1.prems" k False in \<open>simp_all add: vbi_large\<close>)
      have num: "len + int ?d * 128 ^ k + int (n div 128) * 128 ^ Suc k = len + int n * 128 ^ k"
      proof -
        have "int n = int ?d + int (n div 128) * 128"
          by (metis mod_div_mult_eq of_nat_add of_nat_mult of_nat_numeral)
        then show ?thesis by (simp add: algebra_simps)
      qed
      note IH' = IH [unfolded num]
      show ?thesis
        using "1.prems" av mult k d nth IH' False
        by (subst decode_loop.simps)
          (simp add: Let_def mult.commute vbi_large del: of_nat_add of_nat_mod of_nat_div flip: mem)
    qed
  qed
qed

lemma decode_loop_bounds:
  assumes "decode_loop mem avail pos br len m = Inr (v, p)"
    and "m = 128 ^ k" and "k \<le> 3" and "0 \<le> len" and "len < 128 ^ k"
  shows "v = - 1 \<or> (\<exists>n < 128 ^ 3. v = word_of_nat n \<and> pos < p \<and> p + k \<le> pos + 3 \<and> p \<le> length mem)"
  using assms
proof (induction mem avail pos br len m arbitrary: k rule: decode_loop.induct)
  case (1 mem avail pos br len m)
  define b where "b = mem ! pos"
  define d where "d = uint (b AND 127)"
  have d: "0 \<le> d" "d < 128"
    using take_bit_u8_less [of 7 b] by (simp_all add: d_def and_masks word_less_def)
  have k3: "k \<noteq> 3 \<longleftrightarrow> \<not> m * 128 > 128 * 128 * 128"
    using "1.prems"(2,3) by (auto simp: le_less_Suc_eq numeral_eq_Suc le_Suc_eq)
  have len': "0 \<le> len + d * m" "len + d * m < 128 ^ Suc k"
  proof -
    have "d * 128 ^ k \<le> 127 * 128 ^ k" "0 \<le> d * 128 ^ k"
      using d by (simp_all add: mult_right_mono)
    then have "0 \<le> len + d * m \<and> len + d * m < 128 * 128 ^ k"
      using "1.prems"(4,5) unfolding "1.prems"(2) by linarith
    then show "0 \<le> len + d * m" "len + d * m < 128 ^ Suc k" by simp_all
  qed
  show ?case
  proof (cases "avail \<le> br \<or> length mem \<le> pos \<or> k = 3")
    case True
    with "1.prems"(1) k3 show ?thesis
      by (subst (asm) decode_loop.simps) (auto simp: Let_def split: if_splits)
  next
    case False
    then have k: "Suc k \<le> 3" using "1.prems"(3) by simp
    show ?thesis
    proof (cases "b AND 128 = 0")
      case True
      have "len + d * m < 128 ^ 3"
        using len'(2) power_increasing [of "Suc k" 3 "128::int"] k by simp
      with True False "1.prems"(1) k3 k len'(1) show ?thesis
        by (subst (asm) decode_loop.simps)
          (auto simp: Let_def b_def d_def nat_less_iff intro!: exI [of _ "nat (len + d * m)"]) 
    next
      case cont: False
      have "decode_loop mem avail (pos + 1) (br + 1) (len + d * m) (m * 128) = Inr (v, p)"
        using "1.prems"(1) False cont k3
        by (subst (asm) decode_loop.simps) (simp add: Let_def b_def d_def)
      from "1.IH" [OF _ _ refl refl refl _ _ this [unfolded d_def b_def], of "Suc k"]
        False cont k3 d len' k "1.prems"(2)
      show ?thesis by (auto simp: d_def b_def mult.commute)
    qed
  qed
qed

lemma decode_length_vbi:
  assumes "length (vbi n) \<le> avail"
  shows "decode_length (pre @ vbi n @ post) (length pre) avail =
    (if n < 128 ^ 3 then Inr (word_of_nat n, length pre + length (vbi n))
     else Inl (RuntimeError ''Malformed Remaining Length!!''))"
  using decode_loop_vbi [of 0 n avail 0 pre post 0] assms length_vbi_le [of n 2]
  by (simp add: decode_length_def)

lemma decode_length_bounds:
  assumes "decode_length mem pos avail = Inr (v, p)"
  shows "v = - 1 \<or> (\<exists>n < 128 ^ 3. v = word_of_nat n \<and> pos < p \<and> p \<le> pos + 3 \<and> p \<le> length mem)"
  using decode_loop_bounds [of mem avail pos 0 0 1 v p 0] assms by (simp add: decode_length_def)

lemma encode_length_vbi: "encode_length (int n) buff = (0, buff @ vbi n)"
  by (simp add: encode_length_def encode_loop_vbi)

subsection \<open>What one pushed byte keeps of a 16-bit value\<close>

text \<open>
  The handlers append \<open>Connack::pack()\<close> and \<open>Ack::pack()\<close> with \<open>push_back\<close> on a byte vector, which
  converts the 16-bit value to its low byte.
\<close>

lemma ucast_u16_low_or:
  "(ucast (push_bit 8 (x :: u16) OR y) :: u8) = ucast y"
  by (rule bit_word_eqI) (auto simp: bit_simps)

lemma connack_pack_byte:
  "(ucast (connack_pack le ca) :: u8) = (if le then ack_flags ca else return_code ca)"
  by (rule bit_word_eqI)
    (auto simp: connack_pack_def htons_def bit_simps dest: bit_imp_le_length)

lemma ack_pack_byte:
  "(ucast (ack_pack le a) :: u8) =
     (if le then ucast (drop_bit 8 (ack_packet_id a)) else ucast (ack_packet_id a))"
  by (simp add: ack_pack_def htons_def ucast_u16_low_or)

subsection \<open>Properties\<close>

text \<open>C38: The remaining-length coding. \<open>decode_length\<close> inverts \<open>encode_length\<close> for every length below
  2097152, wherever the bytes stand, and reports the position behind them; a larger length, which
  \<open>encode_length\<close> writes in four bytes, is answered by an exception. \<open>encode_length\<close> returns 0 and
  never the number of bytes it has appended.\<close>

theorem decode_encode_length:
  assumes "encode_length (int n) [] = (k, bytes)" and "length bytes \<le> avail"
  shows "k = 0 \<and> bytes \<noteq> [] \<and>
    decode_length (pre @ bytes @ post) (length pre) avail =
      (if n < 2097152 then Inr (word_of_nat n, length pre + length bytes)
       else Inl (RuntimeError ''Malformed Remaining Length!!''))"
proof -
  have b: "k = 0" "bytes = vbi n" using assms(1) by (simp_all add: encode_length_vbi)
  have "vbi n \<noteq> []" by (subst vbi.simps) simp
  with b decode_length_vbi [of n avail pre post] assms(2) show ?thesis by simp
qed

theorem decode_encode_length_witness:
  "decode_length ([0x30] @ [0xC8, 0x01] @ [7]) 1 2 = Inr (200, 3)"
proof -
  have "encode_length (int 200) [] = (0, [0xC8, 0x01])"
    by (simp only: encode_length_vbi) (simp add: vbi_large vbi_small)
  from decode_encode_length [OF this, of 2 "[0x30]" "[7]"] show ?thesis by simp
qed

end
