(* ===== verification/Client_Session.thy ===== *)
theory Client_Session
  imports Packets
begin

text \<open>
  The persistent state of a client, \<open>struct ClientSession\<close> of \<open>mqtt/include/mqttsession.h\<close>: the
  packet-id generator, the two in-flight maps and the offline queue. The \<open>weak_ptr\<close> to the transport
  is the number of an \<open>MqttSession\<close> (\<open>None\<close> when it was never set). Times are milliseconds of the
  steady clock, as integers: \<open>keep_alive * 1500\<close> is below \<open>2 ^ 27\<close>, so neither the \<open>int\<close> product nor
  the \<open>int64_t\<close> sum can wrap for a clock below \<open>2 ^ 62\<close>.
\<close>

record ClientSession =
  client_id :: string
  keep_alive :: u16
  cleansession :: bool
  connected :: bool
  subscriptions :: "string list"
  cs_session :: "nat option"
  expiry_ms :: int
  last_activity :: int
  inflight :: "(u16 \<times> Packet) list"
  inflight_ack :: "(u16 \<times> Packet) list"
  message_queue :: "Packet list"
  next_packet_id :: u16

definition ClientSession_new :: ClientSession where
  "ClientSession_new =
     \<lparr>client_id = '''', keep_alive = 0, cleansession = False, connected = False,
      subscriptions = [], cs_session = None, expiry_ms = 0, last_activity = 0,
      inflight = [], inflight_ack = [], message_queue = [], next_packet_id = 1\<rparr>"

subsection \<open>Operations\<close>

definition allocatePacketId :: "ClientSession \<Rightarrow> u16 \<times> ClientSession" where
  "allocatePacketId cs =
     (let n = next_packet_id cs + 1 in
      if n = 0 then (1, cs\<lparr>next_packet_id := 1\<rparr>)
      else (n, cs\<lparr>next_packet_id := n\<rparr>))"

definition storeInflight :: "Packet \<Rightarrow> ClientSession \<Rightarrow> fault + ClientSession" where
  "storeInflight packet cs =
     and_then (get_publish (pkt packet)) (\<lambda>pub.
     Inr (cs\<lparr>inflight := um_insert (pub_packet_id pub) packet (inflight cs)\<rparr>))"

definition storeInflightAcknowlegement :: "Packet \<Rightarrow> ClientSession \<Rightarrow> fault + ClientSession" where
  "storeInflightAcknowlegement packet cs =
     and_then (get_ack (pkt packet)) (\<lambda>ack.
     Inr (cs\<lparr>inflight_ack := um_insert (ack_packet_id ack) packet (inflight_ack cs)\<rparr>))"

definition removeFromInflight :: "u16 \<Rightarrow> ClientSession \<Rightarrow> Packet \<times> ClientSession" where
  "removeFromInflight packet_id cs =
     (case map_of (inflight cs) packet_id of
        Some p \<Rightarrow> (p, cs\<lparr>inflight := um_erase packet_id (inflight cs)\<rparr>)
      | None \<Rightarrow> (Packet_default, cs))"

definition removeFromInflightAcknowlegement :: "u16 \<Rightarrow> ClientSession \<Rightarrow> Packet \<times> ClientSession" where
  "removeFromInflightAcknowlegement packet_id cs =
     (case map_of (inflight_ack cs) packet_id of
        Some p \<Rightarrow> (p, cs\<lparr>inflight_ack := um_erase packet_id (inflight_ack cs)\<rparr>)
      | None \<Rightarrow> (Packet_default, cs))"

definition getPacket :: "u16 \<Rightarrow> PacketType \<Rightarrow> ClientSession \<Rightarrow> Packet" where
  "getPacket packet_id type cs =
     (if type = PUBLISH then
        (case map_of (inflight cs) packet_id of Some p \<Rightarrow> p | None \<Rightarrow> Packet_default)
      else
        (case map_of (inflight_ack cs) packet_id of Some p \<Rightarrow> p | None \<Rightarrow> Packet_default))"

definition storeMessage :: "Packet \<Rightarrow> ClientSession \<Rightarrow> ClientSession" where
  "storeMessage packet cs = cs\<lparr>message_queue := message_queue cs @ [packet]\<rparr>"

subsection \<open>Packet identifiers\<close>

definition alloc_next :: "ClientSession \<Rightarrow> ClientSession" where
  "alloc_next cs = snd (allocatePacketId cs)"

lemma fst_allocatePacketId: "fst (allocatePacketId cs) = next_packet_id (alloc_next cs)"
  by (simp add: allocatePacketId_def alloc_next_def Let_def)

lemma unat_alloc_next:
  "unat (next_packet_id (alloc_next cs)) =
     (if next_packet_id cs = - 1 then 1 else unat (next_packet_id cs) + 1)"
proof -
  have "x + 1 = 0 \<longleftrightarrow> x = - 1" for x :: u16
    by (metis add_eq_0_iff2)
  moreover have "x \<noteq> - 1 \<Longrightarrow> unat (x + 1) = unat x + 1" for x :: u16
    by (metis unatSuc Suc_eq_plus1 add.commute add_eq_0_iff2)
  ultimately show ?thesis
    by (simp add: alloc_next_def allocatePacketId_def Let_def)
qed

lemma alloc_iterate:
  assumes "next_packet_id cs \<noteq> 0"
  shows "unat (next_packet_id ((alloc_next ^^ k) cs)) =
    (unat (next_packet_id cs) - 1 + k) mod 65535 + 1"
proof (induction k)
  case 0
  have "unat (next_packet_id cs) < 2 ^ 16" by (rule order_less_le_trans [OF unsigned_less]) simp
  moreover have "unat (next_packet_id cs) \<noteq> 0" using assms by (simp add: unsigned_eq_0_iff)
  ultimately show ?case by simp
next
  case (Suc k)
  let ?n = "next_packet_id ((alloc_next ^^ k) cs)"
  let ?m = "unat (next_packet_id cs) - 1 + k"
  have "unat (- 1 :: u16) = 65535"
    by (simp add: unsigned_minus_1_eq_mask mask_eq_exp_minus_1)
  then have "?n = - 1 \<longleftrightarrow> unat ?n = 65535" by (metis unsigned_word_eqI)
  then have "unat (next_packet_id ((alloc_next ^^ Suc k) cs)) =
      (if ?m mod 65535 + 1 = 65535 then 1 else ?m mod 65535 + 2)"
    using Suc.IH by (simp add: unat_alloc_next)
  also have "\<dots> = Suc ?m mod 65535 + 1"
    by (simp add: mod_Suc)
  finally show ?case by simp
qed

subsection \<open>The in-flight maps as packet stores\<close>

text \<open>
  The contract the two in-flight maps share: the first packet stored under an id stays, taking it
  gives it back and leaves the id free, an id that is not there gives the default packet.
\<close>

locale packet_store =
  fixes put :: "Packet \<Rightarrow> 's \<Rightarrow> fault + 's"
    and take_out :: "'k \<Rightarrow> 's \<Rightarrow> Packet \<times> 's"
    and get :: "'k \<Rightarrow> 's \<Rightarrow> Packet"
    and has :: "'k \<Rightarrow> 's \<Rightarrow> bool"
    and id_of :: "Packet \<Rightarrow> fault + 'k"
  assumes put_fault: "id_of p = Inl e \<Longrightarrow> put p s = Inl e"
    and put_ok: "id_of p = Inr k \<Longrightarrow> \<exists>s'. put p s = Inr s'"
    and get_put: "id_of p = Inr k \<Longrightarrow> put p s = Inr s' \<Longrightarrow>
          get k' s' = (if k' = k \<and> \<not> has k s then p else get k' s)"
    and has_put: "id_of p = Inr k \<Longrightarrow> put p s = Inr s' \<Longrightarrow> has k' s' \<longleftrightarrow> k' = k \<or> has k' s"
    and take_get: "fst (take_out k s) = get k s"
    and get_take: "get k' (snd (take_out k s)) = (if k' = k then Packet_default else get k' s)"
    and has_take: "has k' (snd (take_out k s)) \<longleftrightarrow> k' \<noteq> k \<and> has k' s"
begin

lemma put_take:
  assumes "id_of p = Inr k" and "\<not> has k s" and "put p s = Inr s'"
  shows "fst (take_out k s') = p" and "\<not> has k (snd (take_out k s'))"
  using assms by (simp_all add: take_get get_put has_take)

lemma put_put:
  assumes "id_of p = Inr k" and "id_of q = Inr k" and "put p s = Inr s'" and "put q s' = Inr s''"
  shows "get k' s'' = get k' s'"
  using get_put [OF assms(2,4)] has_put [OF assms(1,3)] by simp

lemma take_take: "fst (take_out k (snd (take_out k s))) = Packet_default"
  by (simp add: take_get get_take)

lemma take_commute: "get k'' (snd (take_out k (snd (take_out k' s)))) =
    get k'' (snd (take_out k' (snd (take_out k s))))"
  by (simp add: get_take)

end

definition publish_id :: "Packet \<Rightarrow> fault + u16" where
  "publish_id p = and_then (get_publish (pkt p)) (\<lambda>pub. Inr (pub_packet_id pub))"

definition ack_id :: "Packet \<Rightarrow> fault + u16" where
  "ack_id p = and_then (get_ack (pkt p)) (\<lambda>a. Inr (ack_packet_id a))"

interpretation inflight_store: packet_store storeInflight removeFromInflight
    "\<lambda>k. getPacket k PUBLISH" "\<lambda>k cs. map_of (inflight cs) k \<noteq> None" publish_id
  by unfold_locales
    (auto simp: storeInflight_def removeFromInflight_def getPacket_def publish_id_def
      map_of_um_insert map_of_um_erase and_then_eq_Inr and_then_eq_Inl
      split: option.splits if_splits)

interpretation inflight_ack_store: packet_store storeInflightAcknowlegement
    removeFromInflightAcknowlegement "\<lambda>k. getPacket k PUBREL"
    "\<lambda>k cs. map_of (inflight_ack cs) k \<noteq> None" ack_id
  by unfold_locales
    (auto simp: storeInflightAcknowlegement_def removeFromInflightAcknowlegement_def getPacket_def
      ack_id_def map_of_um_insert map_of_um_erase and_then_eq_Inr and_then_eq_Inl
      split: option.splits if_splits)

subsection \<open>Well-formed sessions\<close>

text \<open>
  What the broker keeps of a session: an in-flight PUBLISH is stored under its own packet id and an
  in-flight acknowledgement is a PUBREL stored under its own; no stored packet has length 0, which
  the code takes for "not there"; only PUBLISH packets of QoS 1 or more wait for an offline client.
\<close>

definition inflight_entry_ok :: "u16 \<times> Packet \<Rightarrow> bool" where
  "inflight_entry_ok e \<longleftrightarrow>
     hdr_type (header (snd e)) = PUBLISH \<and> 0 < hdr_qos (header (snd e)) \<and>
     publish_id (snd e) = Inr (fst e) \<and> 0 < pkt_len (snd e)"

definition ack_entry_ok :: "u16 \<times> Packet \<Rightarrow> bool" where
  "ack_entry_ok e \<longleftrightarrow>
     hdr_type (header (snd e)) = PUBREL \<and> ack_id (snd e) = Inr (fst e) \<and> 0 < pkt_len (snd e)"

definition queued_ok :: "Packet \<Rightarrow> bool" where
  "queued_ok p \<longleftrightarrow>
     hdr_type (header p) = PUBLISH \<and> 0 < hdr_qos (header p) \<and> (\<exists>pub. pkt p = VPublish pub)"

definition session_wf :: "ClientSession \<Rightarrow> bool" where
  "session_wf cs \<longleftrightarrow>
     um_ok (inflight cs) \<and> list_all inflight_entry_ok (inflight cs) \<and>
     um_ok (inflight_ack cs) \<and> list_all ack_entry_ok (inflight_ack cs) \<and>
     list_all queued_ok (message_queue cs) \<and> next_packet_id cs \<noteq> 0"

lemma session_wf_new [simp]: "session_wf ClientSession_new"
  by (simp add: session_wf_def ClientSession_new_def)

lemma session_wf_alloc: "session_wf cs \<Longrightarrow> session_wf (snd (allocatePacketId cs))"
  by (simp add: session_wf_def allocatePacketId_def Let_def)

lemma list_all_um_insert:
  "list_all P m \<Longrightarrow> P (k, v) \<Longrightarrow> list_all P (um_insert k v m)"
  by (auto simp: list_all_iff dest!: set_um_insert_subset [THEN subsetD])

lemma list_all_um_erase: "list_all P m \<Longrightarrow> list_all P (um_erase k m)"
  by (auto simp: list_all_iff set_um_erase)

lemma session_wf_storeInflight:
  assumes "session_wf cs" and "storeInflight p cs = Inr cs'"
    and "hdr_type (header p) = PUBLISH" and "0 < hdr_qos (header p)" and "0 < pkt_len p"
  shows "session_wf cs'"
  using assms
  by (auto simp: session_wf_def storeInflight_def and_then_eq_Inr inflight_entry_ok_def publish_id_def
      intro!: list_all_um_insert)

lemma session_wf_storeInflightAck:
  assumes "session_wf cs" and "storeInflightAcknowlegement p cs = Inr cs'"
    and "hdr_type (header p) = PUBREL" and "0 < pkt_len p"
  shows "session_wf cs'"
  using assms
  by (auto simp: session_wf_def storeInflightAcknowlegement_def and_then_eq_Inr ack_entry_ok_def
      ack_id_def intro!: list_all_um_insert)

lemma session_wf_remove:
  assumes "session_wf cs"
  shows "session_wf (snd (removeFromInflight k cs))"
    and "session_wf (snd (removeFromInflightAcknowlegement k cs))"
  using assms
  by (auto simp: session_wf_def removeFromInflight_def removeFromInflightAcknowlegement_def
      list_all_um_erase split: option.split)

lemma session_wf_storeMessage: "session_wf cs \<Longrightarrow> queued_ok p \<Longrightarrow> session_wf (storeMessage p cs)"
  by (simp add: session_wf_def storeMessage_def)

lemma getPacket_wf:
  assumes "session_wf cs" and "0 < pkt_len (getPacket k t cs)"
  shows "if t = PUBLISH then inflight_entry_ok (k, getPacket k t cs)
    else ack_entry_ok (k, getPacket k t cs)"
  using assms
  by (auto simp: session_wf_def getPacket_def list_all_iff Packet_default_def split: option.splits
      dest!: map_of_in_set)


lemma alloc_ids:
  assumes "next_packet_id cs \<noteq> 0"
  shows "unat (fst (allocatePacketId ((alloc_next ^^ k) cs))) =
    (unat (next_packet_id cs) + k) mod 65535 + 1"
proof -
  have "unat (next_packet_id cs) \<noteq> 0" using assms by (simp add: unsigned_eq_0_iff)
  moreover have "alloc_next ((alloc_next ^^ k) cs) = (alloc_next ^^ Suc k) cs" by simp
  ultimately show ?thesis
    unfolding fst_allocatePacketId using alloc_iterate [OF assms, of "Suc k"] by simp
qed

lemma mod_window_inj:
  assumes "(v + i) mod m = (v + j) mod (m :: nat)" and "i < m" and "j < m"
  shows "i = j"
proof -
  have "\<not> a < b" if "(v + a) mod m = (v + b) mod m" "b < m" for a b
  proof
    assume "a < b"
    then have "m dvd (v + b) - (v + a)"
      using mod_eq_dvd_iff_nat [of "v + a" "v + b" m] that(1) by simp
    with \<open>a < b\<close> that(2) show False using nat_dvd_not_less [of "b - a" m] by simp
  qed
  from this [OF assms(1,3)] this [OF assms(1) [symmetric] assms(2)] show ?thesis by simp
qed

subsection \<open>Properties\<close>

text \<open>C31: Packet identifiers are never 0 and do not repeat within 65535 consecutive allocations, starting
  from any state in which the generator is not 0; a new session starts with 2, so 1 comes last.\<close>

theorem packet_ids_distinct:
  assumes "next_packet_id cs \<noteq> 0"
  shows "distinct (map (\<lambda>k. fst (allocatePacketId ((alloc_next ^^ k) cs))) [0..<65535]) \<and>
    fst (allocatePacketId ((alloc_next ^^ k) cs)) \<noteq> 0 \<and>
    fst (allocatePacketId ClientSession_new) = 2"
proof (intro conjI)
  let ?f = "\<lambda>k. fst (allocatePacketId ((alloc_next ^^ k) cs))"
  have "inj_on ?f {0..<65535}"
  proof (rule inj_onI)
    fix i j assume i: "i \<in> {0..<65535 :: nat}" and j: "j \<in> {0..<65535 :: nat}" and e: "?f i = ?f j"
    have "unat (?f i) = unat (?f j)" by (rule arg_cong [OF e])
    then have m: "(unat (next_packet_id cs) + i) mod 65535 = (unat (next_packet_id cs) + j) mod 65535"
      unfolding alloc_ids [OF assms] by (simp only: add_right_cancel)
    have "i < 65535" "j < 65535" using i j by (simp_all only: atLeastLessThan_iff)
    with m show "i = j" by (rule mod_window_inj)
  qed
  then show "distinct (map ?f [0..<65535])" by (simp only: distinct_map distinct_upt set_upt simp_thms)
  show "?f k \<noteq> 0" using alloc_ids [OF assms, of k] by (metis add_is_0 one_neq_zero unsigned_0)
  show "fst (allocatePacketId ClientSession_new) = 2"
    by (simp add: allocatePacketId_def ClientSession_new_def)
qed

theorem packet_ids_distinct_witness:
  "distinct (map (\<lambda>k. fst (allocatePacketId ((alloc_next ^^ k) ClientSession_new))) [0..<65535])"
proof -
  have "next_packet_id ClientSession_new \<noteq> 0" by (simp add: ClientSession_new_def)
  from packet_ids_distinct [OF this] show ?thesis by blast
qed

text \<open>The in-flight map keeps the first packet under an id until it is acknowledged. A PUBLISH stored
  under a free id is found and removed under that id, a second PUBLISH with the id changes nothing, and
  removing it a second time gives the default packet of length 0.\<close>

lemma inflight_keeps_first:
  assumes "pkt p = VPublish pub" and "map_of (inflight cs) (pub_packet_id pub) = None"
  shows "\<exists>cs'. storeInflight p cs = Inr cs' \<and> getPacket (pub_packet_id pub) PUBLISH cs' = p \<and>
    (\<forall>q pub' cs''. pkt q = VPublish pub' \<and> pub_packet_id pub' = pub_packet_id pub \<and>
       storeInflight q cs' = Inr cs'' \<longrightarrow> getPacket k PUBLISH cs'' = getPacket k PUBLISH cs') \<and>
    fst (removeFromInflight (pub_packet_id pub) cs') = p \<and>
    fst (removeFromInflight (pub_packet_id pub) (snd (removeFromInflight (pub_packet_id pub) cs'))) =
      Packet_default"
proof -
  have i: "publish_id p = Inr (pub_packet_id pub)" using assms(1) by (simp add: publish_id_def)
  obtain cs' where s: "storeInflight p cs = Inr cs'" using inflight_store.put_ok [OF i] by blast
  have "getPacket (pub_packet_id pub) PUBLISH cs' = p"
    using inflight_store.get_put [OF i s] assms(2) by simp
  moreover have "getPacket k PUBLISH cs'' = getPacket k PUBLISH cs'"
    if "pkt q = VPublish pub'" "pub_packet_id pub' = pub_packet_id pub" "storeInflight q cs' = Inr cs''"
    for q pub' cs'' k
    using inflight_store.put_put [OF i _ s that(3), of k] that(1,2) by (simp add: publish_id_def)
  ultimately show ?thesis
    using s inflight_store.put_take(1) [OF i _ s] inflight_store.take_take assms(2) by auto
qed

end
