(* ===== verification/Topic_Tree.thy ===== *)
theory Topic_Tree
  imports Prelude "HOL-Library.Sublist"
begin

text \<open>
  The topic hierarchy, \<open>mqtt/include/topictree.h\<close> and \<open>mqtt/src/topictree.cpp\<close>. A \<open>Node\<close> owns its
  children, so the tree is a nested datatype; a \<open>Node*\<close> into it is the list of link keys from the
  root (a path), and writing through the pointer is \<open>at_path\<close>. A \<open>weak_ptr<ClientSession>\<close> is the
  number of the session. The theorems say which nodes a topic or a filter reaches (\<open>getNode\<close>),
  what a subscription changes, and how topics are cut into levels (\<open>split\<close>).
\<close>

subsection \<open>Data\<close>

record Subscription =
  sub_session :: nat
  sub_qos :: u8

datatype Node =
  Node (level: string) (links: "(string \<times> Node) list") (subscribers: "(string \<times> Subscription) list")

type_synonym path = "string list"

definition new_node :: "string \<Rightarrow> Node" where
  "new_node str = Node str [] []"

fun ispresent :: "Node \<Rightarrow> string \<Rightarrow> bool" where
  "ispresent (Node l ls ss) str = (map_of ls str \<noteq> None)"

fun addLink :: "string \<Rightarrow> Node \<Rightarrow> Node" where
  "addLink str (Node l ls ss) = Node l (um_assign str (new_node str) ls) ss"

text \<open>\<open>None\<close> is the null pointer; every caller asks for a link that is there.\<close>

fun getLink :: "Node \<Rightarrow> string \<Rightarrow> Node option" where
  "getLink (Node l ls ss) str = map_of ls str"

fun getLinkTopics :: "Node \<Rightarrow> string list" where
  "getLinkTopics (Node l ls ss) = map fst ls"

fun node_subscribe :: "string \<Rightarrow> nat \<Rightarrow> u8 \<Rightarrow> Node \<Rightarrow> Node" where
  "node_subscribe client_id cs q (Node l ls ss) =
     Node l ls (um_assign client_id \<lparr>sub_session = cs, sub_qos = q\<rparr> ss)"

fun node_unsubscribe :: "string \<Rightarrow> Node \<Rightarrow> Node" where
  "node_unsubscribe client_id (Node l ls ss) =
     Node l ls (if map_of ss client_id \<noteq> None then um_erase client_id ss else ss)"

subsection \<open>Pointers into the tree\<close>

fun node_at :: "Node \<Rightarrow> path \<Rightarrow> Node option" where
  "node_at n [] = Some n"
| "node_at n (t # p) = (case getLink n t of None \<Rightarrow> None | Some c \<Rightarrow> node_at c p)"

text \<open>The node after a write to the child under \<open>t\<close>.\<close>

fun setLink :: "string \<Rightarrow> Node \<Rightarrow> Node \<Rightarrow> Node" where
  "setLink t c (Node l ls ss) = Node l (um_assign t c ls) ss"

fun at_path :: "(Node \<Rightarrow> Node) \<Rightarrow> path \<Rightarrow> Node \<Rightarrow> Node" where
  "at_path f [] n = f n"
| "at_path f (t # p) n =
     (case getLink n t of None \<Rightarrow> n | Some c \<Rightarrow> setLink t (at_path f p c) n)"

subsection \<open>Splitting a topic\<close>

text \<open>The loop after its first iteration, which pushes ''/'' whatever the first character is.\<close>

fun split_rest :: "string \<Rightarrow> string \<Rightarrow> string list" where
  "split_rest [] temp = []"
| "split_rest (c # cs) temp =
     (if c = CHR ''/'' then temp # split_rest cs ''''
      else if cs = [] then [temp @ [c]]
      else split_rest cs (temp @ [c]))"

fun split :: "string \<Rightarrow> string list" where
  "split [] = []"
| "split (c # cs) = ''/'' # split_rest cs ''''"

subsection \<open>The nodes a topic reaches\<close>

fun handleWildCard :: "Node \<Rightarrow> path list" where
  "handleWildCard (Node l ls ss) =
     (if ls = [] then [[]]
      else [] # concat (map (\<lambda>(sub_topic, nextLink).
                  map (Cons sub_topic) (handleWildCard nextLink)) ls))"

text \<open>
  The first argument is \<open>sub_topics\<close> from \<open>idx\<close> on. The result is the tree below \<open>root\<close> after the
  call and the nodes it pushed onto \<open>vec\<close>, relative to \<open>root\<close>.
\<close>

primrec getNode :: "string list \<Rightarrow> Node \<Rightarrow> Node \<times> path list" where
  "getNode [] = (\<lambda>root. (root, [[]]))"
| "getNode (w # ws) = (\<lambda>root.
     if w = ''+'' \<or> w = ''#'' then
       (if getLinkTopics root \<noteq> [] then
          if w = ''+'' then
            let children = map (\<lambda>(topic, child). (topic, getNode ws child)) (links root) in
            (Node (level root) (map (\<lambda>(topic, r). (topic, fst r)) children) (subscribers root),
             concat (map (\<lambda>(topic, r). map (Cons topic) (snd r)) children))
          else (root, handleWildCard root)
        else (root, []))
     else
       let root' = (if \<not> ispresent root w then addLink w root else root);
           r = getNode ws (the (getLink root' w))
       in (setLink w (fst r) root', map (Cons w) (snd r)))"

subsection \<open>The tree\<close>

definition TopicTree_new :: Node where
  "TopicTree_new = new_node ''*''"

definition tree_match :: "string \<Rightarrow> Node \<Rightarrow> Node \<times> Subscription list" where
  "tree_match topic m_root =
     (let (m_root, nodes) = getNode (split topic) m_root in
      (m_root, concat (map (\<lambda>node. case node_at m_root node of
                  None \<Rightarrow> [] | Some n \<Rightarrow> map snd (subscribers n)) nodes)))"

definition tree_subscribe :: "string \<Rightarrow> string \<Rightarrow> nat \<Rightarrow> u8 \<Rightarrow> Node \<Rightarrow> Node" where
  "tree_subscribe topic client_id cs q m_root =
     (let (m_root, nodes) = getNode (split topic) m_root in
      fold (at_path (node_subscribe client_id cs q)) nodes m_root)"

definition tree_unsubscribe :: "string \<Rightarrow> string \<Rightarrow> Node \<Rightarrow> Node" where
  "tree_unsubscribe topic client_id m_root =
     (let (m_root, nodes) = getNode (split topic) m_root in
      fold (at_path (node_unsubscribe client_id)) nodes m_root)"

subsection \<open>Well-formed trees\<close>

text \<open>No key twice, every child stored under its own level.\<close>

fun node_wf :: "Node \<Rightarrow> bool" where
  "node_wf (Node l ls ss) \<longleftrightarrow>
     um_ok ls \<and> um_ok ss \<and> list_all (\<lambda>(t, c). level c = t \<and> node_wf c) ls"

lemma node_wf_child:
  "node_wf n \<Longrightarrow> getLink n t = Some c \<Longrightarrow> node_wf c \<and> level c = t"
  by (cases n) (auto simp: list_all_iff dest!: map_of_in_set)

lemma node_wf_new [simp]: "node_wf (new_node str)"
  by (simp add: new_node_def)

lemma level_new [simp]: "level (new_node str) = str"
  by (simp add: new_node_def)

lemma setLink_sel [simp]:
  "level (setLink t c n) = level n" "subscribers (setLink t c n) = subscribers n"
  "getLink (setLink t c n) = (getLink n)(t \<mapsto> c)"
  by (cases n; auto simp: fun_eq_iff)+

lemma addLink_sel [simp]:
  "level (addLink t n) = level n" "subscribers (addLink t n) = subscribers n"
  "getLink (addLink t n) = (getLink n)(t \<mapsto> new_node t)"
  by (cases n; auto simp: fun_eq_iff)+

lemma ispresent_getLink: "ispresent n t \<longleftrightarrow> getLink n t \<noteq> None"
  by (cases n) auto

lemma links_empty: "getLinkTopics n = [] \<longleftrightarrow> links n = []"
  by (cases n) auto

lemma getLink_links: "getLink n t = map_of (links n) t"
  by (cases n) auto

lemma setLink_wf:
  "node_wf n \<Longrightarrow> node_wf c \<Longrightarrow> level c = t \<Longrightarrow> node_wf (setLink t c n)"
  by (cases n) (auto simp: list_all_iff dest!: set_um_assign_subset [THEN subsetD])

lemma addLink_wf: "node_wf n \<Longrightarrow> node_wf (addLink t n)"
  by (cases n) (auto simp: list_all_iff dest!: set_um_assign_subset [THEN subsetD])


subsection \<open>What getNode finds and what it adds\<close>

lemma distinct_concat_keys:
  assumes "distinct (map fst xs)" and "\<And>t y. (t, y) \<in> set xs \<Longrightarrow> distinct (f y)"
  shows "distinct (concat (map (\<lambda>(t, y). map (Cons t) (f y)) xs))"
  using assms
proof (induction xs)
  case (Cons x xs)
  obtain t y where x: "x = (t, y)" by (cases x)
  then have "distinct (concat (map (\<lambda>(t, y). map (Cons t) (f y)) xs))" "distinct (f y)"
    using Cons.prems by (auto intro!: Cons.IH)
  with Cons.prems(1) x show ?case by (auto simp: distinct_map image_iff)
qed simp

lemma in_concat_keys:
  "p \<in> set (concat (map (\<lambda>(t, y). map (Cons t) (f y)) xs)) \<longleftrightarrow>
     (\<exists>t q y. p = t # q \<and> (t, y) \<in> set xs \<and> q \<in> set (f y))"
  by force

lemma in_links: "node_wf n \<Longrightarrow> (t, c) \<in> set (links n) \<longleftrightarrow> getLink n t = Some c"
  by (cases n) (auto dest: map_of_in_set)

lemma handleWildCard_eq:
  "handleWildCard n =
     [] # concat (map (\<lambda>(t, c). map (Cons t) (handleWildCard c)) (links n))"
  by (cases n) simp

lemma in_handleWildCard:
  "node_wf n \<Longrightarrow> p \<in> set (handleWildCard n) \<longleftrightarrow> node_at n p \<noteq> None"
proof (induction p arbitrary: n)
  case Nil
  then show ?case by (subst handleWildCard_eq) simp
next
  case (Cons t p)
  have "t # p \<in> set (handleWildCard n) \<longleftrightarrow>
      (\<exists>c. getLink n t = Some c \<and> p \<in> set (handleWildCard c))"
    by (subst handleWildCard_eq) (simp only: list.set insert_iff in_concat_keys in_links [OF Cons.prems], auto)
  then show ?case
    using Cons.IH node_wf_child [OF Cons.prems] by (cases "getLink n t") auto
qed

lemma distinct_handleWildCard: "node_wf n \<Longrightarrow> distinct (handleWildCard n)"
proof (induction n rule: handleWildCard.induct)
  case (1 l ls ss)
  then have "distinct (handleWildCard c)" if "(t, c) \<in> set ls" for t c
    using that by (cases "ls = []") (auto simp: list_all_iff)
  moreover have "distinct (map fst ls)" using "1.prems" by simp
  ultimately have "distinct (concat (map (\<lambda>(t, c). map (Cons t) (handleWildCard c)) ls))"
    by (intro distinct_concat_keys)
  then show ?case by (subst handleWildCard_eq) (auto simp: in_concat_keys)
qed

text \<open>The tree and the pointers of one call, by the kind of the first word.\<close>

definition for_links :: "(Node \<Rightarrow> Node) \<Rightarrow> Node \<Rightarrow> Node" where
  "for_links f n = Node (level n) (map (\<lambda>(t, c). (t, f c)) (links n)) (subscribers n)"

definition with_link :: "string \<Rightarrow> Node \<Rightarrow> Node" where
  "with_link w n = (if getLink n w = None then addLink w n else n)"

lemma for_links_sel [simp]:
  "level (for_links f n) = level n" "subscribers (for_links f n) = subscribers n"
  "getLink (for_links f n) t = map_option f (getLink n t)"
  "links (for_links f n) = map (\<lambda>(t, c). (t, f c)) (links n)"
  by (cases n; simp add: for_links_def map_of_map)+

lemma with_link_sel:
  "level (with_link w n) = level n" "subscribers (with_link w n) = subscribers n"
  "getLink (with_link w n) =
     (getLink n)(w \<mapsto> case getLink n w of None \<Rightarrow> new_node w | Some c \<Rightarrow> c)"
  by (auto simp: with_link_def fun_eq_iff)

lemma getNode_wild:
  "getNode (''+'' # ws) n =
     (for_links (\<lambda>c. fst (getNode ws c)) n,
      concat (map (\<lambda>(t, c). map (Cons t) (snd (getNode ws c))) (links n)))"
  "getNode (''#'' # ws) n = (n, if links n = [] then [] else handleWildCard n)"
  by (cases n; auto simp: for_links_def Let_def o_def case_prod_unfold)+

lemma getNode_word:
  assumes "w \<noteq> ''+''" and "w \<noteq> ''#''"
  shows "getNode (w # ws) n =
    (let c = the (getLink (with_link w n) w) in
     (setLink w (fst (getNode ws c)) (with_link w n), map (Cons w) (snd (getNode ws c))))"
  using assms by (simp add: Let_def with_link_def ispresent_getLink)

declare getNode.simps(2) [simp del]

lemma word_cases [case_names plus hash word]:
  assumes "w = ''+'' \<Longrightarrow> P" and "w = ''#'' \<Longrightarrow> P" and "w \<noteq> ''+'' \<Longrightarrow> w \<noteq> ''#'' \<Longrightarrow> P"
  shows P
  using assms by blast

lemma with_link_wf: "node_wf n \<Longrightarrow> node_wf (with_link w n)"
  by (simp add: with_link_def addLink_wf)

lemma with_link_the: "getLink (with_link w n) w = Some (the (getLink (with_link w n) w))"
  by (simp add: with_link_sel)

lemma for_links_wf:
  assumes "node_wf n" and "\<And>c. node_wf c \<Longrightarrow> node_wf (f c) \<and> level (f c) = level c"
  shows "node_wf (for_links f n)"
  using assms by (cases n) (auto simp: for_links_def list_all_iff o_def case_prod_unfold)

lemma getNode_wf:
  "node_wf n \<Longrightarrow> node_wf (fst (getNode ws n)) \<and> level (fst (getNode ws n)) = level n"
proof (induction ws arbitrary: n)
  case (Cons w ws)
  show ?case
  proof (cases rule: word_cases [of w])
    case word
    let ?c = "the (getLink (with_link w n) w)"
    have "node_wf ?c" "level ?c = w"
      using node_wf_child [OF with_link_wf [OF Cons.prems] with_link_the] by auto
    with Cons.IH [of ?c] word show ?thesis
      by (simp add: getNode_word Let_def setLink_wf with_link_wf Cons.prems with_link_sel)
  qed (use Cons in \<open>simp_all add: getNode_wild for_links_wf\<close>)
qed simp

text \<open>The subscribers stored at a path: \<open>getNode\<close> adds nodes, never a subscriber.\<close>

definition subs_at :: "Node \<Rightarrow> path \<Rightarrow> (string \<times> Subscription) list" where
  "subs_at n p = (case node_at n p of None \<Rightarrow> [] | Some m \<Rightarrow> subscribers m)"

lemma subs_at_simps:
  "subs_at n [] = subscribers n"
  "subs_at n (t # p) = (case getLink n t of None \<Rightarrow> [] | Some c \<Rightarrow> subs_at c p)"
  by (auto simp: subs_at_def split: option.split)

lemma subs_at_new: "subs_at (new_node w) p = []"
  by (cases p) (simp_all add: subs_at_simps new_node_def)

lemma subs_at_getNode: "subs_at (fst (getNode ws n)) p = subs_at n p"
proof (induction ws arbitrary: n p)
  case (Cons w ws)
  show ?case
  proof (cases p)
    case Nil
    then show ?thesis
      by (cases rule: word_cases [of w])
        (simp_all add: getNode_wild getNode_word Let_def subs_at_simps with_link_sel)
  next
    case (Cons t q)
    then show ?thesis using Cons.IH
      by (cases rule: word_cases [of w])
        (auto simp: getNode_wild getNode_word Let_def subs_at_simps with_link_sel subs_at_new
           split: option.splits)
  qed
qed simp

lemma node_at_getNode: "node_at n p \<noteq> None \<Longrightarrow> node_at (fst (getNode ws n)) p \<noteq> None"
proof (induction ws arbitrary: n p)
  case (Cons w ws)
  show ?case
  proof (cases p)
    case (Cons t q)
    then show ?thesis using Cons.IH Cons.prems
      by (cases rule: word_cases [of w])
        (auto simp: getNode_wild getNode_word Let_def with_link_sel split: option.splits if_splits)
  qed simp
qed simp

subsection \<open>The nodes that match a filter\<close>

text \<open>
  The reference: a filter as a relation between its words and a path. \<open>#\<close> stands for any number of
  levels, none included; the code looks at no word after it.
\<close>

fun filter_matches :: "string list \<Rightarrow> path \<Rightarrow> bool" where
  "filter_matches [] p = (p = [])"
| "filter_matches (w # ws) p =
     (w = ''#'' \<or>
      (case p of [] \<Rightarrow> False | t # q \<Rightarrow> (w = ''+'' \<or> w = t) \<and> filter_matches ws q))"

text \<open>The level the first \<open>#\<close> of a filter stands at.\<close>

fun hash_level :: "string list \<Rightarrow> nat option" where
  "hash_level [] = None"
| "hash_level (w # ws) = (if w = ''#'' then Some 0 else map_option Suc (hash_level ws))"

text \<open>A node at the level of \<open>#\<close> itself counts only when it has links.\<close>

definition target :: "string list \<Rightarrow> Node \<Rightarrow> path \<Rightarrow> bool" where
  "target ws n p \<longleftrightarrow>
     (\<exists>m. node_at n p = Some m \<and> filter_matches ws p \<and>
          (hash_level ws = Some (length p) \<longrightarrow> links m \<noteq> []))"

lemma target_Nil: "target [] n p \<longleftrightarrow> p = []"
  by (auto simp: target_def)

lemma target_hash:
  "target (''#'' # ws) n p \<longleftrightarrow> node_at n p \<noteq> None \<and> links n \<noteq> []"
  by (cases p) (auto simp: target_def getLink_links split: option.splits)

lemma target_word:
  "w \<noteq> ''#'' \<Longrightarrow> target (w # ws) n p \<longleftrightarrow>
     (\<exists>t q c. p = t # q \<and> (w = ''+'' \<or> w = t) \<and> getLink n t = Some c \<and> target ws c q)"
  by (cases p) (auto simp: target_def split: option.splits)

lemma getNode_target:
  "node_wf n \<Longrightarrow> p \<in> set (snd (getNode ws n)) \<longleftrightarrow> target ws (fst (getNode ws n)) p"
proof (induction ws arbitrary: n p)
  case Nil
  then show ?case by (simp add: target_Nil)
next
  case (Cons w ws)
  show ?case
  proof (cases rule: word_cases [of w])
    case plus
    have "p \<in> set (snd (getNode (w # ws) n)) \<longleftrightarrow>
        (\<exists>t q c. p = t # q \<and> getLink n t = Some c \<and> q \<in> set (snd (getNode ws c)))"
      unfolding plus getNode_wild snd_conv in_concat_keys in_links [OF Cons.prems] by blast
    also have "\<dots> \<longleftrightarrow> target (w # ws) (fst (getNode (w # ws) n)) p"
      using Cons.IH node_wf_child [OF Cons.prems] unfolding plus
      by (auto simp: getNode_wild target_word)
    finally show ?thesis .
  next
    case hash
    then show ?thesis
      using in_handleWildCard [OF Cons.prems] by (auto simp: getNode_wild target_hash)
  next
    case word
    let ?c = "the (getLink (with_link w n) w)"
    have "node_wf ?c"
      using node_wf_child [OF with_link_wf [OF Cons.prems] with_link_the] by auto
    with Cons.IH [of ?c] word show ?thesis
      by (auto simp: getNode_word Let_def target_word)
  qed
qed

lemma distinct_getNode: "node_wf n \<Longrightarrow> distinct (snd (getNode ws n))"
proof (induction ws arbitrary: n)
  case (Cons w ws)
  show ?case
  proof (cases rule: word_cases [of w])
    case plus
    have "distinct (map fst (links n))" using Cons.prems by (cases n) simp
    moreover have "distinct (snd (getNode ws c))" if "(t, c) \<in> set (links n)" for t c
      using that Cons.IH node_wf_child [OF Cons.prems] by (simp add: in_links [OF Cons.prems])
    ultimately show ?thesis
      unfolding plus getNode_wild snd_conv by (intro distinct_concat_keys)
  next
    case hash
    then show ?thesis by (simp add: getNode_wild distinct_handleWildCard Cons.prems)
  next
    case word
    have "node_wf (the (getLink (with_link w n) w))"
      using node_wf_child [OF with_link_wf [OF Cons.prems] with_link_the] by auto
    with Cons.IH word show ?thesis by (simp add: getNode_word Let_def distinct_map)
  qed
qed simp

text \<open>A topic without wildcard words reaches one node, the one at its words.\<close>

abbreviation plain :: "string list \<Rightarrow> bool" where
  "plain ws \<equiv> ''+'' \<notin> set ws \<and> ''#'' \<notin> set ws"

lemma getNode_plain: "plain ws \<Longrightarrow> snd (getNode ws n) = [ws]"
  by (induction ws arbitrary: n) (auto simp: getNode_word Let_def)

definition has_node :: "Node \<Rightarrow> path \<Rightarrow> bool" where
  "has_node n p \<longleftrightarrow> node_at n p \<noteq> None"

lemma has_node_simps [simp]:
  "has_node n []"
  "has_node n (t # p) = (case getLink n t of None \<Rightarrow> False | Some c \<Rightarrow> has_node c p)"
  by (auto simp: has_node_def split: option.split)

lemma has_node_new: "has_node (new_node w) p \<longleftrightarrow> p = []"
  by (cases p) (auto simp: new_node_def)

lemma has_node_getNode_plain:
  "plain ws \<Longrightarrow> has_node (fst (getNode ws n)) p \<longleftrightarrow> has_node n p \<or> prefix p ws"
proof (induction ws arbitrary: n p)
  case (Cons w ws)
  show ?case
  proof (cases p)
    case (Cons t q)
    have IH: "has_node (fst (getNode ws c)) q \<longleftrightarrow> has_node c q \<or> prefix q ws" for c
      by (rule Cons.IH) (use Cons.prems in simp)
    have w: "w \<noteq> ''+''" "w \<noteq> ''#''" using Cons.prems by auto
    show ?thesis
    proof (cases "t = w")
      case True
      then show ?thesis
        by (cases "getLink n w")
          (auto simp: Cons getNode_word [OF w] Let_def with_link_sel IH has_node_new)
    next
      case False
      then show ?thesis
        by (simp add: Cons getNode_word [OF w] Let_def with_link_sel)
    qed
  qed simp
qed auto

subsection \<open>The structure alone decides what is found\<close>

fun shape :: "Node \<Rightarrow> Node" where
  "shape (Node l ls ss) = Node l (map (\<lambda>(t, c). (t, shape c)) ls) []"

lemma shape_sel [simp]:
  "level (shape n) = level n" "links (shape n) = map (\<lambda>(t, c). (t, shape c)) (links n)"
  "getLink (shape n) t = map_option shape (getLink n t)"
  by (cases n; simp add: map_of_map)+

lemma shape_new [simp]: "shape (new_node w) = new_node w"
  by (simp add: new_node_def)

lemma map_um_assign:
  "map (\<lambda>(t, c). (t, f c)) (um_assign k v m) = um_assign k (f v) (map (\<lambda>(t, c). (t, f c)) m)"
  by (induction m) auto

lemma shape_setLink: "shape (setLink t c n) = setLink t (shape c) (shape n)"
  by (cases n) (simp add: map_um_assign)

lemma shape_with_link: "shape (with_link w n) = with_link w (shape n)"
  by (cases n) (auto simp: with_link_def map_um_assign map_of_map)

lemma shape_for_links:
  "(\<And>c. shape (f c) = g (shape c)) \<Longrightarrow> shape (for_links f n) = for_links g (shape n)"
  by (cases n) (auto simp: for_links_def)

lemma handleWildCard_shape: "handleWildCard (shape n) = handleWildCard n"
proof (induction n rule: handleWildCard.induct)
  case (1 l ls ss)
  then have "map (\<lambda>x. map (Cons (fst x)) (handleWildCard (shape (snd x)))) ls =
      map (\<lambda>x. map (Cons (fst x)) (handleWildCard (snd x))) ls"
    by (cases "ls = []") auto
  then show ?case by (simp add: o_def case_prod_unfold del: map_eq_conv)
qed

lemma getNode_shape:
  "shape (fst (getNode ws n)) = fst (getNode ws (shape n)) \<and>
   snd (getNode ws (shape n)) = snd (getNode ws n)"
proof (induction ws arbitrary: n)
  case (Cons w ws)
  show ?case
  proof (cases rule: word_cases [of w])
    case plus
    have *: "snd (getNode ws (shape c)) = snd (getNode ws c)"
      "shape (fst (getNode ws c)) = fst (getNode ws (shape c))" for c
      using Cons.IH [of c] by auto
    show ?thesis
      unfolding plus getNode_wild fst_conv snd_conv
      by (simp add: * shape_for_links [where g = "\<lambda>c. fst (getNode ws c)"] o_def case_prod_unfold)
  next
    case hash
    then show ?thesis by (simp add: getNode_wild handleWildCard_shape)
  next
    case word
    have "the (getLink (with_link w (shape n)) w) = shape (the (getLink (with_link w n) w))"
      using with_link_the [of w n]
      by (cases "getLink (with_link w n) w") (simp_all add: shape_with_link [symmetric])
    with Cons.IH word show ?thesis
      by (simp add: getNode_word Let_def shape_setLink shape_with_link)
  qed
qed simp

lemma um_assign_same: "map_of m k = Some v \<Longrightarrow> um_assign k v m = m"
  by (induction m) (auto split: if_splits)

lemma setLink_same: "getLink n w = Some c \<Longrightarrow> setLink w c n = n"
  by (cases n) (simp add: um_assign_same)

lemma getNode_idem:
  "fst (getNode ws (fst (getNode ws n))) = fst (getNode ws n) \<and>
   snd (getNode ws (fst (getNode ws n))) = snd (getNode ws n)"
proof (induction ws arbitrary: n)
  case (Cons w ws)
  show ?case
  proof (cases rule: word_cases [of w])
    case plus
    then show ?thesis using Cons.IH
      by (simp add: getNode_wild for_links_def o_def case_prod_unfold)
  next
    case hash
    then show ?thesis by (simp add: getNode_wild)
  next
    case word
    let ?n = "fst (getNode (w # ws) n)"
    let ?c = "the (getLink (with_link w n) w)"
    have n: "?n = setLink w (fst (getNode ws ?c)) (with_link w n)"
      using word by (simp add: getNode_word Let_def)
    then have "with_link w ?n = ?n" "getLink ?n w = Some (fst (getNode ws ?c))"
      by (simp_all add: with_link_def)
    with word Cons.IH [of ?c] n show ?thesis
      by (simp add: getNode_word Let_def setLink_same)
  qed
qed simp

subsection \<open>Writing through the pointers\<close>

text \<open>An operation on the subscribers of one node: it leaves the links and the level alone.\<close>

definition subs_op ::
    "(Node \<Rightarrow> Node) \<Rightarrow> ((string \<times> Subscription) list \<Rightarrow> (string \<times> Subscription) list) \<Rightarrow> bool" where
  "subs_op f g \<longleftrightarrow> (\<forall>l ls ss. f (Node l ls ss) = Node l ls (g ss))"

lemma subs_op_subscribe:
  "subs_op (node_subscribe c cs q) (um_assign c \<lparr>sub_session = cs, sub_qos = q\<rparr>)"
  by (simp add: subs_op_def)

lemma um_erase_absent: "map_of m k = None \<Longrightarrow> um_erase k m = m"
  by (induction m) (auto split: if_splits)

lemma subs_op_unsubscribe: "subs_op (node_unsubscribe c) (um_erase c)"
  by (simp add: subs_op_def um_erase_absent)

lemma subs_op_sel:
  assumes "subs_op f g"
  shows "level (f n) = level n" "links (f n) = links n" "getLink (f n) t = getLink n t"
    "subscribers (f n) = g (subscribers n)"
  using assms by (cases n; simp add: subs_op_def)+

lemma level_at_path: "subs_op f g \<Longrightarrow> level (at_path f p n) = level n"
  by (cases p) (auto simp: subs_op_sel split: option.splits)

lemma has_node_at_path: "subs_op f g \<Longrightarrow> has_node (at_path f p n) q \<longleftrightarrow> has_node n q"
proof (induction p arbitrary: n q)
  case Nil
  then show ?case by (cases q) (simp_all add: subs_op_sel)
next
  case (Cons t p)
  then show ?case by (cases q) (auto split: option.splits)
qed

lemma subs_at_at_path:
  "subs_op f g \<Longrightarrow> has_node n p \<Longrightarrow>
     subs_at (at_path f p n) q = (if q = p then g (subs_at n q) else subs_at n q)"
proof (induction p arbitrary: n q)
  case Nil
  then show ?case by (cases q) (simp_all add: subs_at_simps subs_op_sel)
next
  case (Cons t p)
  then show ?case by (cases q) (auto simp: subs_at_simps split: option.splits)
qed

lemma shape_subs_op: "subs_op f g \<Longrightarrow> shape (f n) = shape n"
  by (cases n) (simp add: subs_op_def)

lemma shape_at_path: "subs_op f g \<Longrightarrow> shape (at_path f p n) = shape n"
proof (induction p arbitrary: n)
  case (Cons t p)
  have "getLink (shape n) t = Some (shape c)" if "getLink n t = Some c" for c
    using that by simp
  with Cons show ?case
    by (auto simp: shape_setLink setLink_same split: option.splits)
qed (simp add: shape_subs_op)

lemma at_path_wf:
  assumes f: "subs_op f g" and g: "\<And>ss. um_ok ss \<Longrightarrow> um_ok (g ss)"
  shows "node_wf n \<Longrightarrow> node_wf (at_path f p n)"
proof (induction p arbitrary: n)
  case Nil
  then show ?case using f g by (cases n) (simp add: subs_op_def)
next
  case (Cons t p)
  then show ?case
    using node_wf_child [OF Cons.prems] level_at_path [OF f]
    by (auto intro!: setLink_wf split: option.splits)
qed

definition at_paths :: "(Node \<Rightarrow> Node) \<Rightarrow> path list \<Rightarrow> Node \<Rightarrow> Node" where
  "at_paths f ps n = fold (at_path f) ps n"

lemma at_paths_simps:
  "at_paths f [] n = n" "at_paths f (p # ps) n = at_paths f ps (at_path f p n)"
  by (simp_all add: at_paths_def)

lemma at_paths_keep:
  assumes "subs_op f g"
  shows "shape (at_paths f ps n) = shape n" "has_node (at_paths f ps n) q \<longleftrightarrow> has_node n q"
    "level (at_paths f ps n) = level n"
  using assms
  by (induction ps arbitrary: n) (simp_all add: at_paths_simps shape_at_path has_node_at_path level_at_path)

lemma at_paths_wf:
  assumes "subs_op f g" and "\<And>ss. um_ok ss \<Longrightarrow> um_ok (g ss)"
  shows "node_wf n \<Longrightarrow> node_wf (at_paths f ps n)"
  by (induction ps arbitrary: n) (simp_all add: at_paths_simps at_path_wf [OF assms])

lemma subs_at_at_paths:
  assumes "subs_op f g"
  shows "distinct ps \<Longrightarrow> list_all (has_node n) ps \<Longrightarrow>
    subs_at (at_paths f ps n) q = (if q \<in> set ps then g (subs_at n q) else subs_at n q)"
proof (induction ps arbitrary: n)
  case (Cons p ps)
  then have "subs_at (at_paths f ps (at_path f p n)) q =
      (if q \<in> set ps then g (subs_at (at_path f p n) q) else subs_at (at_path f p n) q)"
    by (intro Cons.IH) (auto simp: list_all_iff has_node_at_path [OF assms])
  with Cons.prems show ?case
    by (auto simp: at_paths_simps subs_at_at_path [OF assms])
qed (simp add: at_paths_simps)

subsection \<open>The operations of the tree\<close>

text \<open>The subscription of a client at a node, and the nodes a topic or filter reaches.\<close>

definition look :: "Node \<Rightarrow> path \<Rightarrow> string \<Rightarrow> Subscription option" where
  "look n p c = map_of (subs_at n p) c"

definition reach :: "string \<Rightarrow> Node \<Rightarrow> path list" where
  "reach topic n = snd (getNode (split topic) n)"

definition grown :: "string \<Rightarrow> Node \<Rightarrow> Node" where
  "grown topic n = fst (getNode (split topic) n)"

lemma tree_ops:
  "tree_subscribe topic c cs q n = at_paths (node_subscribe c cs q) (reach topic n) (grown topic n)"
  "tree_unsubscribe topic c n = at_paths (node_unsubscribe c) (reach topic n) (grown topic n)"
  "fst (tree_match topic n) = grown topic n"
  by (simp_all add: tree_subscribe_def tree_unsubscribe_def tree_match_def at_paths_def reach_def
      grown_def case_prod_unfold Let_def)

lemma in_reach:
  assumes "node_wf n"
  shows "p \<in> set (reach topic n) \<longleftrightarrow> target (split topic) (grown topic n) p"
  using getNode_target [OF assms] by (simp add: reach_def grown_def)

lemma has_node_reach: "node_wf n \<Longrightarrow> p \<in> set (reach topic n) \<Longrightarrow> has_node (grown topic n) p"
  by (auto simp: in_reach target_def has_node_def)

lemma distinct_reach: "node_wf n \<Longrightarrow> distinct (reach topic n)"
  by (simp add: reach_def distinct_getNode)

lemma look_grown: "look (grown topic n) = look n"
  by (simp add: look_def grown_def subs_at_getNode fun_eq_iff)

lemma grown_wf: "node_wf n \<Longrightarrow> node_wf (grown topic n)"
  by (simp add: grown_def getNode_wf)

lemma level_grown: "node_wf n \<Longrightarrow> level (grown topic n) = level n"
  by (simp add: grown_def getNode_wf)

lemma tree_ops_wf:
  assumes "node_wf n"
  shows "node_wf (tree_subscribe topic c cs q n)" "node_wf (tree_unsubscribe topic c n)"
    "node_wf (fst (tree_match topic n))"
  unfolding tree_ops
  by (rule at_paths_wf [OF subs_op_subscribe], simp, rule grown_wf [OF assms])
    (rule at_paths_wf [OF subs_op_unsubscribe], simp, rule grown_wf [OF assms],
     rule grown_wf [OF assms])

lemma look_subscribe:
  assumes "node_wf n"
  shows "look (tree_subscribe topic c cs q n) p c' =
    (if p \<in> set (reach topic n) \<and> c' = c then Some \<lparr>sub_session = cs, sub_qos = q\<rparr>
     else look n p c')"
  using subs_at_at_paths [OF subs_op_subscribe distinct_reach [OF assms],
      of "grown topic n" topic c cs q p]
    has_node_reach [OF assms] look_grown [of topic n]
  by (auto simp: tree_ops look_def list_all_iff fun_eq_iff)

lemma look_unsubscribe:
  assumes "node_wf n"
  shows "look (tree_unsubscribe topic c n) p c' =
    (if p \<in> set (reach topic n) \<and> c' = c then None else look n p c')"
  using subs_at_at_paths [OF subs_op_unsubscribe distinct_reach [OF assms],
      of "grown topic n" topic c p]
    has_node_reach [OF assms] look_grown [of topic n]
  by (auto simp: tree_ops look_def list_all_iff fun_eq_iff map_of_um_erase)

lemma reach_stable:
  assumes "subs_op f g"
  shows "reach topic (at_paths f ps (grown topic n)) = reach topic n"
proof -
  let ?m = "at_paths f ps (grown topic n)" and ?ws = "split topic"
  have "reach topic ?m = snd (getNode ?ws (shape ?m))"
    by (simp add: reach_def getNode_shape)
  also have "shape ?m = shape (grown topic n)"
    by (rule at_paths_keep [OF assms])
  also have "snd (getNode ?ws (shape (grown topic n))) = snd (getNode ?ws (grown topic n))"
    by (simp add: getNode_shape)
  also have "\<dots> = reach topic n"
    by (simp add: grown_def reach_def getNode_idem)
  finally show ?thesis .
qed

lemma reach_after:
  "reach topic (tree_subscribe topic c cs q n) = reach topic n"
  "reach topic (tree_unsubscribe topic c n) = reach topic n"
  "reach topic (fst (tree_match topic n)) = reach topic n"
  unfolding tree_ops
  by (rule reach_stable [OF subs_op_subscribe])
    (rule reach_stable [OF subs_op_unsubscribe],
     use getNode_idem in \<open>simp add: grown_def reach_def\<close>)

lemma um_ok_subs_at: "node_wf n \<Longrightarrow> um_ok (subs_at n p)"
proof (induction p arbitrary: n)
  case Nil
  then show ?case by (cases n) (simp add: subs_at_simps)
next
  case (Cons t p)
  then show ?case using node_wf_child [OF Cons.prems] by (auto simp: subs_at_simps split: option.split)
qed

lemma match_result: "snd (tree_match topic n) =
    concat (map (\<lambda>p. map snd (subs_at n p)) (reach topic n))"
proof -
  have "(case node_at m p of None \<Rightarrow> [] | Some k \<Rightarrow> map snd (subscribers k)) = map snd (subs_at m p)"
    for m p by (simp add: subs_at_def split: option.split)
  then show ?thesis
    by (simp add: tree_match_def reach_def case_prod_unfold subs_at_getNode Let_def)
qed

lemma in_match:
  assumes "node_wf n"
  shows "s \<in> set (snd (tree_match topic n)) \<longleftrightarrow>
    (\<exists>p \<in> set (reach topic n). \<exists>c. look n p c = Some s)"
proof -
  have "s \<in> snd ` set (subs_at n p) \<longleftrightarrow> (\<exists>c. look n p c = Some s)" for p
    using um_ok_subs_at [OF assms, of p] by (force simp: look_def)
  then show ?thesis by (auto simp: match_result)
qed

subsection \<open>Topics and levels\<close>

text \<open>The levels of a topic as MQTT defines them, and the join that undoes the split.\<close>

fun levels :: "string \<Rightarrow> string list" where
  "levels [] = [[]]"
| "levels (c # cs) =
     (if c = CHR ''/'' then [] # levels cs
      else case levels cs of [] \<Rightarrow> [] | l # ls \<Rightarrow> (c # l) # ls)"

fun join :: "string list \<Rightarrow> string" where
  "join [] = []"
| "join [l] = l"
| "join (l # l' # ls) = l @ CHR ''/'' # join (l' # ls)"

definition trim :: "string list \<Rightarrow> string list" where
  "trim ls = (if last ls = [] then butlast ls else ls)"

lemma levels_not_Nil [simp]: "levels cs \<noteq> []"
  by (induction cs) (auto split: list.splits)

lemma trim_Cons: "ls \<noteq> [] \<Longrightarrow> trim (l # ls) = l # trim ls"
  by (simp add: trim_def)

lemma split_rest_levels:
  "cs \<noteq> [] \<or> temp = [] \<Longrightarrow> split_rest cs temp = trim ((temp @ hd (levels cs)) # tl (levels cs))"
proof (induction cs arbitrary: temp)
  case Nil
  then show ?case by (simp add: trim_def)
next
  case (Cons c cs)
  obtain l ls where l: "levels cs = l # ls" by (cases "levels cs") auto
  show ?case
  proof (cases "c = CHR ''/''")
    case True
    with Cons.IH [of "[]"] show ?thesis by (simp add: l trim_Cons)
  next
    case False
    show ?thesis
    proof (cases "cs = []")
      case True
      with False show ?thesis by (simp add: trim_def)
    next
      case ne: False
      with False Cons.IH [of "temp @ [c]"] show ?thesis by (simp add: l)
    qed
  qed
qed

lemma split_levels: "split (c # cs) = ''/'' # trim (levels cs)"
  using split_rest_levels [of cs "[]"] by simp

lemma levels_slash: "CHR ''/'' \<notin> set l \<Longrightarrow> levels (l @ CHR ''/'' # cs) = l # levels cs"
  by (induction l) auto

lemma levels_single: "CHR ''/'' \<notin> set l \<Longrightarrow> levels l = [l]"
  by (induction l) auto

lemma levels_join:
  "ls \<noteq> [] \<Longrightarrow> \<forall>l \<in> set ls. CHR ''/'' \<notin> set l \<Longrightarrow> levels (join ls) = ls"
  by (induction ls rule: join.induct) (auto simp: levels_slash levels_single)

lemma join_levels: "join (levels cs) = cs"
proof (induction cs)
  case (Cons c cs)
  obtain l ls where l: "levels cs = l # ls" by (cases "levels cs") auto
  with Cons.IH show ?case by (cases ls) auto
qed simp

subsection \<open>The contract of a subscription index\<close>

locale subscription_index =
  fixes wf :: "'t \<Rightarrow> bool"
    and look :: "'t \<Rightarrow> 'p \<Rightarrow> 'c \<Rightarrow> 's option"
    and reach :: "'f \<Rightarrow> 't \<Rightarrow> 'p list"
    and subscribe :: "'f \<Rightarrow> 'c \<Rightarrow> 's \<Rightarrow> 't \<Rightarrow> 't"
    and unsubscribe :: "'f \<Rightarrow> 'c \<Rightarrow> 't \<Rightarrow> 't"
    and find :: "'f \<Rightarrow> 't \<Rightarrow> 't \<times> 's list"
  assumes wf_subscribe: "wf t \<Longrightarrow> wf (subscribe f c s t)"
    and wf_unsubscribe: "wf t \<Longrightarrow> wf (unsubscribe f c t)"
    and wf_find: "wf t \<Longrightarrow> wf (fst (find f t))"
    and look_subscribe: "wf t \<Longrightarrow> look (subscribe f c s t) p c' =
          (if p \<in> set (reach f t) \<and> c' = c then Some s else look t p c')"
    and look_unsubscribe: "wf t \<Longrightarrow> look (unsubscribe f c t) p c' =
          (if p \<in> set (reach f t) \<and> c' = c then None else look t p c')"
    and look_find: "wf t \<Longrightarrow> look (fst (find f t)) p c = look t p c"
    and reach_subscribe: "reach f (subscribe f c s t) = reach f t"
    and reach_unsubscribe: "reach f (unsubscribe f c t) = reach f t"
    and in_find: "wf t \<Longrightarrow> s \<in> set (snd (find f t)) \<longleftrightarrow>
          (\<exists>p \<in> set (reach f t). \<exists>c. look t p c = Some s)"
begin

lemma find_subscribed:
  "wf t \<Longrightarrow> reach f t \<noteq> [] \<Longrightarrow> s \<in> set (snd (find f (subscribe f c s t)))"
  by (cases "reach f t") (auto simp: in_find wf_subscribe reach_subscribe look_subscribe)

lemma find_subscribe_iff:
  assumes "wf t"
  shows "s' \<in> set (snd (find f (subscribe f c s t))) \<longleftrightarrow>
    (s' = s \<and> reach f t \<noteq> []) \<or> (\<exists>p \<in> set (reach f t). \<exists>c' \<noteq> c. look t p c' = Some s')"
  using assms by (cases "reach f t")
    (auto simp: in_find wf_subscribe reach_subscribe look_subscribe split: if_splits)

lemma find_unsubscribe_iff:
  assumes "wf t"
  shows "s' \<in> set (snd (find f (unsubscribe f c t))) \<longleftrightarrow>
    (\<exists>p \<in> set (reach f t). \<exists>c' \<noteq> c. look t p c' = Some s')"
  using assms
  by (auto simp: in_find wf_unsubscribe reach_unsubscribe look_unsubscribe split: if_splits)

lemma subscribe_subscribe:
  "wf t \<Longrightarrow> look (subscribe f c s' (subscribe f c s t)) = look (subscribe f c s' t)"
  by (auto simp: fun_eq_iff look_subscribe wf_subscribe reach_subscribe)

lemma unsubscribe_subscribe:
  "wf t \<Longrightarrow> look (unsubscribe f c (subscribe f c s t)) = look (unsubscribe f c t)"
  by (auto simp: fun_eq_iff look_subscribe look_unsubscribe wf_subscribe reach_subscribe)

lemma others_kept:
  "wf t \<Longrightarrow> c' \<noteq> c \<Longrightarrow>
     look (subscribe f c s t) p c' = look t p c' \<and> look (unsubscribe f c t) p c' = look t p c'"
  by (simp add: look_subscribe look_unsubscribe)

end

definition subscribe_sub :: "string \<Rightarrow> string \<Rightarrow> Subscription \<Rightarrow> Node \<Rightarrow> Node" where
  "subscribe_sub topic c s = tree_subscribe topic c (sub_session s) (sub_qos s)"

interpretation topic_tree: subscription_index node_wf look reach subscribe_sub tree_unsubscribe tree_match
  by unfold_locales
    (simp_all add: subscribe_sub_def tree_ops_wf look_subscribe look_unsubscribe tree_ops(3)
      look_grown reach_after in_match grown_wf)

lemma tree_subscribe_sub:
  "tree_subscribe topic c cs q n = subscribe_sub topic c \<lparr>sub_session = cs, sub_qos = q\<rparr> n"
  by (simp add: subscribe_sub_def)

subsection \<open>Properties\<close>

text \<open>C3: \<open>getNode\<close> is sound and complete. The nodes it returns are, each once, the nodes of the tree it
  leaves behind whose path matches the words with the wildcards \<open>+\<close> and \<open>#\<close>; only a node that \<open>#\<close>
  matches with zero levels is left out when it has no children.\<close>

theorem getNode_exact:
  assumes "node_wf n"
  shows "distinct (snd (getNode ws n)) \<and>
    (\<forall>p. p \<in> set (snd (getNode ws n)) \<longleftrightarrow>
      (\<exists>m. node_at (fst (getNode ws n)) p = Some m \<and> filter_matches ws p \<and>
        (hash_level ws = Some (length p) \<longrightarrow> links m \<noteq> [])))"
  using distinct_getNode [OF assms] getNode_target [OF assms] by (simp add: target_def)

definition sample_tree :: Node where
  "sample_tree =
     Node ''*'' [(''/'', Node ''/''
       [(''a'', Node ''a'' [(''x'', Node ''x'' [] [])] []),
        (''b'', Node ''b'' [(''x'', Node ''x'' [] [])] [])] [])] []"

lemma sample_tree_wf: "node_wf sample_tree"
  by (simp add: sample_tree_def)

theorem getNode_exact_witness:
  "snd (getNode [''/'', ''+'', ''x''] sample_tree) = [[''/'', ''a'', ''x''], [''/'', ''b'', ''x'']] \<and>
   [''/'', ''a'', ''x''] \<in> set (snd (getNode [''/'', ''+'', ''x''] sample_tree))"
proof -
  have "snd (getNode [''/'', ''+'', ''x''] sample_tree) = [[''/'', ''a'', ''x''], [''/'', ''b'', ''x'']]"
    by (simp add: sample_tree_def getNode.simps(2) Let_def)
  with getNode_exact [OF sample_tree_wf, of "[''/'', ''+'', ''x'']"] show ?thesis by simp
qed

text \<open>C17: A subscription is found by the same topic. After \<open>subscribe\<close>, \<open>match\<close> on the same string
  returns the new subscription exactly when the string reaches a node at all, in place of an older one
  of the same client, and the subscriptions the other clients have at the nodes reached.\<close>

theorem match_after_subscribe:
  assumes "node_wf n"
  shows "s \<in> set (snd (tree_match topic (tree_subscribe topic c cs q n))) \<longleftrightarrow>
    (s = \<lparr>sub_session = cs, sub_qos = q\<rparr> \<and> reach topic n \<noteq> []) \<or>
    (\<exists>p \<in> set (reach topic n). \<exists>c'. c' \<noteq> c \<and> look n p c' = Some s)"
  unfolding tree_subscribe_sub
  using topic_tree.find_subscribe_iff [OF assms, of s topic c "\<lparr>sub_session = cs, sub_qos = q\<rparr>"] by blast

theorem match_after_subscribe_witness:
  "\<lparr>sub_session = 4, sub_qos = 1\<rparr> \<in>
     set (snd (tree_match ''/+/x'' (tree_subscribe ''/+/x'' ''c1'' 4 1 sample_tree)))"
proof -
  have "reach ''/+/x'' sample_tree \<noteq> []"
    by (simp add: reach_def sample_tree_def getNode.simps(2) Let_def)
  then show ?thesis
    using match_after_subscribe [OF sample_tree_wf, of "\<lparr>sub_session = 4, sub_qos = 1\<rparr>" "''/+/x''" "''c1''" 4 1]
    by simp
qed

text \<open>\<open>unsubscribe\<close> removes the client and nobody else. Afterwards \<open>match\<close> on the same string returns
  exactly the subscriptions of the other clients at the nodes reached, and no subscription of another
  client at any node of the tree is changed by \<open>subscribe\<close>, \<open>unsubscribe\<close> or \<open>match\<close>.\<close>

lemma unsubscribe_removes_only_own:
  assumes "node_wf n"
  shows "(s \<in> set (snd (tree_match topic (tree_unsubscribe topic c n))) \<longleftrightarrow>
      (\<exists>p \<in> set (reach topic n). \<exists>c'. c' \<noteq> c \<and> look n p c' = Some s)) \<and>
    (c' \<noteq> c \<longrightarrow> look (tree_unsubscribe topic c n) p c' = look n p c' \<and>
      look (tree_subscribe topic c cs q n) p c' = look n p c') \<and>
    look (fst (tree_match topic n)) p c' = look n p c'"
  unfolding tree_subscribe_sub
  using topic_tree.find_unsubscribe_iff [OF assms, of s topic c] topic_tree.others_kept [OF assms, of c' c]
    topic_tree.look_find [OF assms] by blast

text \<open>C40: Wildcards are resolved when a client subscribes, not when somebody publishes. A topic whose node
  does not exist after the subscription is delivered to nobody, whatever filters match it: publishing to
  it creates its node and finds no subscriber there.\<close>

theorem new_topic_reaches_nobody:
  assumes "node_wf n" and "plain (split topic)"
    and "\<not> has_node (tree_subscribe wildcard c cs q n) (split topic)"
  shows "snd (tree_match topic (tree_subscribe wildcard c cs q n)) = [] \<and>
    has_node (fst (tree_match topic (tree_subscribe wildcard c cs q n))) (split topic)"
proof -
  let ?n = "tree_subscribe wildcard c cs q n"
  have "reach topic ?n = [split topic]" using getNode_plain [OF assms(2)] by (simp add: reach_def)
  moreover have "subs_at ?n (split topic) = []" using assms(3) by (simp add: subs_at_def has_node_def)
  ultimately show ?thesis
    using has_node_getNode_plain [OF assms(2)] by (simp add: match_result tree_ops(3) grown_def)
qed

theorem new_topic_reaches_nobody_witness:
  "filter_matches (split ''//#'') (split ''//c'') \<and>
   snd (tree_match ''//c'' (tree_subscribe ''//#'' ''c1'' 4 1 TopicTree_new)) = []"
proof -
  have n: "node_wf TopicTree_new" by (simp add: TopicTree_new_def)
  have "tree_subscribe ''//#'' ''c1'' 4 1 TopicTree_new = grown ''//#'' TopicTree_new"
    by (simp add: tree_subscribe_def grown_def TopicTree_new_def getNode.simps(2) new_node_def Let_def)
  then have "\<not> has_node (tree_subscribe ''//#'' ''c1'' 4 1 TopicTree_new) (split ''//c'')"
    by (simp add: grown_def TopicTree_new_def getNode.simps(2) new_node_def Let_def)
  with new_topic_reaches_nobody [OF n, of "''//c''" "''//#''" "''c1''" 4 1] show ?thesis by simp
qed

text \<open>Topics are cut at the slashes behind their first character, which is replaced by a level of its
  own whatever it is. The levels of a topic with a leading slash are recovered exactly, but topics that
  differ only in their first character are the same topic, and so is every one-character filter.\<close>

lemma split_ignores_first_character:
  assumes "\<forall>l \<in> set ls. CHR ''/'' \<notin> set l" and "ls = [] \<or> last ls \<noteq> []"
  shows "split (c # join ls) = ''/'' # ls"
proof (cases "ls = []")
  case False
  then have "trim (levels (join ls)) = ls" using assms levels_join [of ls] by (simp add: trim_def)
  then show ?thesis by (simp only: split_levels)
qed simp

end
