(* ===== verification/Core_Interface.thy ===== *)
theory Core_Interface
  imports Packets "HOL-Library.Char_ord"
begin

text \<open>
  The culex-core library is a git submodule whose sources are not part of the repository. What the
  broker calls of it is a parameter of the model, the record \<open>core\<close>: the byte readers and writers of
  \<open>core/utils.h\<close>, the receive buffer of a session, and the byte order of the host. Readers take the
  readable memory and an offset (the \<open>const uint8_t**\<close>) and give the value with the advanced offset,
  or \<open>None\<close> when they would read outside the memory. What the broker relies on is stated as the
  predicates \<open>core_reads\<close>, \<open>core_writes\<close> and \<open>core_buffer\<close>; \<open>ref_core\<close> is one concrete record that
  satisfies them.
\<close>

record core =
  core_unpack_u8 :: "u8 list \<Rightarrow> nat \<Rightarrow> (u8 \<times> nat) option"
  core_unpack_u16 :: "u8 list \<Rightarrow> nat \<Rightarrow> (u16 \<times> nat) option"
  core_unpack_string16 :: "u8 list \<Rightarrow> nat \<Rightarrow> (string \<times> nat) option"
  core_pack_u16 :: "u8 list \<Rightarrow> u16 \<Rightarrow> u8 list"
  core_pack_string16 :: "u8 list \<Rightarrow> string \<Rightarrow> u8 list"
  core_little_endian :: bool
  buf_available :: "u8 list \<Rightarrow> nat"
  buf_data :: "u8 list \<Rightarrow> u8 list"
  buf_erase :: "u8 list \<Rightarrow> nat \<Rightarrow> u8 list"

subsection \<open>Bytes, 16-bit values and strings\<close>

definition be16 :: "u16 \<Rightarrow> u8 list" where
  "be16 w = [ucast (drop_bit 8 w), ucast w]"

definition u16_of :: "u8 \<Rightarrow> u8 \<Rightarrow> u16" where
  "u16_of hi lo = push_bit 8 (ucast hi) OR ucast lo"

definition byte_of_char :: "char \<Rightarrow> u8" where
  "byte_of_char c = word_of_nat (of_char c)"

definition char_of_byte :: "u8 \<Rightarrow> char" where
  "char_of_byte b = char_of (unat b)"

definition bytes_of :: "string \<Rightarrow> u8 list" where
  "bytes_of s = map byte_of_char s"

definition string_of :: "u8 list \<Rightarrow> string" where
  "string_of bs = map char_of_byte bs"

text \<open>A length-prefixed string on the wire.\<close>

definition str16 :: "string \<Rightarrow> u8 list" where
  "str16 s = be16 (word_of_nat (length s)) @ bytes_of s"

lemma u16_of_be16: "u16_of (ucast (drop_bit 8 w)) (ucast w) = w"
  by (rule bit_word_eqI) (auto simp: u16_of_def bit_simps)

lemma length_be16 [simp]: "length (be16 w) = 2"
  by (simp add: be16_def)

lemma char_of_byte_of_char [simp]: "char_of_byte (byte_of_char c) = c"
proof -
  have "unat (word_of_nat (of_char c) :: u8) = of_char c"
    by (simp add: unat_of_nat)
  then show ?thesis by (simp add: char_of_byte_def byte_of_char_def)
qed

lemma string_of_bytes_of [simp]: "string_of (bytes_of s) = s"
  by (simp add: string_of_def bytes_of_def o_def)

lemma length_bytes_of [simp]: "length (bytes_of s) = length s"
  by (simp add: bytes_of_def)

lemma length_string_of [simp]: "length (string_of s) = length s"
  by (simp add: string_of_def)

lemma length_str16 [simp]: "length (str16 s) = 2 + length s"
  by (simp add: str16_def)

subsection \<open>What the broker relies on\<close>

definition core_reads :: "core \<Rightarrow> bool" where
  "core_reads C \<longleftrightarrow>
     (\<forall>mem pos. core_unpack_u8 C mem pos =
        (if pos < length mem then Some (mem ! pos, pos + 1) else None)) \<and>
     (\<forall>mem pos. core_unpack_u16 C mem pos =
        (if pos + 1 < length mem then Some (u16_of (mem ! pos) (mem ! (pos + 1)), pos + 2)
         else None)) \<and>
     (\<forall>mem pos. core_unpack_string16 C mem pos =
        (if pos + 1 < length mem
         then let n = unat (u16_of (mem ! pos) (mem ! (pos + 1))) in
           if pos + 2 + n \<le> length mem
           then Some (string_of (take n (drop (pos + 2) mem)), pos + 2 + n) else None
         else None))"

definition core_writes :: "core \<Rightarrow> bool" where
  "core_writes C \<longleftrightarrow>
     (\<forall>buff w. core_pack_u16 C buff w = buff @ be16 w) \<and>
     (\<forall>buff s. core_pack_string16 C buff s = buff @ bytes_of s)"

definition core_buffer :: "core \<Rightarrow> bool" where
  "core_buffer C \<longleftrightarrow>
     (\<forall>b. buf_available C b = length b) \<and> (\<forall>b. buf_data C b = b) \<and>
     (\<forall>b n. buf_erase C b n = drop n b)"

subsection \<open>One record that keeps the contract\<close>

definition ref_core :: core where
  "ref_core =
     \<lparr>core_unpack_u8 = (\<lambda>mem pos. if pos < length mem then Some (mem ! pos, pos + 1) else None),
      core_unpack_u16 = (\<lambda>mem pos.
        if pos + 1 < length mem then Some (u16_of (mem ! pos) (mem ! (pos + 1)), pos + 2)
        else None),
      core_unpack_string16 = (\<lambda>mem pos.
        if pos + 1 < length mem
        then let n = unat (u16_of (mem ! pos) (mem ! (pos + 1))) in
          if pos + 2 + n \<le> length mem
          then Some (string_of (take n (drop (pos + 2) mem)), pos + 2 + n) else None
        else None),
      core_pack_u16 = (\<lambda>buff w. buff @ be16 w),
      core_pack_string16 = (\<lambda>buff s. buff @ bytes_of s),
      core_little_endian = True,
      buf_available = length,
      buf_data = (\<lambda>b. b),
      buf_erase = (\<lambda>b n. drop n b)\<rparr>"

lemma ref_core_ok [simp]: "core_reads ref_core" "core_writes ref_core" "core_buffer ref_core"
  by (simp_all add: core_reads_def core_writes_def core_buffer_def ref_core_def)

subsection \<open>Reading a field that is there\<close>

lemma read_u8_append:
  "core_reads C \<Longrightarrow> core_unpack_u8 C (pre @ b # post) (length pre) = Some (b, length pre + 1)"
  by (simp add: core_reads_def)

lemma read_u16_append:
  "core_reads C \<Longrightarrow>
     core_unpack_u16 C (pre @ be16 w @ post) (length pre) = Some (w, length pre + 2)"
  by (simp add: core_reads_def be16_def nth_append u16_of_be16)

lemma read_string16_append:
  assumes "core_reads C" and "length s < 2 ^ 16"
  shows "core_unpack_string16 C (pre @ str16 s @ post) (length pre) =
    Some (s, length pre + 2 + length s)"
proof -
  have n: "unat (word_of_nat (length s) :: u16) = length s"
    using assms(2) by (simp add: unat_of_nat)
  show ?thesis
    using assms(1) by (simp add: core_reads_def str16_def be16_def nth_append u16_of_be16 n)
qed

text \<open>Under the contract a reader only moves forward, and stays inside the memory.\<close>

lemma read_u8_bounds:
  "core_reads C \<Longrightarrow> core_unpack_u8 C mem pos = Some (b, p) \<Longrightarrow> p = pos + 1 \<and> p \<le> length mem"
  by (auto simp: core_reads_def split: if_splits)

lemma read_u16_bounds:
  "core_reads C \<Longrightarrow> core_unpack_u16 C mem pos = Some (w, p) \<Longrightarrow> p = pos + 2 \<and> p \<le> length mem"
  by (auto simp: core_reads_def split: if_splits)

lemma read_string16_bounds:
  assumes "core_reads C" and "core_unpack_string16 C mem pos = Some (s, p)"
  shows "p = pos + 2 + length s \<and> p \<le> length mem \<and> length s < 2 ^ 16"
proof -
  have "unat (w :: u16) < 2 ^ 16" for w by (rule order_less_le_trans [OF unsigned_less]) simp
  with assms show ?thesis
    by (auto simp: core_reads_def Let_def split: if_splits)
qed

end
