(* ===== verification/Unpack.thy ===== *)
theory Unpack
  imports Core_Interface
begin

text \<open>
  The packet decoder, \<open>mqtt/include/unpack.h\<close> and \<open>mqtt/src/unpack.cpp\<close>. A decoder takes the readable
  memory \<open>mem\<close>, the number of received bytes and the offset of \<open>*buff\<close>; it gives the code's return
  value, the packet and the advanced offset, or a fault. The decoders never check a field against
  the bytes received, so a read beyond \<open>mem\<close> is the fault \<open>OutOfBounds\<close>.
\<close>

abbreviation (input) MQTT_OK :: int where "MQTT_OK \<equiv> 0"
abbreviation (input) MQTT_ERR :: int where "MQTT_ERR \<equiv> 1"
abbreviation (input) MQTT_PARTIAL_PACKET :: int where "MQTT_PARTIAL_PACKET \<equiv> 2"

subsection \<open>Reading\<close>

definition read_u8 :: "core \<Rightarrow> u8 list \<Rightarrow> nat \<Rightarrow> fault + (u8 \<times> nat)" where
  "read_u8 C mem pos = or_fault OutOfBounds (core_unpack_u8 C mem pos)"

definition read_u16 :: "core \<Rightarrow> u8 list \<Rightarrow> nat \<Rightarrow> fault + (u16 \<times> nat)" where
  "read_u16 C mem pos = or_fault OutOfBounds (core_unpack_u16 C mem pos)"

definition read_string16 :: "core \<Rightarrow> u8 list \<Rightarrow> nat \<Rightarrow> fault + (string \<times> nat)" where
  "read_string16 C mem pos = or_fault OutOfBounds (core_unpack_string16 C mem pos)"

subsection \<open>Is the packet complete?\<close>

definition is_partial :: "u8 list \<Rightarrow> nat \<Rightarrow> nat \<Rightarrow> int \<Rightarrow> fault + (bool \<times> int \<times> nat)" where
  "is_partial mem available_bytes start remaining_len0 =
     (if available_bytes \<le> 1 then Inr (True, remaining_len0, start)
      else and_then (decode_length mem start available_bytes) (\<lambda>(v, pos).
        let remaining_len = c_int v in
        if remaining_len < 0 then Inr (True, remaining_len, pos)
        else
          let length_of_remaining_len = int pos - int start in
          if 1 + length_of_remaining_len + remaining_len > int available_bytes
          then Inr (True, remaining_len, pos)
          else Inr (False, remaining_len, pos)))"

text \<open>\<open>sizeof(uint8_t) + length_of_remaining_len + remaining_len\<close>.\<close>

definition total_len :: "nat \<Rightarrow> nat \<Rightarrow> int \<Rightarrow> nat" where
  "total_len start pos remaining_len = nat (1 + (int pos - int start) + remaining_len)"

subsection \<open>The decoders\<close>

type_synonym unpacked = "fault + (int \<times> Packet \<times> nat)"

definition unpack_connect :: "core \<Rightarrow> Packet \<Rightarrow> u8 list \<Rightarrow> nat \<Rightarrow> nat \<Rightarrow> unpacked" where
  "unpack_connect C packet mem start available_bytes =
     and_then (is_partial mem available_bytes start 0) (\<lambda>(partial, remaining_len, pos).
     if partial then Inr (MQTT_PARTIAL_PACKET, packet, pos) else
     let packet = packet\<lparr>pkt_len := total_len start pos remaining_len\<rparr> in
     and_then (read_string16 C mem pos) (\<lambda>(protocol_name, pos).
     if protocol_name \<noteq> ''MQTT'' then Inr (- MQTT_ERR, packet, pos) else
     and_then (read_u8 C mem pos) (\<lambda>(level, pos).
     and_then (read_u8 C mem pos) (\<lambda>(byte, pos).
     let cf = connect_flags_unpack byte in
     and_then (read_u16 C mem pos) (\<lambda>(keep_alive, pos).
     and_then (read_string16 C mem pos) (\<lambda>(client_id, pos).
     let cn = Connect_default\<lparr>cn_level := level, cn_cf := cf, cn_keep_alive := keep_alive,
                cn_client_id := client_id\<rparr> in
     and_then
       (if cf_will cf
        then and_then (read_string16 C mem pos) (\<lambda>(will_topic, pos).
             and_then (read_string16 C mem pos) (\<lambda>(will_msg, pos).
             Inr (cn\<lparr>cn_will_topic := will_topic, cn_will_msg := will_msg\<rparr>, pos)))
        else Inr (cn, pos)) (\<lambda>(cn, pos).
     and_then
       (if cf_username cf
        then and_then (read_string16 C mem pos) (\<lambda>(username, pos).
             Inr (cn\<lparr>cn_username := username\<rparr>, pos))
        else Inr (cn, pos)) (\<lambda>(cn, pos).
     and_then
       (if cf_passwd cf
        then and_then (read_string16 C mem pos) (\<lambda>(passwd, pos).
             Inr (cn\<lparr>cn_passwd := passwd\<rparr>, pos))
        else Inr (cn, pos)) (\<lambda>(cn, pos).
     Inr (MQTT_OK, packet\<lparr>pkt := VConnect cn\<rparr>, pos))))))))))"

text \<open>
  \<open>payload_size\<close> is an \<open>int\<close> computed in \<open>size_t\<close>; \<open>resize\<close> of a negative one asks for more than
  \<open>max_size()\<close> and throws.
\<close>

definition unpack_publish :: "core \<Rightarrow> Packet \<Rightarrow> u8 list \<Rightarrow> nat \<Rightarrow> nat \<Rightarrow> unpacked" where
  "unpack_publish C packet mem start available_bytes =
     and_then (is_partial mem available_bytes start 0) (\<lambda>(partial, remaining_len, pos).
     if partial then Inr (MQTT_PARTIAL_PACKET, packet, pos) else
     let packet = packet\<lparr>pkt_len := total_len start pos remaining_len\<rparr> in
     and_then (read_string16 C mem pos) (\<lambda>(topic, pos).
     let payload_size = int_minus_size remaining_len (length topic + 2) in
     and_then
       (if hdr_qos (header packet) > 0
        then and_then (read_u16 C mem pos) (\<lambda>(packet_id, pos).
             Inr (packet_id, int_minus_size payload_size 2, pos))
        else Inr (0, payload_size, pos)) (\<lambda>(packet_id, payload_size, pos).
     if payload_size < 0 then Inl LengthError
     else if int pos + payload_size > int (length mem) then Inl OutOfBounds
     else
       let pub = \<lparr>pub_topic = topic, pub_packet_id = packet_id,
                  pub_payload = take (nat payload_size) (drop pos mem)\<rparr>
       in Inr (MQTT_OK, packet\<lparr>pkt := VPublish pub\<rparr>, pos + nat payload_size))))"

definition unpack_ack :: "core \<Rightarrow> Packet \<Rightarrow> u8 list \<Rightarrow> nat \<Rightarrow> nat \<Rightarrow> unpacked" where
  "unpack_ack C packet mem start available_bytes =
     and_then (is_partial mem available_bytes start 0) (\<lambda>(partial, remaining_len, pos).
     if partial then Inr (MQTT_PARTIAL_PACKET, packet, pos) else
     let packet = packet\<lparr>pkt_len := total_len start pos remaining_len\<rparr> in
     and_then (read_u16 C mem pos) (\<lambda>(packet_id, pos).
     Inr (MQTT_OK, packet\<lparr>pkt := VAck \<lparr>ack_packet_id = packet_id\<rparr>\<rparr>, pos)))"

text \<open>
  The payload loops. The first argument bounds the iterations; each one reads at least two bytes,
  so \<open>length mem + 1\<close> of them are always enough.
\<close>

fun subscribe_loop ::
    "nat \<Rightarrow> core \<Rightarrow> u8 list \<Rightarrow> nat \<Rightarrow> int \<Rightarrow> topic_tuple list \<Rightarrow> fault + (topic_tuple list \<times> nat)" where
  "subscribe_loop fuel C mem pos payload_len acc =
     (if payload_len > 0 then
        (case fuel of
           0 \<Rightarrow> Inl OutOfFuel
         | Suc fuel' \<Rightarrow>
             and_then (read_string16 C mem pos) (\<lambda>(topic, pos).
             and_then (read_u8 C mem pos) (\<lambda>(q, pos).
             subscribe_loop fuel' C mem pos
               (int_minus_size payload_len (2 + length topic + 1))
               (acc @ [\<lparr>tp_topic = topic, tp_qos = q\<rparr>]))))
      else Inr (acc, pos))"

definition unpack_subscribe :: "core \<Rightarrow> Packet \<Rightarrow> u8 list \<Rightarrow> nat \<Rightarrow> nat \<Rightarrow> unpacked" where
  "unpack_subscribe C packet mem start available_bytes =
     and_then (is_partial mem available_bytes start 0) (\<lambda>(partial, remaining_len, pos).
     if partial then Inr (MQTT_PARTIAL_PACKET, packet, pos) else
     let packet = packet\<lparr>pkt_len := total_len start pos remaining_len\<rparr> in
     and_then (read_u16 C mem pos) (\<lambda>(packet_id, pos).
     let payload_len = int_minus_size remaining_len 2 in
     and_then (subscribe_loop (length mem + 1) C mem pos payload_len []) (\<lambda>(payload, pos).
     Inr (MQTT_OK,
          packet\<lparr>pkt := VSubscribe \<lparr>sub_packet_id = packet_id, sub_payload = payload\<rparr>\<rparr>, pos))))"

text \<open>Here \<open>payload_len\<close> is a \<open>size_t\<close> and the loop runs while it is not zero.\<close>

fun unsubscribe_loop ::
    "nat \<Rightarrow> core \<Rightarrow> u8 list \<Rightarrow> nat \<Rightarrow> size_t \<Rightarrow> string list \<Rightarrow> fault + (string list \<times> nat)" where
  "unsubscribe_loop fuel C mem pos payload_len acc =
     (if payload_len \<noteq> 0 then
        (case fuel of
           0 \<Rightarrow> Inl OutOfFuel
         | Suc fuel' \<Rightarrow>
             and_then (read_string16 C mem pos) (\<lambda>(topic, pos).
             unsubscribe_loop fuel' C mem pos (payload_len - of_nat (2 + length topic))
               (acc @ [topic])))
      else Inr (acc, pos))"

definition unpack_unsubscribe :: "core \<Rightarrow> Packet \<Rightarrow> u8 list \<Rightarrow> nat \<Rightarrow> nat \<Rightarrow> unpacked" where
  "unpack_unsubscribe C packet mem start available_bytes =
     and_then (is_partial mem available_bytes start 0) (\<lambda>(partial, remaining_len, pos).
     if partial then Inr (MQTT_PARTIAL_PACKET, packet, pos) else
     let first_byte = header_pack (header packet) in
     if first_byte AND 0x02 \<noteq> 0x02 then Inr (- MQTT_ERR, packet, pos) else
     let packet = packet\<lparr>pkt_len := total_len start pos remaining_len\<rparr> in
     and_then (read_u16 C mem pos) (\<lambda>(packet_id, pos).
     let payload_len = word_of_int remaining_len - of_nat 2 in
     and_then (unsubscribe_loop (length mem + 1) C mem pos payload_len []) (\<lambda>(topics, pos).
     Inr (MQTT_OK,
          packet\<lparr>pkt := VUnsubscribe \<lparr>unsub_packet_id = packet_id, unsub_topics = topics\<rparr>\<rparr>,
          pos))))"

subsection \<open>The jump table\<close>

type_synonym unpackHandler = "Packet \<Rightarrow> u8 list \<Rightarrow> nat \<Rightarrow> nat \<Rightarrow> unpacked"

definition unpack_handlers :: "core \<Rightarrow> unpackHandler option list" where
  "unpack_handlers C =
     [None, Some (unpack_connect C), None, Some (unpack_publish C), Some (unpack_ack C),
      Some (unpack_ack C), Some (unpack_ack C), Some (unpack_ack C), Some (unpack_subscribe C),
      None, Some (unpack_unsubscribe C)]"

text \<open>The index is the packet type's code, 0 to 15; the table has eleven entries.\<close>

definition unpack :: "core \<Rightarrow> Packet \<Rightarrow> u8 list \<Rightarrow> nat \<Rightarrow> nat \<Rightarrow> unpacked" where
  "unpack C packet mem pos available_bytes =
     and_then (read_u8 C mem pos) (\<lambda>(byte, pos).
     let packet = packet\<lparr>header := header_unpack byte\<rparr>;
         index = unat (pt_code (hdr_type (header packet)))
     in if index \<ge> length (unpack_handlers C) then Inl OutOfBounds
        else case unpack_handlers C ! index of
          Some handler \<Rightarrow> handler packet mem pos available_bytes
        | None \<Rightarrow> Inr (- MQTT_ERR, packet, pos))"

declare subscribe_loop.simps [simp del] unsubscribe_loop.simps [simp del]

subsection \<open>Bytes at an offset\<close>

definition bytes_at :: "u8 list \<Rightarrow> nat \<Rightarrow> u8 list \<Rightarrow> bool" where
  "bytes_at mem p bs \<longleftrightarrow> p + length bs \<le> length mem \<and> take (length bs) (drop p mem) = bs"

lemma bytes_at_append:
  "bytes_at mem p (xs @ ys) \<longleftrightarrow> bytes_at mem p xs \<and> bytes_at mem (p + length xs) ys"
proof -
  have "take (length xs + length ys) (drop p mem) = xs @ ys \<longleftrightarrow>
      take (length xs) (drop p mem) = xs \<and> take (length ys) (drop (p + length xs) mem) = ys"
    if "p + length xs + length ys \<le> length mem"
    using that by (subst take_add) (auto simp: append_eq_append_conv add.commute)
  then show ?thesis by (auto simp: bytes_at_def)
qed

lemma bytes_at_Nil [simp]: "bytes_at mem p [] \<longleftrightarrow> p \<le> length mem"
  by (simp add: bytes_at_def)

lemma bytes_at_single: "bytes_at mem p [b] \<longleftrightarrow> p < length mem \<and> mem ! p = b"
  by (auto simp: bytes_at_def take_Suc_conv_app_nth numeral_eq_Suc Suc_le_eq)

lemma bytes_at_Cons:
  "bytes_at mem p (b # bs) \<longleftrightarrow> p < length mem \<and> mem ! p = b \<and> bytes_at mem (p + 1) bs"
  using bytes_at_append [of mem p "[b]" bs] by (simp add: bytes_at_single)

lemma bytes_at_prefix: "bytes_at (bs @ rest) 0 bs"
  by (simp add: bytes_at_def)

lemma bytes_at_split:
  "bytes_at mem p bs \<Longrightarrow> mem = take p mem @ bs @ drop (p + length bs) mem \<and> length (take p mem) = p"
  unfolding bytes_at_def
  by (metis add_leD1 append_take_drop_id drop_drop add.commute length_take min.absorb2)

lemma bytes_at_end: "bytes_at mem p bs \<Longrightarrow> take (length bs) (drop p mem) = bs"
  by (simp add: bytes_at_def)

lemma bytes_at_le: "bytes_at mem p bs \<Longrightarrow> p + length bs \<le> length mem"
  by (simp add: bytes_at_def)

subsection \<open>Reading a field that is there\<close>

lemma read_u8_at:
  "core_reads C \<Longrightarrow> p < length mem \<Longrightarrow> read_u8 C mem p = Inr (mem ! p, p + 1)"
  by (simp add: read_u8_def core_reads_def)

lemma read_u16_at:
  assumes "core_reads C" and "bytes_at mem p (be16 w)"
  shows "read_u16 C mem p = Inr (w, p + 2)"
  using bytes_at_split [OF assms(2)] read_u16_append [OF assms(1), of "take p mem" w]
  by (metis or_fault.simps(2) read_u16_def)

definition str_ok :: "string \<Rightarrow> bool" where
  "str_ok s \<longleftrightarrow> length s < 2 ^ 16"

lemma read_string16_at:
  assumes "core_reads C" and "bytes_at mem p (str16 s)" and "str_ok s"
  shows "read_string16 C mem p = Inr (s, p + 2 + length s)"
  using bytes_at_split [OF assms(2)] read_string16_append [OF assms(1) assms(3) [unfolded str_ok_def], of "take p mem"]
  by (metis or_fault.simps(2) read_string16_def)

lemma c_int_of_nat: "n < 2 ^ 31 \<Longrightarrow> c_int (word_of_nat n) = int n"
  using c_int_of_int [of "int n"] by simp

lemma decode_length_at:
  assumes "bytes_at mem p (vbi n)" and "length (vbi n) \<le> avail"
  shows "decode_length mem p avail =
    (if n < 128 ^ 3 then Inr (word_of_nat n, p + length (vbi n))
     else Inl (RuntimeError ''Malformed Remaining Length!!''))"
  using decode_length_vbi [OF assms(2), of "take p mem"] bytes_at_split [OF assms(1)]
  by metis

lemma is_partial_at:
  assumes "bytes_at mem p (vbi n)" and "n < 128 ^ 3" and "1 + length (vbi n) \<le> avail"
  shows "is_partial mem avail p r =
    Inr (1 + length (vbi n) + n > avail, int n, p + length (vbi n))"
proof -
  have "avail > 1" using assms(3) by (cases "vbi n") auto
  moreover have "c_int (word_of_nat n) = int n"
    using assms(2) by (intro c_int_of_nat) simp
  ultimately show ?thesis
    using assms decode_length_at [OF assms(1), of avail] by (auto simp: is_partial_def Let_def)
qed

lemma is_partial_too_long:
  assumes "bytes_at mem p (vbi n)" and "128 ^ 3 \<le> n" and "1 + length (vbi n) \<le> avail"
  shows "is_partial mem avail p r = Inl (RuntimeError ''Malformed Remaining Length!!'')"
proof -
  have "avail > 1" using assms(3) by (cases "vbi n") auto
  then show ?thesis
    using assms decode_length_at [OF assms(1), of avail] by (auto simp: is_partial_def Let_def)
qed

subsection \<open>The MQTT wire format\<close>

definition connect_body :: "Connect \<Rightarrow> u8 list" where
  "connect_body cn =
     str16 ''MQTT'' @ [cn_level cn, connect_flags_pack (cn_cf cn)] @ be16 (cn_keep_alive cn) @
     str16 (cn_client_id cn) @
     (if cf_will (cn_cf cn) then str16 (cn_will_topic cn) @ str16 (cn_will_msg cn) else []) @
     (if cf_username (cn_cf cn) then str16 (cn_username cn) else []) @
     (if cf_passwd (cn_cf cn) then str16 (cn_passwd cn) else [])"

definition publish_body :: "u8 \<Rightarrow> Publish \<Rightarrow> u8 list" where
  "publish_body q p =
     str16 (pub_topic p) @ (if q > 0 then be16 (pub_packet_id p) else []) @ pub_payload p"

fun topics_bytes :: "topic_tuple list \<Rightarrow> u8 list" where
  "topics_bytes [] = []"
| "topics_bytes (t # ts) = str16 (tp_topic t) @ [tp_qos t] @ topics_bytes ts"

fun filters_bytes :: "string list \<Rightarrow> u8 list" where
  "filters_bytes [] = []"
| "filters_bytes (s # ss) = str16 s @ filters_bytes ss"

fun body_of :: "u8 \<Rightarrow> variant \<Rightarrow> u8 list" where
  "body_of q (VConnect cn) = connect_body cn"
| "body_of q (VPublish p) = publish_body q p"
| "body_of q (VAck a) = be16 (ack_packet_id a)"
| "body_of q (VSubscribe s) = be16 (sub_packet_id s) @ topics_bytes (sub_payload s)"
| "body_of q (VUnsubscribe u) = be16 (unsub_packet_id u) @ filters_bytes (unsub_topics u)"
| "body_of q (VConnack a) = [ack_flags a, return_code a]"

definition wire :: "Header \<Rightarrow> variant \<Rightarrow> u8 list" where
  "wire h v =
     header_pack h # vbi (length (body_of (hdr_qos h) v)) @ body_of (hdr_qos h) v"

text \<open>The flags of a CONNECT say which optional fields it has; the others are empty.\<close>

definition connect_ok :: "Connect \<Rightarrow> bool" where
  "connect_ok cn \<longleftrightarrow>
     connect_flags_wf (cn_cf cn) \<and> str_ok (cn_client_id cn) \<and>
     (if cf_will (cn_cf cn) then str_ok (cn_will_topic cn) \<and> str_ok (cn_will_msg cn)
      else cn_will_topic cn = '''' \<and> cn_will_msg cn = '''') \<and>
     (if cf_username (cn_cf cn) then str_ok (cn_username cn) else cn_username cn = '''') \<and>
     (if cf_passwd (cn_cf cn) then str_ok (cn_passwd cn) else cn_passwd cn = '''')"

text \<open>
  The packets a client sends: the variant is the one of the header's type, the strings fit their
  length prefix, a PUBLISH of QoS 0 has no packet id, an UNSUBSCRIBE has the reserved flag bits
  0010 the code tests.
\<close>

fun packet_ok :: "Header \<Rightarrow> variant \<Rightarrow> bool" where
  "packet_ok h (VConnect cn) \<longleftrightarrow> hdr_type h = CONNECT \<and> connect_ok cn"
| "packet_ok h (VPublish p) \<longleftrightarrow> hdr_type h = PUBLISH \<and> str_ok (pub_topic p) \<and>
     (hdr_qos h > 0 \<or> pub_packet_id p = 0)"
| "packet_ok h (VAck a) \<longleftrightarrow> hdr_type h \<in> {PUBACK, PUBREC, PUBREL, PUBCOMP}"
| "packet_ok h (VSubscribe s) \<longleftrightarrow> hdr_type h = SUBSCRIBE \<and>
     list_all (\<lambda>t. str_ok (tp_topic t)) (sub_payload s)"
| "packet_ok h (VUnsubscribe u) \<longleftrightarrow> hdr_type h = UNSUBSCRIBE \<and> bit (hdr_qos h) 0 \<and>
     list_all str_ok (unsub_topics u)"
| "packet_ok h (VConnack a) \<longleftrightarrow> False"

definition decoder_of :: "core \<Rightarrow> variant \<Rightarrow> Packet \<Rightarrow> u8 list \<Rightarrow> nat \<Rightarrow> nat \<Rightarrow> unpacked" where
  "decoder_of C v = (case v of
     VConnect _ \<Rightarrow> unpack_connect C
   | VPublish _ \<Rightarrow> unpack_publish C
   | VAck _ \<Rightarrow> unpack_ack C
   | VSubscribe _ \<Rightarrow> unpack_subscribe C
   | VUnsubscribe _ \<Rightarrow> unpack_unsubscribe C
   | VConnack _ \<Rightarrow> (\<lambda>_ _ _ _. Inl OutOfBounds))"

lemma unpack_dispatch:
  assumes "core_reads C" and "bytes_at mem 0 (wire h v)" and "header_wf h" and "packet_ok h v"
  shows "unpack C p mem 0 avail = decoder_of C v (p\<lparr>header := h\<rparr>) mem 1 avail"
proof -
  have "mem ! 0 = header_pack h" "0 < length mem"
    using assms(2) by (simp_all add: wire_def bytes_at_Cons)
  with assms(1,3,4) show ?thesis
    by (cases v)
      (auto simp: unpack_def read_u8_at header_unpack_pack unpack_handlers_def decoder_of_def Let_def)
qed

lemma wire_bytes_at:
  "bytes_at mem 0 (wire h v) \<longleftrightarrow>
     0 < length mem \<and> mem ! 0 = header_pack h \<and>
     bytes_at mem 1 (vbi (length (body_of (hdr_qos h) v))) \<and>
     bytes_at mem (1 + length (vbi (length (body_of (hdr_qos h) v)))) (body_of (hdr_qos h) v)"
  by (simp add: wire_def bytes_at_Cons bytes_at_append)

lemma total_len_at: "total_len 1 (1 + l) (int n) = 1 + l + n"
  by (simp add: total_len_def)

lemma unpack_ack_at:
  assumes "core_reads C" and "bytes_at mem 1 (vbi 2)"
    and "bytes_at mem (1 + length (vbi 2)) (be16 (ack_packet_id a))"
    and "1 + length (vbi 2) + 2 \<le> avail"
  shows "unpack_ack C p mem 1 avail =
    Inr (MQTT_OK, p\<lparr>pkt_len := 1 + length (vbi 2) + 2, pkt := VAck a\<rparr>, 1 + length (vbi 2) + 2)"
  using assms is_partial_at [OF assms(2), of avail 0] total_len_at [of "length (vbi 2)" 2]
  by (simp add: unpack_ack_def read_u16_at)

lemma unpack_publish_at:
  assumes b: "b = publish_body (hdr_qos (header p)) pub" and l: "l = length (vbi (length b))"
    and C: "core_reads C" and at_l: "bytes_at mem 1 (vbi (length b))" and at_b: "bytes_at mem (1 + l) b"
    and short: "length b < 128 ^ 3" and av: "1 + l + length b \<le> avail"
    and t: "str_ok (pub_topic pub)" and q0: "hdr_qos (header p) > 0 \<or> pub_packet_id pub = 0"
  shows "unpack_publish C p mem 1 avail =
    Inr (MQTT_OK, p\<lparr>pkt_len := 1 + l + length b, pkt := VPublish pub\<rparr>, 1 + l + length b)"
proof -
  let ?q = "hdr_qos (header p)" and ?t = "pub_topic pub" and ?n = "int (length b)"
  have part: "is_partial mem avail 1 0 = Inr (False, ?n, 1 + l)"
    using is_partial_at [OF at_l short, of avail 0] av by (simp add: l)
  have topic: "read_string16 C mem (1 + l) = Inr (?t, 1 + l + 2 + length ?t)"
    by (rule read_string16_at [OF C])
      (use at_b t in \<open>auto simp: b publish_body_def bytes_at_append\<close>)
  have end_le: "1 + l + length b \<le> length mem" using bytes_at_le [OF at_b] .
  have s1: "int_minus_size ?n (length ?t + 2) = ?n - int (length ?t + 2)"
    by (rule int_minus_size) (use short in \<open>auto simp: b publish_body_def\<close>)
  show ?thesis
  proof (cases "?q > 0")
    case True
    have id: "read_u16 C mem (1 + l + 2 + length ?t) = Inr (pub_packet_id pub, 1 + l + 2 + length ?t + 2)"
      by (rule read_u16_at [OF C])
        (use at_b True in \<open>auto simp: b publish_body_def bytes_at_append add_ac\<close>)
    have s2: "int_minus_size (?n - int (length ?t + 2)) 2 = int (length (pub_payload pub))"
      using True short by (subst int_minus_size) (auto simp: b publish_body_def)
    have pl: "take (length (pub_payload pub)) (drop (1 + l + 2 + length ?t + 2) mem) = pub_payload pub"
      by (rule bytes_at_end) (use at_b True in \<open>auto simp: b publish_body_def bytes_at_append add_ac\<close>)
    have len: "length b = 2 + length ?t + 2 + length (pub_payload pub)"
      using True by (simp add: b publish_body_def)
    show ?thesis
      unfolding unpack_publish_def
      using part topic id s1 s2 True pl len end_le total_len_at [of l "length b"]
      by (simp del: of_nat_add)
  next
    case False
    have s1: "int_minus_size ?n (length ?t + 2) = int (length (pub_payload pub))"
      using False short by (subst int_minus_size) (auto simp: b publish_body_def)
    have pl: "take (length (pub_payload pub)) (drop (1 + l + 2 + length ?t) mem) = pub_payload pub"
      by (rule bytes_at_end) (use at_b False in \<open>auto simp: b publish_body_def bytes_at_append add_ac\<close>)
    have len: "length b = 2 + length ?t + length (pub_payload pub)"
      using False by (simp add: b publish_body_def)
    have "pub_packet_id pub = 0" using q0 False by simp
    then show ?thesis
      unfolding unpack_publish_def
      using part topic s1 False pl len end_le total_len_at [of l "length b"]
      by (simp del: of_nat_add)
  qed
qed


lemma unpack_connect_at:
  assumes b: "b = connect_body cn" and l: "l = length (vbi (length b))"
    and C: "core_reads C" and at_l: "bytes_at mem 1 (vbi (length b))" and at_b: "bytes_at mem (1 + l) b"
    and short: "length b < 128 ^ 3" and av: "1 + l + length b \<le> avail"
    and ok: "connect_ok cn"
  shows "unpack_connect C p mem 1 avail =
    Inr (MQTT_OK, p\<lparr>pkt_len := 1 + l + length b, pkt := VConnect cn\<rparr>, 1 + l + length b)"
proof -
  let ?cf = "cn_cf cn"
  have part: "is_partial mem avail 1 0 = Inr (False, int (length b), 1 + l)"
    using is_partial_at [OF at_l short, of avail 0] av by (simp add: l)
  have flags: "connect_flags_unpack (connect_flags_pack ?cf) = ?cf"
    using ok by (simp add: connect_ok_def connect_flags_unpack_pack)
  have name: "str_ok ''MQTT''" by (simp add: str_ok_def)
  show ?thesis
    unfolding unpack_connect_def part and_then.simps prod.case if_False Let_def total_len_at
    using at_b ok flags name
    unfolding b connect_body_def bytes_at_append connect_ok_def
    by (cases "cf_will ?cf"; cases "cf_username ?cf"; cases "cf_passwd ?cf")
      (auto simp: bytes_at_append bytes_at_Cons read_string16_at [OF C] read_u16_at [OF C]
        read_u8_at [OF C] Connect_default_def numeral_eq_Suc add.assoc)
qed

lemma length_topics_ge: "length ts \<le> length (topics_bytes ts)"
  by (induction ts) auto

lemma length_filters_ge: "length ss \<le> length (filters_bytes ss)"
  by (induction ss) auto

lemma subscribe_loop_at:
  assumes "core_reads C" and "bytes_at mem p (topics_bytes ts)"
    and "list_all (\<lambda>t. str_ok (tp_topic t)) ts" and "length ts \<le> fuel"
    and "length (topics_bytes ts) < 2 ^ 31"
  shows "subscribe_loop fuel C mem p (int (length (topics_bytes ts))) acc =
    Inr (acc @ ts, p + length (topics_bytes ts))"
  using assms(2-)
proof (induction ts arbitrary: fuel p acc)
  case Nil
  then show ?case by (simp add: subscribe_loop.simps)
next
  case (Cons t ts)
  let ?s = "tp_topic t"
  obtain f where fuel: "fuel = Suc f" using Cons.prems(3) by (cases fuel) auto
  have at: "bytes_at mem p (str16 ?s)" "p + 2 + length ?s < length mem" "mem ! (p + 2 + length ?s) = tp_qos t"
    "bytes_at mem (p + 2 + length ?s + 1) (topics_bytes ts)"
    using Cons.prems(1) by (auto simp: bytes_at_append bytes_at_Cons add_ac)
  have r1: "read_string16 C mem p = Inr (?s, p + 2 + length ?s)"
    using Cons.prems(2) by (intro read_string16_at [OF assms(1) at(1)]) simp
  have r2: "read_u8 C mem (p + 2 + length ?s) = Inr (tp_qos t, p + 2 + length ?s + 1)"
    using read_u8_at [OF assms(1) at(2)] at(3) by simp
  have m: "int_minus_size (int (length (topics_bytes (t # ts)))) (2 + length ?s + 1) =
      int (length (topics_bytes ts))"
    using Cons.prems(4) by (subst int_minus_size) auto
  have IH: "subscribe_loop f C mem (p + 2 + length ?s + 1) (int (length (topics_bytes ts)))
        (acc @ [\<lparr>tp_topic = ?s, tp_qos = tp_qos t\<rparr>]) =
      Inr ((acc @ [\<lparr>tp_topic = ?s, tp_qos = tp_qos t\<rparr>]) @ ts, p + 2 + length ?s + 1 + length (topics_bytes ts))"
    by (rule Cons.IH [OF at(4)]) (use Cons.prems fuel in auto)
  show ?case
    by (subst subscribe_loop.simps) (use r1 r2 m IH in \<open>simp add: fuel add.assoc\<close>)
qed

lemma unsubscribe_loop_at:
  assumes "core_reads C" and "bytes_at mem p (filters_bytes ss)"
    and "list_all str_ok ss" and "length ss \<le> fuel" and "length (filters_bytes ss) < 2 ^ 31"
  shows "unsubscribe_loop fuel C mem p (word_of_nat (length (filters_bytes ss))) acc =
    Inr (acc @ ss, p + length (filters_bytes ss))"
  using assms(2-)
proof (induction ss arbitrary: fuel p acc)
  case Nil
  then show ?case by (simp add: unsubscribe_loop.simps)
next
  case (Cons s ss)
  obtain f where fuel: "fuel = Suc f" using Cons.prems(3) by (cases fuel) auto
  have at: "bytes_at mem p (str16 s)" "bytes_at mem (p + 2 + length s) (filters_bytes ss)"
    using Cons.prems(1) by (auto simp: bytes_at_append add_ac)
  have r1: "read_string16 C mem p = Inr (s, p + 2 + length s)"
    using Cons.prems(2) by (intro read_string16_at [OF assms(1) at(1)]) simp
  have len: "length (filters_bytes (s # ss)) = 2 + length s + length (filters_bytes ss)" by simp
  have nz: "(word_of_nat (length (filters_bytes (s # ss))) :: size_t) \<noteq> 0"
    using Cons.prems(4) by (subst word_of_nat_eq_0_iff) (auto dest!: dvd_imp_le)
  have m: "(word_of_nat (length (filters_bytes (s # ss))) :: size_t) - of_nat (2 + length s) =
      word_of_nat (length (filters_bytes ss))"
    by simp
  have IH: "unsubscribe_loop f C mem (p + 2 + length s) (word_of_nat (length (filters_bytes ss))) (acc @ [s]) =
      Inr ((acc @ [s]) @ ss, p + 2 + length s + length (filters_bytes ss))"
    by (rule Cons.IH [OF at(2)]) (use Cons.prems fuel in auto)
  show ?case
    by (subst unsubscribe_loop.simps) (use r1 nz m IH len in \<open>simp add: fuel add.assoc del: filters_bytes.simps of_nat_add\<close>)
qed

lemma unpack_subscribe_at:
  assumes b: "b = be16 (sub_packet_id s) @ topics_bytes (sub_payload s)" and l: "l = length (vbi (length b))"
    and C: "core_reads C" and at_l: "bytes_at mem 1 (vbi (length b))" and at_b: "bytes_at mem (1 + l) b"
    and short: "length b < 128 ^ 3" and av: "1 + l + length b \<le> avail"
    and ok: "list_all (\<lambda>t. str_ok (tp_topic t)) (sub_payload s)"
  shows "unpack_subscribe C p mem 1 avail =
    Inr (MQTT_OK, p\<lparr>pkt_len := 1 + l + length b, pkt := VSubscribe s\<rparr>, 1 + l + length b)"
proof -
  let ?ts = "sub_payload s"
  have part: "is_partial mem avail 1 0 = Inr (False, int (length b), 1 + l)"
    using is_partial_at [OF at_l short, of avail 0] av by (simp add: l)
  have id: "read_u16 C mem (1 + l) = Inr (sub_packet_id s, 1 + l + 2)"
    by (rule read_u16_at [OF C]) (use at_b in \<open>auto simp: b bytes_at_append\<close>)
  have at: "bytes_at mem (1 + l + 2) (topics_bytes ?ts)"
    using at_b by (simp add: b bytes_at_append)
  have m: "int_minus_size (int (length b)) 2 = int (length (topics_bytes ?ts))"
    using short by (subst int_minus_size) (auto simp: b)
  have loop: "subscribe_loop (length mem + 1) C mem (1 + l + 2) (int (length (topics_bytes ?ts))) [] =
      Inr ([] @ ?ts, 1 + l + 2 + length (topics_bytes ?ts))"
    by (rule subscribe_loop_at [OF C at ok])
      (use bytes_at_le [OF at] length_topics_ge [of ?ts] short in \<open>auto simp: b\<close>)
  have "length b = 2 + length (topics_bytes ?ts)" by (simp add: b)
  with id m loop show ?thesis
    unfolding unpack_subscribe_def part and_then.simps prod.case if_False Let_def total_len_at
    by simp
qed

lemma unpack_unsubscribe_at:
  assumes b: "b = be16 (unsub_packet_id u) @ filters_bytes (unsub_topics u)" and l: "l = length (vbi (length b))"
    and C: "core_reads C" and at_l: "bytes_at mem 1 (vbi (length b))" and at_b: "bytes_at mem (1 + l) b"
    and short: "length b < 128 ^ 3" and av: "1 + l + length b \<le> avail"
    and ok: "list_all str_ok (unsub_topics u)" and flag: "bit (hdr_qos (header p)) 0"
  shows "unpack_unsubscribe C p mem 1 avail =
    Inr (MQTT_OK, p\<lparr>pkt_len := 1 + l + length b, pkt := VUnsubscribe u\<rparr>, 1 + l + length b)"
proof -
  let ?ss = "unsub_topics u"
  have part: "is_partial mem avail 1 0 = Inr (False, int (length b), 1 + l)"
    using is_partial_at [OF at_l short, of avail 0] av by (simp add: l)
  have id: "read_u16 C mem (1 + l) = Inr (unsub_packet_id u, 1 + l + 2)"
    by (rule read_u16_at [OF C]) (use at_b in \<open>auto simp: b bytes_at_append\<close>)
  have at: "bytes_at mem (1 + l + 2) (filters_bytes ?ss)"
    using at_b by (simp add: b bytes_at_append)
  have len: "length b = 2 + length (filters_bytes ?ss)" by (simp add: b)
  have m: "(word_of_int (int (length b)) :: size_t) - of_nat 2 = word_of_nat (length (filters_bytes ?ss))"
    by (simp add: len)
  have loop: "unsubscribe_loop (length mem + 1) C mem (1 + l + 2) (word_of_nat (length (filters_bytes ?ss))) [] =
      Inr ([] @ ?ss, 1 + l + 2 + length (filters_bytes ?ss))"
    by (rule unsubscribe_loop_at [OF C at ok])
      (use bytes_at_le [OF at] length_filters_ge [of ?ss] short in \<open>auto simp: b\<close>)
  have f: "header_pack (header p) AND 0x02 = 0x02"
  proof -
    have "bit (header_pack (header p)) 1" using flag by (simp add: bit_header_pack)
    then show ?thesis
      by (intro bit_word_eqI) (auto simp: bit_and_iff less_8_cases dest!: less_8_cases)
  qed
  with id m loop len show ?thesis
    unfolding unpack_unsubscribe_def part and_then.simps prod.case if_False Let_def total_len_at
    by simp
qed

lemma unpack_wire_ok:
  assumes C: "core_reads C" and h: "header_wf h" and ok: "packet_ok h v"
    and short: "length (body_of (hdr_qos h) v) < 128 ^ 3"
    and at: "bytes_at mem 0 (wire h v)" and av: "length (wire h v) \<le> avail"
  shows "unpack C p mem 0 avail =
    Inr (MQTT_OK, \<lparr>header = h, pkt_len = length (wire h v), pkt = v\<rparr>, length (wire h v))"
proof -
  let ?b = "body_of (hdr_qos h) v" and ?p = "p\<lparr>header := h\<rparr>"
  let ?l = "length (vbi (length ?b))"
  have ats: "bytes_at mem 1 (vbi (length ?b))" "bytes_at mem (1 + ?l) ?b"
    using at by (simp_all add: wire_bytes_at)
  have len: "length (wire h v) = 1 + ?l + length ?b" by (simp add: wire_def)
  have av': "1 + ?l + length ?b \<le> avail" using av len by simp
  have goal: "?p\<lparr>pkt_len := 1 + ?l + length ?b, pkt := v\<rparr> =
      \<lparr>header = h, pkt_len = length (wire h v), pkt = v\<rparr>" by (simp add: len)
  have "decoder_of C v ?p mem 1 avail =
      Inr (MQTT_OK, ?p\<lparr>pkt_len := 1 + ?l + length ?b, pkt := v\<rparr>, 1 + ?l + length ?b)"
  proof (cases v)
    case (VConnect cn)
    with unpack_connect_at [OF _ refl C ats short av', of cn ?p] ok show ?thesis
      by (simp add: decoder_of_def)
  next
    case (VPublish pub)
    with unpack_publish_at [OF _ refl C ats short av', of ?p pub] ok show ?thesis
      by (simp add: decoder_of_def)
  next
    case (VAck a)
    with unpack_ack_at [OF C, of mem a avail ?p] ats av' show ?thesis
      by (simp add: decoder_of_def)
  next
    case (VSubscribe s)
    with unpack_subscribe_at [OF _ refl C ats short av', of s ?p] ok show ?thesis
      by (simp add: decoder_of_def)
  next
    case (VUnsubscribe u)
    with unpack_unsubscribe_at [OF _ refl C ats short av', of u ?p] ok show ?thesis
      by (simp add: decoder_of_def)
  qed (use ok in simp)
  then show ?thesis
    unfolding unpack_dispatch [OF C at h ok] goal by (simp add: len)
qed

text \<open>Every decoder starts with the completeness check.\<close>

lemma decoder_partial:
  assumes "is_partial mem avail 1 0 = Inr (True, n, pos)" and "packet_ok h v"
  shows "decoder_of C v p mem 1 avail = Inr (MQTT_PARTIAL_PACKET, p, pos)"
  using assms
  by (cases v) (auto simp: decoder_of_def unpack_connect_def unpack_publish_def unpack_ack_def
      unpack_subscribe_def unpack_unsubscribe_def)

lemma decoder_fault:
  assumes "is_partial mem avail 1 0 = Inl e" and "packet_ok h v"
  shows "decoder_of C v p mem 1 avail = Inl e"
  using assms
  by (cases v) (auto simp: decoder_of_def unpack_connect_def unpack_publish_def unpack_ack_def
      unpack_subscribe_def unpack_unsubscribe_def)

lemma unpack_first_byte:
  assumes "core_reads C" and "mem \<noteq> []" and "header_wf h" and "mem ! 0 = header_pack h" and "packet_ok h v"
  shows "unpack C p mem 0 avail = decoder_of C v (p\<lparr>header := h\<rparr>) mem 1 avail"
proof -
  have "0 < length mem" using assms(2) by simp
  with assms show ?thesis
    by (cases v)
      (auto simp: unpack_def read_u8_at header_unpack_pack unpack_handlers_def decoder_of_def Let_def)
qed

lemma unpack_prefix_partial:
  assumes C: "core_reads C" and h: "header_wf h" and ok: "packet_ok h v"
    and short: "length (body_of (hdr_qos h) v) < 128 ^ 3"
    and k: "1 + length (vbi (length (body_of (hdr_qos h) v))) \<le> k" "k < length (wire h v)"
  shows "unpack C p (take k (wire h v)) 0 k =
    Inr (MQTT_PARTIAL_PACKET, p\<lparr>header := h\<rparr>, 1 + length (vbi (length (body_of (hdr_qos h) v))))"
proof -
  let ?b = "body_of (hdr_qos h) v"
  let ?mem = "take k (wire h v)"
  have k0: "0 < k" using k(1) by simp
  have "bytes_at (wire h v) 1 (vbi (length ?b))"
    using wire_bytes_at [of "wire h v" h v] bytes_at_prefix [of "wire h v" "[]"] by simp
  then have "bytes_at ?mem 1 (vbi (length ?b))"
    using k by (auto simp: bytes_at_def drop_take min_def)
  then have part: "is_partial ?mem k 1 0 = Inr (True, int (length ?b), 1 + length (vbi (length ?b)))"
    using is_partial_at [of ?mem 1 "length ?b" k 0] short k by (simp add: wire_def)
  have "?mem \<noteq> []" "?mem ! 0 = header_pack h" using k0 by (simp_all add: wire_def)
  then show ?thesis
    using unpack_first_byte [OF C _ h _ ok, of ?mem] decoder_partial [OF part ok] by simp
qed

lemma unpack_one_byte:
  assumes "core_reads C" and "header_wf h" and "packet_ok h v"
  shows "unpack C p [header_pack h] 0 1 = Inr (MQTT_PARTIAL_PACKET, p\<lparr>header := h\<rparr>, 1)"
  using unpack_first_byte [OF assms(1) _ assms(2) _ assms(3), of "[header_pack h]"]
    decoder_partial [of "[header_pack h]" 1 0 1 h v] assms(3)
  by (simp add: is_partial_def)

lemma unpack_long_rejected:
  assumes C: "core_reads C" and h: "header_wf h" and ok: "packet_ok h v"
    and long: "128 ^ 3 \<le> length (body_of (hdr_qos h) v)"
    and at: "bytes_at mem 0 (wire h v)" and av: "length (wire h v) \<le> avail"
  shows "unpack C p mem 0 avail = Inl (RuntimeError ''Malformed Remaining Length!!'')"
proof -
  let ?b = "body_of (hdr_qos h) v"
  have "bytes_at mem 1 (vbi (length ?b))"
    using at by (simp add: wire_bytes_at)
  then have "is_partial mem avail 1 0 = Inl (RuntimeError ''Malformed Remaining Length!!'')"
    by (rule is_partial_too_long) (use long av in \<open>auto simp: wire_def\<close>)
  then show ?thesis
    unfolding unpack_dispatch [OF C at h ok] by (rule decoder_fault [OF _ ok])
qed

lemma unpack_split_length_overread:
  assumes "core_reads C" and "header_wf h" and "packet_ok h v" and "b AND 128 \<noteq> 0"
  shows "unpack C p [header_pack h, b] 0 2 = Inl OutOfBounds"
proof -
  have "decode_length [header_pack h, b] 1 2 = Inl OutOfBounds"
    using assms(4) by (simp add: decode_length_def decode_loop.simps)
  then have "is_partial [header_pack h, b] 2 1 0 = Inl OutOfBounds"
    by (simp add: is_partial_def)
  then show ?thesis
    using unpack_first_byte [OF assms(1) _ assms(2) _ assms(3), of "[header_pack h, b]"]
      decoder_fault [OF _ assms(3)] by simp
qed

lemma unpack_beyond_table:
  assumes "core_reads C" and "mem \<noteq> []"
  shows "unpack C p mem 0 avail =
    (let t = pt_code (hdr_type (header_unpack (mem ! 0)));
         p' = p\<lparr>header := header_unpack (mem ! 0)\<rparr> in
     if t \<ge> 11 then Inl OutOfBounds
     else if t \<in> {0, 2, 9} then Inr (- MQTT_ERR, p', 1)
     else the (unpack_handlers C ! unat t) p' mem 1 avail)"
proof -
  define t where "t = pt_code (hdr_type (header_unpack (mem ! 0)))"
  have "0 < length mem" using assms(2) by simp
  then have u: "unpack C p mem 0 avail =
      (if unat t \<ge> 11 then Inl OutOfBounds
       else case unpack_handlers C ! unat t of
          Some handler \<Rightarrow> handler (p\<lparr>header := header_unpack (mem ! 0)\<rparr>) mem 1 avail
        | None \<Rightarrow> Inr (- MQTT_ERR, p\<lparr>header := header_unpack (mem ! 0)\<rparr>, 1))"
    using assms(1) by (simp add: unpack_def read_u8_at t_def Let_def unpack_handlers_def split: option.split)
  have "unat t < 11 \<Longrightarrow> unat t = 0 \<or> unat t = 1 \<or> unat t = 2 \<or> unat t = 3 \<or> unat t = 4 \<or> unat t = 5
      \<or> unat t = 6 \<or> unat t = 7 \<or> unat t = 8 \<or> unat t = 9 \<or> unat t = 10" by arith
  moreover have "t \<ge> 11 \<longleftrightarrow> unat t \<ge> 11" "t = 0 \<longleftrightarrow> unat t = 0" "t = 2 \<longleftrightarrow> unat t = 2" "t = 9 \<longleftrightarrow> unat t = 9"
    by (simp_all add: word_le_nat_alt word_unat_eq_iff)
  ultimately show ?thesis
    unfolding u t_def [symmetric] Let_def by (auto simp: unpack_handlers_def)
qed

subsection \<open>Faults, and the shape of a decoded packet\<close>

lemmas read_defs = read_u8_def read_u16_def read_string16_def

fun decode_fault :: "fault \<Rightarrow> bool" where
  "decode_fault OutOfBounds = True"
| "decode_fault LengthError = True"
| "decode_fault (RuntimeError s) = (s = ''Malformed Remaining Length!!'')"
| "decode_fault _ = False"

lemma decode_loop_faults: "decode_loop mem avail pos br len m = Inl e \<Longrightarrow> decode_fault e"
proof (induction mem avail pos br len m rule: decode_loop.induct)
  case (1 mem avail pos br len m)
  from "1.prems" "1.IH" [OF _ _ refl refl refl] show ?case
    by (subst (asm) decode_loop.simps) (auto simp: Let_def split: if_splits)
qed

lemma is_partial_faults: "is_partial mem avail s r = Inl e \<Longrightarrow> decode_fault e"
  by (auto simp: is_partial_def and_then_eq_Inl decode_length_def Let_def split: if_splits
      dest: decode_loop_faults)

lemma read_faults:
  "read_u8 C mem p = Inl e \<Longrightarrow> decode_fault e" "read_u16 C mem p = Inl e \<Longrightarrow> decode_fault e"
  "read_string16 C mem p = Inl e \<Longrightarrow> decode_fault e"
  by (auto simp: read_defs or_fault_eq_Inl)

lemma read_bounds:
  assumes "core_reads C"
  shows "read_u8 C mem p = Inr (b, p') \<Longrightarrow> p < p' \<and> p' \<le> length mem"
    and "read_u16 C mem p = Inr (w, p') \<Longrightarrow> p < p' \<and> p' \<le> length mem"
    and "read_string16 C mem p = Inr (s, p') \<Longrightarrow> p < p' \<and> p' \<le> length mem"
  using assms read_u8_bounds read_u16_bounds read_string16_bounds
  by (fastforce simp: read_defs)+

lemma subscribe_loop_faults:
  assumes "core_reads C"
  shows "subscribe_loop fuel C mem p n acc = Inl e \<Longrightarrow> p \<le> length mem \<Longrightarrow>
    length mem < p + fuel \<Longrightarrow> decode_fault e"
proof (induction fuel arbitrary: p n acc)
  case 0
  then show ?case by simp
next
  case (Suc fuel)
  from Suc.prems(1) show ?case
    by (subst (asm) subscribe_loop.simps)
      (use Suc.prems(3) Suc.IH read_bounds [OF assms] read_faults in
        \<open>fastforce simp: and_then_eq_Inl split: if_splits\<close>)
qed

lemma unsubscribe_loop_faults:
  assumes "core_reads C"
  shows "unsubscribe_loop fuel C mem p n acc = Inl e \<Longrightarrow> p \<le> length mem \<Longrightarrow>
    length mem < p + fuel \<Longrightarrow> decode_fault e"
proof (induction fuel arbitrary: p n acc)
  case 0
  then show ?case by simp
next
  case (Suc fuel)
  from Suc.prems(1) show ?case
    by (subst (asm) unsubscribe_loop.simps)
      (use Suc.prems(3) Suc.IH read_bounds [OF assms] read_faults in
        \<open>fastforce simp: and_then_eq_Inl split: if_splits\<close>)
qed

lemma subscribe_loop_faults':
  "core_reads C \<Longrightarrow> read_u16 C mem s = Inr (w, p) \<Longrightarrow>
     subscribe_loop (length mem + 1) C mem p n acc = Inl e \<Longrightarrow> decode_fault e"
  using subscribe_loop_faults read_bounds(2) by fastforce

lemma unsubscribe_loop_faults':
  "core_reads C \<Longrightarrow> read_u16 C mem s = Inr (w, p) \<Longrightarrow>
     unsubscribe_loop (length mem + 1) C mem p n acc = Inl e \<Longrightarrow> decode_fault e"
  using unsubscribe_loop_faults read_bounds(2) by fastforce

lemmas decoder_fault_rules =
  is_partial_faults read_faults subscribe_loop_faults' unsubscribe_loop_faults'

lemma unpack_decoder_faults:
  "unpack_connect C p mem s avail = Inl e \<Longrightarrow> decode_fault e"
  "unpack_publish C p mem s avail = Inl e \<Longrightarrow> decode_fault e"
  "unpack_ack C p mem s avail = Inl e \<Longrightarrow> decode_fault e"
  "core_reads C \<Longrightarrow> unpack_subscribe C p mem s avail = Inl e \<Longrightarrow> decode_fault e"
  "core_reads C \<Longrightarrow> unpack_unsubscribe C p mem s avail = Inl e \<Longrightarrow> decode_fault e"
  unfolding unpack_connect_def unpack_publish_def unpack_ack_def unpack_subscribe_def
    unpack_unsubscribe_def Let_def
  by (auto simp only: and_then_eq_Inl prod.case split_paired_Ex decode_fault.simps sum.inject sum.distinct
      split: if_split_asm intro: decoder_fault_rules)

lemma unpack_handler_cases:
  assumes "unpack_handlers C ! i = Some f" and "i < length (unpack_handlers C)"
  shows "(i = 1 \<and> f = unpack_connect C) \<or> (i = 3 \<and> f = unpack_publish C) \<or>
     (i \<in> {4, 5, 6, 7} \<and> f = unpack_ack C) \<or> (i = 8 \<and> f = unpack_subscribe C) \<or>
     (i = 10 \<and> f = unpack_unsubscribe C)"
proof -
  have "i \<in> {0, 1, 2, 3, 4, 5, 6, 7, 8, 9, 10}"
    using assms(2) unfolding insert_iff empty_iff by (simp add: unpack_handlers_def) arith
  with assms(1) show ?thesis by (auto simp: unpack_handlers_def)
qed

text \<open>One decoded call: the first byte, the handler of its type, the call.\<close>

lemma unpack_elim:
  assumes "unpack C p mem pos avail = r"
  obtains (no_byte) "r = Inl OutOfBounds"
  | (no_handler) b pos' where "read_u8 C mem pos = Inr (b, pos')"
      "r = Inr (- MQTT_ERR, p\<lparr>header := header_unpack b\<rparr>, pos')"
  | (handler) b pos' f where "read_u8 C mem pos = Inr (b, pos')"
      "unpack_handlers C ! unat (pt_code (hdr_type (header_unpack b))) = Some f"
      "unat (pt_code (hdr_type (header_unpack b))) < length (unpack_handlers C)"
      "r = f (p\<lparr>header := header_unpack b\<rparr>) mem pos' avail"
proof (cases "read_u8 C mem pos")
  case (Inl e)
  then have "r = Inl OutOfBounds"
    using assms by (auto simp: unpack_def read_u8_def or_fault_eq_Inl)
  then show thesis by (rule no_byte)
next
  case (Inr x)
  then obtain b pos' where "read_u8 C mem pos = Inr (b, pos')" by (cases x) auto
  with assms no_byte no_handler handler show thesis
    by (auto simp: unpack_def Let_def not_le split: if_splits option.splits)
qed

lemma unpack_faults_are:
  assumes "core_reads C" and "unpack C p mem pos avail = Inl e"
  shows "decode_fault e"
  using assms(2)
proof (cases rule: unpack_elim)
  case (handler b pos' f)
  from unpack_handler_cases [OF handler(2,3)] handler(4) show ?thesis
    using unpack_decoder_faults [of C] assms(1) by metis
qed auto

lemma is_partial_complete:
  assumes "is_partial mem avail s r = Inr (False, n, p)"
  shows "0 \<le> n \<and> s < p \<and> total_len s p n \<le> avail \<and> 2 \<le> total_len s p n"
proof -
  from assms obtain v where v: "decode_length mem s avail = Inr (v, p)" "n = c_int v" "0 \<le> n"
    "1 + (int p - int s) + n \<le> int avail"
    by (auto simp: is_partial_def and_then_eq_Inr Let_def split: if_splits)
  have "v \<noteq> - 1" using v(2,3) c_int_of_int [of "- 1"] by auto
  with decode_length_bounds [OF v(1)] have "s < p" by auto
  with v show ?thesis by (auto simp: total_len_def nat_le_iff le_nat_iff)
qed

fun variant_of :: "PacketType \<Rightarrow> variant \<Rightarrow> bool" where
  "variant_of CONNECT v = (case v of VConnect _ \<Rightarrow> True | _ \<Rightarrow> False)"
| "variant_of PUBLISH v = (case v of VPublish _ \<Rightarrow> True | _ \<Rightarrow> False)"
| "variant_of SUBSCRIBE v = (case v of VSubscribe _ \<Rightarrow> True | _ \<Rightarrow> False)"
| "variant_of UNSUBSCRIBE v = (case v of VUnsubscribe _ \<Rightarrow> True | _ \<Rightarrow> False)"
| "variant_of t v = (t \<in> {PUBACK, PUBREC, PUBREL, PUBCOMP} \<and> (case v of VAck _ \<Rightarrow> True | _ \<Rightarrow> False))"

text \<open>What a decoder that returns \<open>MQTT_OK\<close> has done to the packet.\<close>

definition decoded :: "Packet \<Rightarrow> Packet \<Rightarrow> (variant \<Rightarrow> bool) \<Rightarrow> nat \<Rightarrow> bool" where
  "decoded p p' is_v avail \<longleftrightarrow>
     header p' = header p \<and> is_v (pkt p') \<and> 2 \<le> pkt_len p' \<and> pkt_len p' \<le> avail"

lemma decoded_intro:
  "is_partial mem avail s 0 = Inr (False, n, pos) \<Longrightarrow> is_v v \<Longrightarrow>
     decoded p (p\<lparr>pkt_len := total_len s pos n, pkt := v\<rparr>) is_v avail"
  using is_partial_complete by (fastforce simp: decoded_def)

lemma unpack_decoders_ok:
  "unpack_connect C p mem s avail = Inr (MQTT_OK, p', pos) \<Longrightarrow> decoded p p' (variant_of CONNECT) avail"
  "unpack_publish C p mem s avail = Inr (MQTT_OK, p', pos) \<Longrightarrow> decoded p p' (variant_of PUBLISH) avail"
  "unpack_ack C p mem s avail = Inr (MQTT_OK, p', pos) \<Longrightarrow> decoded p p' (variant_of PUBACK) avail"
  "unpack_subscribe C p mem s avail = Inr (MQTT_OK, p', pos) \<Longrightarrow> decoded p p' (variant_of SUBSCRIBE) avail"
  "unpack_unsubscribe C p mem s avail = Inr (MQTT_OK, p', pos) \<Longrightarrow> decoded p p' (variant_of UNSUBSCRIBE) avail"
  unfolding unpack_connect_def unpack_publish_def unpack_ack_def unpack_subscribe_def
    unpack_unsubscribe_def Let_def
  by (auto elim!: and_then_InrE split: if_split_asm simp: decoded_intro)

lemma pt_of_unat: "unat c = n \<Longrightarrow> pt_of c = pt_of (word_of_nat n)"
  by auto

lemma pt_of_numerals:
  "pt_of 1 = CONNECT" "pt_of 3 = PUBLISH" "pt_of 4 = PUBACK" "pt_of 5 = PUBREC" "pt_of 6 = PUBREL"
  "pt_of 7 = PUBCOMP" "pt_of 8 = SUBSCRIBE" "pt_of 0xA = UNSUBSCRIBE"
  by (simp_all add: pt_of_def)

lemma hdr_type_unpack_code:
  "hdr_type (header_unpack b) = pt_of (pt_code (hdr_type (header_unpack b)))"
  by (simp add: header_unpack_def)

lemma decoded_ack: "t \<in> {PUBACK, PUBREC, PUBREL, PUBCOMP} \<Longrightarrow> variant_of t = variant_of PUBACK"
  by auto

lemma handler_decoded:
  assumes "unpack_handlers C ! unat (pt_code t) = Some f" and "unat (pt_code t) < length (unpack_handlers C)"
    and t: "t = pt_of (pt_code t)" and "f p mem s avail = Inr (MQTT_OK, p', pos)"
  shows "decoded p p' (variant_of t) avail"
proof -
  note t' = t [THEN trans, OF pt_of_unat]
  from unpack_handler_cases [OF assms(1,2)] consider
    "unat (pt_code t) = 1" "f = unpack_connect C" | "unat (pt_code t) = 3" "f = unpack_publish C"
    | "unat (pt_code t) \<in> {4, 5, 6, 7}" "f = unpack_ack C" | "unat (pt_code t) = 8" "f = unpack_subscribe C"
    | "unat (pt_code t) = 10" "f = unpack_unsubscribe C" by blast
  then show ?thesis
  proof cases
    case 1 then show ?thesis
      using unpack_decoders_ok(1) assms(4) t' [OF 1(1)] pt_of_numerals by simp
  next
    case 2 then show ?thesis
      using unpack_decoders_ok(2) assms(4) t' [OF 2(1)] pt_of_numerals by simp
  next
    case 3
    then have "t \<in> {PUBACK, PUBREC, PUBREL, PUBCOMP}"
      using t' [of 4] t' [of 5] t' [of 6] t' [of 7] pt_of_numerals by auto
    then show ?thesis
      using unpack_decoders_ok(3) assms(4) 3(2) decoded_ack by metis
  next
    case 4 then show ?thesis
      using unpack_decoders_ok(4) assms(4) t' [OF 4(1)] pt_of_numerals by simp
  next
    case 5 then show ?thesis
      using unpack_decoders_ok(5) assms(4) t' [OF 5(1)] pt_of_numerals by simp
  qed
qed

lemma unpack_ok_shape:
  assumes "core_reads C" and "unpack C p mem 0 avail = Inr (MQTT_OK, p', pos)"
  shows "mem \<noteq> [] \<and> header p' = header_unpack (mem ! 0) \<and>
    variant_of (hdr_type (header p')) (pkt p') \<and> 2 \<le> pkt_len p' \<and> pkt_len p' \<le> avail"
  using assms(2)
proof (cases rule: unpack_elim)
  case (handler b pos' f)
  have b: "mem \<noteq> []" "b = mem ! 0"
    using handler(1) assms(1) by (auto simp: read_u8_def core_reads_def split: if_splits)
  have "decoded (p\<lparr>header := header_unpack b\<rparr>) p' (variant_of (hdr_type (header_unpack b))) avail"
    by (rule handler_decoded [OF handler(2,3) hdr_type_unpack_code handler(4) [symmetric]])
  then show ?thesis using b by (simp add: decoded_def)
qed simp_all


subsection \<open>Properties\<close>

text \<open>C2: The decoder inverts the wire format, as far as it reads it. For every packet type a client sends: a
  CONNECT, PUBLISH, PUBACK, PUBREC, PUBREL, PUBCOMP, SUBSCRIBE or UNSUBSCRIBE, encoded as MQTT does, with
  a body shorter than 2097152 bytes, is decoded to itself from the front of the receive buffer, whatever
  follows it; the length it reports is the number of bytes of the packet, so that erasing them leaves the
  next packet. With a longer body, which MQTT allows, it throws; and a PINGREQ or a DISCONNECT makes it
  read beyond its table of decoders.\<close>

theorem unpack_decodes_wire:
  assumes "core_reads C" and "header_wf h"
  shows "(packet_ok h v \<longrightarrow> unpack C p (wire h v @ rest) 0 (length (wire h v @ rest)) =
      (if length (body_of (hdr_qos h) v) < 2097152
       then Inr (MQTT_OK, \<lparr>header = h, pkt_len = length (wire h v), pkt = v\<rparr>, length (wire h v))
       else Inl (RuntimeError ''Malformed Remaining Length!!''))) \<and>
    (hdr_type h \<in> {PINGREQ, DISCONNECT} \<longrightarrow>
      unpack C p ([header_pack h, 0] @ rest) 0 (length ([header_pack h, 0] @ rest)) = Inl OutOfBounds)"
proof (intro conjI impI)
  assume ok: "packet_ok h v"
  show "unpack C p (wire h v @ rest) 0 (length (wire h v @ rest)) =
      (if length (body_of (hdr_qos h) v) < 2097152
       then Inr (MQTT_OK, \<lparr>header = h, pkt_len = length (wire h v), pkt = v\<rparr>, length (wire h v))
       else Inl (RuntimeError ''Malformed Remaining Length!!''))"
    using unpack_wire_ok [OF assms ok _ bytes_at_prefix, of "length (wire h v @ rest)"]
      unpack_long_rejected [OF assms ok _ bytes_at_prefix, of "length (wire h v @ rest)"] by simp
next
  assume "hdr_type h \<in> {PINGREQ, DISCONNECT}"
  then show "unpack C p ([header_pack h, 0] @ rest) 0 (length ([header_pack h, 0] @ rest)) = Inl OutOfBounds"
    using assms by (auto simp: unpack_beyond_table header_unpack_pack Let_def)
qed

theorem unpack_decodes_wire_witness:
  "unpack ref_core Packet_default ([0x32, 8, 0, 2, 97, 47, 0, 9, 1, 2] @ [0xC0, 0]) 0 12 =
     Inr (MQTT_OK,
       \<lparr>header = \<lparr>hdr_type = PUBLISH, hdr_dup = False, hdr_qos = 1, hdr_retain = False\<rparr>, pkt_len = 10,
        pkt = VPublish \<lparr>pub_topic = ''a/'', pub_packet_id = 9, pub_payload = [1, 2]\<rparr>\<rparr>, 10)"
proof -
  let ?h = "\<lparr>hdr_type = PUBLISH, hdr_dup = False, hdr_qos = 1, hdr_retain = False\<rparr>"
  let ?v = "VPublish \<lparr>pub_topic = ''a/'', pub_packet_id = 9, pub_payload = [1, 2]\<rparr>"
  have b: "body_of (hdr_qos ?h) ?v = [0, 2, 97, 47, 0, 9, 1, 2]"
    by (simp add: publish_body_def str16_def be16_def bytes_of_def byte_of_char_def)
  have w: "wire ?h ?v = [0x32, 8, 0, 2, 97, 47, 0, 9, 1, 2]"
    unfolding wire_def b by (simp add: header_pack_def vbi_small)
  have l: "length [0x32 :: u8, 8, 0, 2, 97, 47, 0, 9, 1, 2] = 10"
    "length ([0x32 :: u8, 8, 0, 2, 97, 47, 0, 9, 1, 2] @ [0xC0, 0]) = 12" by simp_all
  show ?thesis
    using unpack_decodes_wire [of ref_core ?h ?v Packet_default "[0xC0, 0]"] unfolding b w l
    by (simp add: header_wf_def str_ok_def)
qed

text \<open>C32: Whatever bytes arrive, the decoder ends in one of four ways it does not get out of by itself
  or returns: a read outside the buffer, the negative \<open>resize\<close> of a PUBLISH payload and the exception
  for a malformed length are the only faults. No payload loop runs for ever: the bound on their
  iterations is never reached.\<close>

theorem unpack_faults_classified:
  assumes "core_reads C" and "unpack C p mem pos avail = Inl e"
  shows "e \<in> {OutOfBounds, LengthError, RuntimeError ''Malformed Remaining Length!!''}"
  using unpack_faults_are [OF assms] by (cases e) auto

theorem unpack_faults_classified_witness:
  "unpack ref_core Packet_default [0xC0, 0] 0 2 = Inl OutOfBounds \<and>
   OutOfBounds \<in> {OutOfBounds, LengthError, RuntimeError ''Malformed Remaining Length!!''}"
proof -
  have "unpack ref_core Packet_default [0xC0, 0] 0 2 = Inl OutOfBounds"
    by (simp add: unpack_beyond_table header_unpack_def and_masks take_bit_eq_mod pt_of_def Let_def
        drop_bit_eq_div)
  with unpack_faults_classified [of ref_core Packet_default "[0xC0, 0]" 0 2 OutOfBounds] show ?thesis
    by simp
qed

text \<open>C33: A packet that \<open>unpack\<close> accepts is well typed. Its header is the first byte, its variant is the
  alternative of the header's packet type, and its length is at least two bytes and at most the bytes
  received.\<close>

theorem unpack_accepts_typed:
  assumes "core_reads C" and "unpack C p mem 0 avail = Inr (MQTT_OK, p', pos)"
  shows "header_pack (header p') = mem ! 0 \<and> variant_of (hdr_type (header p')) (pkt p') \<and>
    2 \<le> pkt_len p' \<and> pkt_len p' \<le> avail"
  using unpack_ok_shape [OF assms] by (auto simp: header_pack_unpack)

theorem unpack_accepts_typed_witness:
  "variant_of PUBACK (pkt \<lparr>header = \<lparr>hdr_type = PUBACK, hdr_dup = False, hdr_qos = 0, hdr_retain = False\<rparr>,
     pkt_len = 4, pkt = VAck \<lparr>ack_packet_id = 7\<rparr>\<rparr>)"
proof -
  let ?h = "\<lparr>hdr_type = PUBACK, hdr_dup = False, hdr_qos = 0, hdr_retain = False\<rparr>"
  let ?v = "VAck \<lparr>ack_packet_id = 7\<rparr>"
  have b: "body_of (hdr_qos ?h) ?v = [0, 7]" by (simp add: be16_def)
  have w: "wire ?h ?v = [0x40, 2, 0, 7]"
    unfolding wire_def b by (simp add: header_pack_def vbi_small)
  have "unpack ref_core Packet_default (wire ?h ?v) 0 4 =
      Inr (MQTT_OK, \<lparr>header = ?h, pkt_len = length (wire ?h ?v), pkt = ?v\<rparr>, length (wire ?h ?v))"
    by (rule unpack_wire_ok) (unfold b w, simp_all add: header_wf_def bytes_at_def)
  from unpack_accepts_typed [OF ref_core_ok(1) this] show ?thesis by simp
qed

end
