(* ===== verification/Builders.thy ===== *)
theory Builders
  imports Unpack
begin

text \<open>
  The serialisers at the end of \<open>mqtt/src/packethandlers.cpp\<close>: \<open>build_publish\<close>, \<open>build_ack\<close> with
  \<open>pack_ack\<close>, and \<open>build_suback\<close> with \<open>pack_suback\<close>. \<open>buff\<close> is the caller's output vector; the result
  is the vector after the call.
\<close>

definition build_publish :: "core \<Rightarrow> Packet \<Rightarrow> u16 \<Rightarrow> u8 list \<Rightarrow> fault + u8 list" where
  "build_publish C publisher packet_id buff =
     and_then (get_publish (pkt publisher)) (\<lambda>pub.
     let hdr = header publisher;
         buff = buff @ [header_pack hdr];
         remaining_len = c_int (of_nat ((2 + length (pub_topic pub)) + length (pub_payload pub)));
         remaining_len = (if hdr_qos hdr > 0 then remaining_len + 2 else remaining_len);
         (num_bytes, b) = encode_length remaining_len [];
         buff = buff @ b;
         buff = core_pack_u16 C buff (of_nat (length (pub_topic pub)));
         str_buff = core_pack_string16 C [] (pub_topic pub);
         buff = buff @ str_buff;
         buff = (if hdr_qos hdr > 0 then core_pack_u16 C buff 0 else buff)
     in Inr (buff @ pub_payload pub))"

definition pack_ack :: "core \<Rightarrow> Ack \<Rightarrow> PacketType \<Rightarrow> u8 list \<Rightarrow> Packet \<times> u8 list" where
  "pack_ack C ack type buff =
     (let hdr = Header_default\<lparr>hdr_type := type\<rparr>;
          buff = (if type = PUBREL
                  then buff @ [push_bit 4 (pt_code (hdr_type hdr)) AND 0xF2]
                  else buff @ [header_pack hdr]);
          remaining_len = (2 :: u8);
          buff = buff @ [remaining_len];
          buff = buff @ [ucast (ack_pack (core_little_endian C) ack)]
      in (\<lparr>header = hdr, pkt_len = 1 * 2 + unat remaining_len, pkt = VAck ack\<rparr>, buff))"

definition build_ack :: "core \<Rightarrow> u16 \<Rightarrow> PacketType \<Rightarrow> u8 list \<Rightarrow> Packet \<times> u8 list" where
  "build_ack C packet_id type buff = pack_ack C \<lparr>ack_packet_id = packet_id\<rparr> type buff"

definition pack_suback :: "core \<Rightarrow> Suback \<Rightarrow> u8 list \<Rightarrow> u8 list" where
  "pack_suback C suback buff =
     (let hdr = Header_default\<lparr>hdr_type := SUBACK\<rparr>;
          buff = buff @ [pt_code (hdr_type hdr)];
          remaining_len = c_int (of_nat (2 + length (suback_return_codes suback)));
          (num_bytes, b) = encode_length remaining_len [];
          buff = buff @ b;
          buff = core_pack_u16 C buff (suback_packet_id suback)
      in buff @ suback_return_codes suback)"

definition build_suback :: "core \<Rightarrow> u16 \<Rightarrow> u8 list \<Rightarrow> u8 list \<Rightarrow> u8 list" where
  "build_suback C packet_id return_codes buff =
     pack_suback C \<lparr>suback_packet_id = packet_id, suback_return_codes = return_codes\<rparr> buff"

subsection \<open>What reaches the wire\<close>

text \<open>
  A forwarded PUBLISH is the MQTT encoding of the packet, with the packet id 0 in place of the one
  the caller passes.
\<close>

lemma build_publish_wire:
  assumes "core_writes C" and "pkt p = VPublish pub"
    and "length (pub_topic pub) + length (pub_payload pub) < 2 ^ 31 - 4"
  shows "build_publish C p k buff =
    Inr (buff @ wire (header p) (VPublish (pub\<lparr>pub_packet_id := 0\<rparr>)))"
proof -
  let ?n = "2 + length (pub_topic pub) + length (pub_payload pub)"
  have n: "c_int (of_nat ?n) = int ?n"
    by (rule c_int_of_nat) (use assms(3) in simp)
  have e: "encode_length (int m) [] = (0, vbi m)" for m
    using encode_length_vbi [of m "[]"] by simp
  have e1: "encode_length (int ?n) [] = (0, vbi ?n)" by (rule e)
  have e2: "encode_length (int ?n + 2) [] = (0, vbi (?n + 2))" using e [of "?n + 2"] by simp
  have len: "length (publish_body (hdr_qos (header p)) (pub\<lparr>pub_packet_id := 0\<rparr>)) =
      (if hdr_qos (header p) > 0 then ?n + 2 else ?n)"
    by (simp add: publish_body_def)
  show ?thesis
  proof (cases "hdr_qos (header p) > 0")
    case True
    then show ?thesis
      using assms(1,2) len unfolding build_publish_def
      by (simp only: assms(2) get_publish.simps and_then.simps Let_def n e2 if_True prod.case
          core_writes_def wire_def body_of.simps publish_body_def)
        (simp add: str16_def)
  next
    case False
    then show ?thesis
      using assms(1,2) len unfolding build_publish_def
      by (simp only: assms(2) get_publish.simps and_then.simps Let_def n e1 if_False prod.case
          core_writes_def wire_def body_of.simps publish_body_def)
        (simp add: str16_def)
  qed
qed

lemma build_ack_simps:
  "snd (build_ack C k t buff) =
     buff @ [if t = PUBREL then 0x60 else header_pack (Header_default\<lparr>hdr_type := t\<rparr>), 2,
             if core_little_endian C then ucast (drop_bit 8 k) else ucast k]"
  "fst (build_ack C k t buff) =
     \<lparr>header = Header_default\<lparr>hdr_type := t\<rparr>, pkt_len = 4, pkt = VAck \<lparr>ack_packet_id = k\<rparr>\<rparr>"
  by (simp_all add: build_ack_def pack_ack_def Let_def ack_pack_byte Header_default_def)

lemma pack_suback_wire:
  assumes "core_writes C" and "length rcs < 2 ^ 31 - 2"
  shows "build_suback C k rcs buff = buff @ [0x09] @ vbi (2 + length rcs) @ be16 k @ rcs"
proof -
  have n: "c_int (of_nat (2 + length rcs)) = int (2 + length rcs)"
    by (rule c_int_of_nat) (use assms(2) in simp)
  show ?thesis
    using assms(1) unfolding build_suback_def pack_suback_def Let_def
    by (simp only: Suback.simps n encode_length_vbi prod.case) (simp add: core_writes_def Header_default_def)
qed


subsection \<open>Acknowledgements as a receiver sees them\<close>

lemma header_unpack_ack:
  assumes "t \<in> {PUBACK, PUBREC, PUBREL, PUBCOMP}"
  shows "hdr_type (header_unpack (if t = PUBREL then 0x60 else header_pack (Header_default\<lparr>hdr_type := t\<rparr>))) = t"
proof -
  let ?h = "Header_default\<lparr>hdr_type := t\<rparr>"
  have "header_wf ?h" using assms by (auto simp: header_wf_def Header_default_def)
  from header_unpack_pack [OF this] have "hdr_type (header_unpack (header_pack ?h)) = t" by simp
  moreover have "t = PUBREL \<Longrightarrow> header_pack ?h = 0x60"
    by (simp add: header_pack_def Header_default_def)
  ultimately show ?thesis by auto
qed

lemma decode_length_two: "decode_length (b # 2 # bs) 1 (Suc (Suc k)) = Inr (2, 2)"
  using decode_length_vbi [of 2 "Suc (Suc k)" "[b]" bs] by (simp add: vbi_small)

lemma unpack_short_ack:
  assumes "core_reads C" and "hdr_type (header_unpack b) \<in> {PUBACK, PUBREC, PUBREL, PUBCOMP}"
  shows "unpack C p [b, 2, x] 0 3 = Inr (MQTT_PARTIAL_PACKET, p\<lparr>header := header_unpack b\<rparr>, 2)"
proof -
  have "c_int 2 = 2" using c_int_of_nat [of 2] by simp
  then have part: "is_partial [b, 2, x] 3 1 0 = Inr (True, 2, 2)"
    using decode_length_two [of b "[x]" 1] by (simp add: is_partial_def numeral_3_eq_3)
  have "unpack C p [b, 2, x] 0 3 = unpack_ack C (p\<lparr>header := header_unpack b\<rparr>) [b, 2, x] 1 3"
    using assms by (auto simp: unpack_beyond_table Let_def unpack_handlers_def)
  also have "\<dots> = Inr (MQTT_PARTIAL_PACKET, p\<lparr>header := header_unpack b\<rparr>, 2)"
    unfolding unpack_ack_def part by simp
  finally show ?thesis .
qed

subsection \<open>Properties\<close>

text \<open>C36: A PUBLISH is forwarded unharmed but for its packet id. The bytes \<open>build_publish\<close> appends are
  decoded to the same header, topic and payload; the packet id is 0 whatever id the caller passes, so
  a QoS 1 or 2 subscriber is sent the id that MQTT forbids.\<close>

theorem forwarded_publish_decodes:
  assumes "core_reads C" and "core_writes C" and "header_wf (header p)"
    and "hdr_type (header p) = PUBLISH" and "pkt p = VPublish pub" and "str_ok (pub_topic pub)"
    and "length (pub_topic pub) + length (pub_payload pub) < 128 ^ 3 - 4"
  shows "\<exists>bytes. build_publish C p packet_id buff = Inr (buff @ bytes) \<and>
    unpack C q bytes 0 (length bytes) =
      Inr (MQTT_OK, \<lparr>header = header p, pkt_len = length bytes,
             pkt = VPublish (pub\<lparr>pub_packet_id := 0\<rparr>)\<rparr>, length bytes)"
proof -
  let ?v = "VPublish (pub\<lparr>pub_packet_id := 0\<rparr>)"
  have "build_publish C p packet_id buff = Inr (buff @ wire (header p) ?v)"
    by (rule build_publish_wire [OF assms(2,5)]) (use assms(7) in simp)
  moreover have "unpack C q (wire (header p) ?v) 0 (length (wire (header p) ?v)) =
      Inr (MQTT_OK, \<lparr>header = header p, pkt_len = length (wire (header p) ?v), pkt = ?v\<rparr>,
           length (wire (header p) ?v))"
    using assms bytes_at_prefix [of "wire (header p) ?v" "[]"]
    by (intro unpack_wire_ok) (auto simp: publish_body_def)
  ultimately show ?thesis by blast
qed

theorem forwarded_publish_decodes_witness:
  "\<exists>bytes. build_publish ref_core
      \<lparr>header = \<lparr>hdr_type = PUBLISH, hdr_dup = False, hdr_qos = 1, hdr_retain = False\<rparr>, pkt_len = 10,
       pkt = VPublish \<lparr>pub_topic = ''a/'', pub_packet_id = 9, pub_payload = [1, 2]\<rparr>\<rparr> 5 [] = Inr ([] @ bytes) \<and>
    unpack ref_core Packet_default bytes 0 (length bytes) =
      Inr (MQTT_OK, \<lparr>header = \<lparr>hdr_type = PUBLISH, hdr_dup = False, hdr_qos = 1, hdr_retain = False\<rparr>,
        pkt_len = length bytes, pkt = VPublish \<lparr>pub_topic = ''a/'', pub_packet_id = 0, pub_payload = [1, 2]\<rparr>\<rparr>,
        length bytes)"
  using forwarded_publish_decodes [of ref_core "\<lparr>header = \<lparr>hdr_type = PUBLISH, hdr_dup = False, hdr_qos = 1,
      hdr_retain = False\<rparr>, pkt_len = 10,
      pkt = VPublish \<lparr>pub_topic = ''a/'', pub_packet_id = 9, pub_payload = [1, 2]\<rparr>\<rparr>"
      "\<lparr>pub_topic = ''a/'', pub_packet_id = 9, pub_payload = [1, 2]\<rparr>" 5 "[]" Packet_default]
  by (simp add: header_wf_def str_ok_def)

lemma suback_rejected:
  assumes "core_reads C" and "core_writes C" and "length rcs < 2 ^ 31 - 2"
  shows "build_suback C k rcs [] = 0x09 # vbi (2 + length rcs) @ be16 k @ rcs"
    and "\<exists>p'. unpack C p (build_suback C k rcs []) 0 avail = Inr (- MQTT_ERR, p', 1)"
proof -
  show b: "build_suback C k rcs [] = 0x09 # vbi (2 + length rcs) @ be16 k @ rcs"
    using pack_suback_wire [OF assms(2,3), of k "[]"] by simp
  have "pt_code (hdr_type (header_unpack 0x09)) = 0"
    by (simp add: header_unpack_def and_masks take_bit_eq_mod drop_bit_eq_div)
  with unpack_beyond_table [OF assms(1), of "build_suback C k rcs []" p avail] b
  show "\<exists>p'. unpack C p (build_suback C k rcs []) 0 avail = Inr (- MQTT_ERR, p', 1)"
    by (simp add: Let_def)
qed

text \<open>C37: No acknowledgement the broker builds is a valid packet. PUBACK, PUBREC, PUBREL and PUBCOMP are three
  bytes, the header of their type, the length 2 and one byte of the two announced, so a decoder that
  follows the wire format waits for more; on a little-endian
  host two ids with the same high byte are acknowledged by the same bytes; PUBREL does not have the flags
  0010. A SUBACK starts with 0x09, as its packet type is not shifted, and is decoded as the reserved
  packet type 0; the length, the packet id and the return codes that follow are the right ones.\<close>

theorem built_acks_malformed:
  assumes "core_reads C" and "core_writes C" and "t \<in> {PUBACK, PUBREC, PUBREL, PUBCOMP}"
    and "length rcs < 2 ^ 31 - 2"
  shows "(\<exists>b x. snd (build_ack C k t buff) = buff @ [b, 2, x] \<and> hdr_type (header_unpack b) = t) \<and>
    (\<exists>p' pos. unpack C p (snd (build_ack C k t [])) 0 (length (snd (build_ack C k t []))) =
      Inr (MQTT_PARTIAL_PACKET, p', pos)) \<and>
    (core_little_endian C \<and> drop_bit 8 k = drop_bit 8 k' \<longrightarrow>
      snd (build_ack C k t buff) = snd (build_ack C k' t buff)) \<and>
    hd (snd (build_ack C k PUBREL [])) = 0x60 \<and>
    build_suback C k rcs [] = 0x09 # vbi (2 + length rcs) @ be16 k @ rcs \<and>
    (\<exists>p'. unpack C p (build_suback C k rcs []) 0 avail = Inr (- MQTT_ERR, p', 1))"
  using unpack_short_ack [OF assms(1), of "if t = PUBREL then 0x60 else header_pack (Header_default\<lparr>hdr_type := t\<rparr>)"]
    header_unpack_ack [OF assms(3)] assms(3) suback_rejected [OF assms(1,2,4)]
  by (simp add: build_ack_simps numeral_3_eq_3)

theorem built_acks_malformed_witness:
  "snd (build_ack ref_core 5 PUBACK []) = snd (build_ack ref_core 6 PUBACK []) \<and>
   build_suback ref_core 5 [1, 0x80] [] = [0x09, 4, 0, 5, 1, 0x80]"
proof -
  have "core_little_endian ref_core" by (simp add: ref_core_def)
  then show ?thesis
    using built_acks_malformed [where C = ref_core and t = PUBACK and rcs = "[1, 0x80]" and k = 5 and k' = 6 and buff = "[]"]
    by (simp add: drop_bit_eq_div vbi_small be16_def)
qed

end
