(* ===== verification/Sessions.thy ===== *)
theory Sessions
  imports Client_Session Topic_Tree Builders
begin

text \<open>
  The session manager, \<open>mqtt/include/managesessions.h\<close> and \<open>mqtt/src/managesession.cpp\<close>. Its objects
  and the sessions it refers to are one state, \<open>world\<close>: client sessions and transports live in stores
  under numbers (the shared objects that the registry, the topic tree and the two heaps point to), so
  that a write through one pointer is seen through the others. Every operation is a function from
  the state before to the state after; the mutexes make each one atomic.

  A \<open>weak_ptr\<close> is locked successfully while somebody owns the object: the registry owns client
  sessions; the map \<open>m_sessions\<close> of the core's \<open>SessionManager\<close> owns transports, and so does a worker
  task that runs on one (\<open>held\<close>).
\<close>

record MqttSession =
  ms_fd :: int
  ms_client_id :: string
  ms_recvBuff :: "u8 list"

record ExpiryEntry =
  ee_expiry_ms :: int
  ee_session :: nat

record RetransmitEntry =
  re_retry_ms :: int
  re_packet_id :: u16
  re_packet_type :: PacketType
  re_session :: nat

text \<open>\<open>sent\<close> is what was given to \<open>pushDataToSend\<close> of the core, oldest first.\<close>

record world =
  clients :: "nat \<Rightarrow> ClientSession"
  next_sid :: nat
  transports :: "nat \<Rightarrow> MqttSession"
  next_tid :: nat
  m_sessions :: "(int \<times> nat) list"
  held :: "nat list"
  m_sessionRegistry :: "(string \<times> nat) list"
  m_topicTree :: Node
  m_expiryHeap :: "ExpiryEntry list"
  m_retransmitHeap :: "RetransmitEntry list"
  now_ms :: int
  sent :: "(nat \<times> u8 list) list"

definition world_init :: "int \<Rightarrow> world" where
  "world_init now =
     \<lparr>clients = (\<lambda>_. ClientSession_new), next_sid = 0,
      transports = (\<lambda>_. \<lparr>ms_fd = - 1, ms_client_id = '''', ms_recvBuff = []\<rparr>), next_tid = 0,
      m_sessions = [], held = [], m_sessionRegistry = [], m_topicTree = TopicTree_new,
      m_expiryHeap = [], m_retransmitHeap = [], now_ms = now, sent = []\<rparr>"

subsection \<open>Objects and pointers\<close>

definition upd_client :: "nat \<Rightarrow> (ClientSession \<Rightarrow> ClientSession) \<Rightarrow> world \<Rightarrow> world" where
  "upd_client sid f w = w\<lparr>clients := (clients w)(sid := f (clients w sid))\<rparr>"

definition make_client :: "world \<Rightarrow> nat \<times> world" where
  "make_client w =
     (next_sid w,
      w\<lparr>clients := (clients w)(next_sid w := ClientSession_new), next_sid := next_sid w + 1\<rparr>)"

definition client_alive :: "world \<Rightarrow> nat \<Rightarrow> bool" where
  "client_alive w sid \<longleftrightarrow> sid \<in> set (map snd (m_sessionRegistry w))"

definition transport_alive :: "world \<Rightarrow> nat \<Rightarrow> bool" where
  "transport_alive w tid \<longleftrightarrow> tid \<in> set (map snd (m_sessions w)) \<or> tid \<in> set (held w)"

definition lock_transport :: "world \<Rightarrow> nat option \<Rightarrow> nat option" where
  "lock_transport w t =
     (case t of None \<Rightarrow> None | Some tid \<Rightarrow> if transport_alive w tid then Some tid else None)"

definition pushDataToSend :: "nat \<Rightarrow> u8 list \<Rightarrow> world \<Rightarrow> world" where
  "pushDataToSend tid data w = w\<lparr>sent := sent w @ [(tid, data)]\<rparr>"

subsection \<open>Transports and the registry\<close>

definition addSession :: "int \<Rightarrow> world \<Rightarrow> world" where
  "addSession fd w =
     w\<lparr>transports := (transports w)(next_tid w :=
          \<lparr>ms_fd = fd, ms_client_id = '''', ms_recvBuff = []\<rparr>),
       m_sessions := um_assign fd (next_tid w) (m_sessions w),
       next_tid := next_tid w + 1\<rparr>"

definition removeSession :: "int \<Rightarrow> world \<Rightarrow> world" where
  "removeSession fd w = w\<lparr>m_sessions := um_erase fd (m_sessions w)\<rparr>"

text \<open>\<open>MqttSession::forceDisconnect\<close>.\<close>

definition forceDisconnect :: "nat \<Rightarrow> world \<Rightarrow> world" where
  "forceDisconnect tid w = removeSession (ms_fd (transports w tid)) w"

definition sessionPresent :: "string \<Rightarrow> world \<Rightarrow> nat option" where
  "sessionPresent cid w = map_of (m_sessionRegistry w) cid"

definition removeFromRegistry :: "string \<Rightarrow> world \<Rightarrow> world" where
  "removeFromRegistry cid w =
     (if map_of (m_sessionRegistry w) cid \<noteq> None
      then w\<lparr>m_sessionRegistry := um_erase cid (m_sessionRegistry w)\<rparr> else w)"

definition addToRegistry :: "nat \<Rightarrow> world \<Rightarrow> world" where
  "addToRegistry cs w =
     w\<lparr>m_sessionRegistry := um_assign (client_id (clients w cs)) cs (m_sessionRegistry w)\<rparr>"

definition updateActivity :: "string \<Rightarrow> world \<Rightarrow> world" where
  "updateActivity cid w =
     (case sessionPresent cid w of
        None \<Rightarrow> w
      | Some cs \<Rightarrow> upd_client cs (\<lambda>c. c\<lparr>last_activity := now_ms w\<rparr>) w)"

subsection \<open>Keep-alive\<close>

definition deadline :: "ClientSession \<Rightarrow> int" where
  "deadline cs = last_activity cs + uint (keep_alive cs) * 1500"

definition scheduleExpiry :: "nat \<Rightarrow> world \<Rightarrow> world" where
  "scheduleExpiry cs w =
     (if keep_alive (clients w cs) = 0 then w
      else
        let expiry = deadline (clients w cs);
            w = upd_client cs (\<lambda>c. c\<lparr>expiry_ms := expiry\<rparr>) w
        in w\<lparr>m_expiryHeap := pq_push \<lparr>ee_expiry_ms = expiry, ee_session = cs\<rparr> (m_expiryHeap w)\<rparr>)"

text \<open>\<open>static_cast<int>\<close> of an \<open>int64_t\<close> keeps the low 32 bits.\<close>

definition getNextTimeoutMs :: "world \<Rightarrow> int" where
  "getNextTimeoutMs w =
     (case pq_top ee_expiry_ms (m_expiryHeap w) of
        None \<Rightarrow> - 1
      | Some e \<Rightarrow>
          let diff = ee_expiry_ms e - now_ms w in
          if diff \<le> 0 then 0 else c_int (word_of_int diff))"

text \<open>
  The first loop of \<open>processExpiredSessions\<close>, on the heap, \<open>to_disconnect\<close> and \<open>new_entries\<close>. The heap
  is popped only inside the branch where \<open>lock()\<close> succeeds.
\<close>

type_synonym expiry_scan = "ExpiryEntry list \<times> nat list \<times> nat list"

fun expiry_due :: "int \<Rightarrow> expiry_scan \<Rightarrow> bool" where
  "expiry_due now (heap, to_disconnect, new_entries) =
     (case pq_top ee_expiry_ms heap of None \<Rightarrow> False | Some e \<Rightarrow> \<not> ee_expiry_ms e > now)"

fun expiry_step :: "world \<Rightarrow> expiry_scan \<Rightarrow> expiry_scan" where
  "expiry_step w (heap, to_disconnect, new_entries) =
     (case pq_top ee_expiry_ms heap of
        None \<Rightarrow> (heap, to_disconnect, new_entries)
      | Some e \<Rightarrow>
          if client_alive w (ee_session e) then
            let cs = ee_session e;
                recalculate_expiry = deadline (clients w cs)
            in if recalculate_expiry > now_ms w
               then (pq_pop ee_expiry_ms heap, to_disconnect, new_entries @ [cs])
               else (pq_pop ee_expiry_ms heap,
                     if connected (clients w cs) then to_disconnect @ [cs] else to_disconnect,
                     new_entries)
          else (heap, to_disconnect, new_entries))"

definition expiry_scan :: "world \<Rightarrow> expiry_scan option" where
  "expiry_scan w =
     while_option (expiry_due (now_ms w)) (expiry_step w) (m_expiryHeap w, [], [])"

definition disconnect_expired :: "nat \<Rightarrow> world \<Rightarrow> world" where
  "disconnect_expired cs w =
     (case lock_transport w (cs_session (clients w cs)) of
        None \<Rightarrow> w
      | Some transport \<Rightarrow>
          let w = forceDisconnect transport w in
          if cleansession (clients w cs) then removeFromRegistry (client_id (clients w cs)) w
          else upd_client cs (\<lambda>c. c\<lparr>connected := False\<rparr>) w)"

text \<open>\<open>None\<close>: the call does not return.\<close>

definition processExpiredSessions :: "world \<Rightarrow> world option" where
  "processExpiredSessions w =
     (case expiry_scan w of
        None \<Rightarrow> None
      | Some (heap, to_disconnect, new_entries) \<Rightarrow>
          Some (fold scheduleExpiry new_entries
                 (fold disconnect_expired to_disconnect (w\<lparr>m_expiryHeap := heap\<rparr>))))"

subsection \<open>Sending\<close>

definition RETRY_INTERVAL_S :: int where
  [simp]: "RETRY_INTERVAL_S = 5"

definition scheduleRetransmission :: "u16 \<Rightarrow> PacketType \<Rightarrow> nat \<Rightarrow> world \<Rightarrow> world" where
  "scheduleRetransmission packet_id type cs w =
     (let retry = now_ms w + RETRY_INTERVAL_S * 1000 in
      w\<lparr>m_retransmitHeap :=
          pq_push \<lparr>re_retry_ms = retry, re_packet_id = packet_id, re_packet_type = type,
                   re_session = cs\<rparr> (m_retransmitHeap w)\<rparr>)"

text \<open>The session pointer may be null (\<open>None\<close>): using it is a fault.\<close>

definition deref :: "nat option \<Rightarrow> fault + nat" where
  "deref p = or_fault NullDeref p"

definition sendToClient :: "core \<Rightarrow> nat option \<Rightarrow> Packet \<Rightarrow> world \<Rightarrow> fault + world" where
  "sendToClient C session packet w =
     and_then
       (if hdr_type (header packet) = PUBLISH then
          and_then
            (if hdr_qos (header packet) > 0 then
               and_then (get_publish (pkt packet)) (\<lambda>pub.
               and_then (deref session) (\<lambda>cs.
               let (packet_id, c) = allocatePacketId (clients w cs);
                   w = upd_client cs (\<lambda>_. c) w;
                   pub = pub\<lparr>pub_packet_id := packet_id\<rparr>
               in and_then (storeInflight packet (clients w cs)) (\<lambda>c.
                  let w = upd_client cs (\<lambda>_. c) w in
                  Inr (packet_id,
                       scheduleRetransmission (pub_packet_id pub) (hdr_type (header packet)) cs w))))
             else Inr (0, w)) (\<lambda>(packet_id, w).
          and_then (build_publish C packet packet_id []) (\<lambda>buff. Inr (buff, w)))
        else
          and_then (get_ack (pkt packet)) (\<lambda>ack.
          Inr (snd (build_ack C (ack_packet_id ack) (hdr_type (header packet)) []), w)))
       (\<lambda>(buff, w).
     and_then (deref session) (\<lambda>cs.
     Inr (case lock_transport w (cs_session (clients w cs)) of
            Some transport \<Rightarrow> pushDataToSend transport buff w
          | None \<Rightarrow> w)))"

text \<open>
  One round of the loop of \<open>routePacket\<close>. The packet is a reference: the lowered QoS stays for the
  rounds that follow.
\<close>

definition route_to :: "core \<Rightarrow> Subscription \<Rightarrow> Packet \<times> world \<Rightarrow> fault + (Packet \<times> world)" where
  "route_to C sub s =
     (let (packet, w) = s; cs = sub_session sub in
      if client_alive w cs then
        if \<not> connected (clients w cs) then
          (if hdr_qos (header packet) > 0
           then Inr (packet, upd_client cs (storeMessage packet) w)
           else Inr (packet, w))
        else
          let effective_qos = min (hdr_qos (header packet)) (sub_qos sub);
              packet = packet\<lparr>header := (header packet)\<lparr>hdr_qos := effective_qos\<rparr>\<rparr>
          in and_then (sendToClient C (Some cs) packet w) (\<lambda>w. Inr (packet, w))
      else Inr (packet, w))"

definition routePacket :: "core \<Rightarrow> Packet \<Rightarrow> nat option \<Rightarrow> world \<Rightarrow> fault + (Packet \<times> world)" where
  "routePacket C packet cs w =
     (if hdr_type (header packet) = PUBLISH then
        and_then (get_publish (pkt packet)) (\<lambda>pub.
        let (tree, subs) = tree_match (pub_topic pub) (m_topicTree w) in
        fold_r (route_to C) subs (packet, w\<lparr>m_topicTree := tree\<rparr>))
      else and_then (sendToClient C cs packet w) (\<lambda>w. Inr (packet, w)))"

subsection \<open>Retransmission\<close>

text \<open>The loop goes on only while the top entry is due, its session alive and its packet stored.\<close>

definition retransmit_ready :: "int \<Rightarrow> world \<Rightarrow> RetransmitEntry option" where
  "retransmit_ready now w =
     (case pq_top re_retry_ms (m_retransmitHeap w) of
        None \<Rightarrow> None
      | Some e \<Rightarrow>
          if re_retry_ms e \<le> now \<and> client_alive w (re_session e) \<and>
             pkt_len (getPacket (re_packet_id e) (re_packet_type e) (clients w (re_session e))) \<noteq> 0
          then Some e else None)"

definition retransmit_entry :: "core \<Rightarrow> RetransmitEntry \<Rightarrow> world \<Rightarrow> fault + world" where
  "retransmit_entry C e w =
     (let cs = clients w (re_session e);
          p = getPacket (re_packet_id e) (re_packet_type e) cs
      in and_then
           (if re_packet_type e = PUBLISH then
              let p = p\<lparr>header := (header p)\<lparr>hdr_dup := True\<rparr>\<rparr> in
              and_then (routePacket C p None w) (\<lambda>(p, w). Inr w)
            else
              let buff = snd (build_ack C (re_packet_id e) (hdr_type (header p)) []) in
              Inr (case lock_transport w (cs_session cs) of
                     Some transport \<Rightarrow> pushDataToSend transport buff w
                   | None \<Rightarrow> w))
           (\<lambda>w. Inr (w\<lparr>m_retransmitHeap := pq_pop re_retry_ms (m_retransmitHeap w)\<rparr>)))"

fun retransmit_guard :: "int \<Rightarrow> fault + world \<Rightarrow> bool" where
  "retransmit_guard now (Inl e) = False"
| "retransmit_guard now (Inr w) = (retransmit_ready now w \<noteq> None)"

definition retransmit_step :: "core \<Rightarrow> int \<Rightarrow> fault + world \<Rightarrow> fault + world" where
  "retransmit_step C now r =
     and_then r (\<lambda>w. case retransmit_ready now w of
       None \<Rightarrow> Inr w
     | Some e \<Rightarrow> retransmit_entry C e w)"

definition processRetransmissions :: "core \<Rightarrow> world \<Rightarrow> (fault + world) option" where
  "processRetransmissions C w =
     while_option (retransmit_guard (now_ms w)) (retransmit_step C (now_ms w)) (Inr w)"

subsection \<open>Subscriptions\<close>

definition createSubscription :: "string \<Rightarrow> u8 \<Rightarrow> string \<Rightarrow> world \<Rightarrow> world" where
  "createSubscription topic q cid w =
     (case sessionPresent cid w of
        None \<Rightarrow> w
      | Some cs \<Rightarrow>
          w\<lparr>m_topicTree :=
              tree_subscribe topic (client_id (clients w cs)) cs q (m_topicTree w)\<rparr>)"

definition removeSubscription :: "string \<Rightarrow> string \<Rightarrow> world \<Rightarrow> world" where
  "removeSubscription topic cid w =
     (case sessionPresent cid w of
        None \<Rightarrow> w
      | Some cs \<Rightarrow>
          w\<lparr>m_topicTree :=
              tree_unsubscribe topic (client_id (clients w cs)) (m_topicTree w)\<rparr>)"

end
