(* ===== verification/Session_Invariants.thy ===== *)
theory Session_Invariants
  imports Sessions
begin

text \<open>
  The invariant of the session manager's state and its preservation by every operation of
  \<open>Sessions\<close>. The rules of one operation are in \<open>inv_intros\<close>; what an operation leaves alone is in
  \<open>frame_simps\<close>.
\<close>

subsection \<open>The invariant\<close>

text \<open>A client is registered under its own id; the registry refers to sessions that exist.\<close>

definition registry_inv :: "world \<Rightarrow> bool" where
  "registry_inv w \<longleftrightarrow>
     um_ok (m_sessionRegistry w) \<and>
     (\<forall>c sid. map_of (m_sessionRegistry w) c = Some sid \<longrightarrow>
        sid < next_sid w \<and> client_id (clients w sid) = c)"

text \<open>A subscription is stored under the id of the client it points to, with a QoS of MQTT.\<close>

definition tree_inv :: "world \<Rightarrow> bool" where
  "tree_inv w \<longleftrightarrow>
     node_wf (m_topicTree w) \<and>
     (\<forall>p c s. look (m_topicTree w) p c = Some s \<longrightarrow>
        sub_session s < next_sid w \<and> client_id (clients w (sub_session s)) = c \<and> sub_qos s < 3)"

definition clients_inv :: "world \<Rightarrow> bool" where
  "clients_inv w \<longleftrightarrow>
     (\<forall>sid. session_wf (clients w sid) \<and>
        (\<forall>t. cs_session (clients w sid) = Some t \<longrightarrow> t < next_tid w)) \<and>
     (\<forall>sid < next_sid w. last_activity (clients w sid) \<le> now_ms w) \<and> 0 \<le> now_ms w"

text \<open>The longest keep-alive is 65535 seconds. Only PUBLISH packets are ever scheduled.\<close>

definition heaps_inv :: "world \<Rightarrow> bool" where
  "heaps_inv w \<longleftrightarrow>
     (\<forall>e \<in> set (m_expiryHeap w). ee_session e < next_sid w \<and>
        ee_expiry_ms e \<le> now_ms w + 65535 * 1500) \<and>
     (\<forall>e \<in> set (m_retransmitHeap w). re_session e < next_sid w \<and>
        re_retry_ms e \<le> now_ms w + 5000 \<and> re_packet_type e = PUBLISH \<and> re_packet_id e \<noteq> 0)"

definition transports_inv :: "world \<Rightarrow> bool" where
  "transports_inv w \<longleftrightarrow>
     um_ok (m_sessions w) \<and>
     (\<forall>fd tid. map_of (m_sessions w) fd = Some tid \<longrightarrow>
        tid < next_tid w \<and> ms_fd (transports w tid) = fd) \<and>
     (\<forall>tid \<in> set (held w). tid < next_tid w)"

definition world_inv :: "world \<Rightarrow> bool" where
  "world_inv w \<longleftrightarrow>
     registry_inv w \<and> tree_inv w \<and> clients_inv w \<and> heaps_inv w \<and> transports_inv w"

lemmas inv_defs = registry_inv_def tree_inv_def clients_inv_def heaps_inv_def transports_inv_def

lemma world_invI:
  "registry_inv w \<Longrightarrow> tree_inv w \<Longrightarrow> clients_inv w \<Longrightarrow> heaps_inv w \<Longrightarrow> transports_inv w \<Longrightarrow> world_inv w"
  by (simp add: world_inv_def)

lemma world_invD:
  "world_inv w \<Longrightarrow> registry_inv w" "world_inv w \<Longrightarrow> tree_inv w" "world_inv w \<Longrightarrow> clients_inv w"
  "world_inv w \<Longrightarrow> heaps_inv w" "world_inv w \<Longrightarrow> transports_inv w"
  by (simp_all add: world_inv_def)

lemma look_new [simp]: "look TopicTree_new p c = None"
  by (simp add: look_def TopicTree_new_def subs_at_new)

lemma world_inv_init: "0 \<le> now \<Longrightarrow> world_inv (world_init now)"
  by (rule world_invI) (simp_all add: inv_defs world_init_def TopicTree_new_def [THEN arg_cong [where f = node_wf]],
    simp add: ClientSession_new_def)

lemma client_alive_iff:
  "registry_inv w \<Longrightarrow>
     client_alive w sid \<longleftrightarrow> map_of (m_sessionRegistry w) (client_id (clients w sid)) = Some sid"
proof -
  assume inv: "registry_inv w"
  have "client_alive w sid \<longleftrightarrow> (\<exists>c. map_of (m_sessionRegistry w) c = Some sid)"
    using inv unfolding client_alive_def registry_inv_def by force
  with inv show ?thesis unfolding registry_inv_def by blast
qed

lemma client_alive_less: "registry_inv w \<Longrightarrow> client_alive w sid \<Longrightarrow> sid < next_sid w"
  using client_alive_iff registry_inv_def by blast

subsection \<open>Preservation\<close>

lemma upd_client_sel [frame_simps]:
  "next_sid (upd_client sid f w) = next_sid w" "transports (upd_client sid f w) = transports w"
  "next_tid (upd_client sid f w) = next_tid w" "m_sessions (upd_client sid f w) = m_sessions w"
  "held (upd_client sid f w) = held w" "m_sessionRegistry (upd_client sid f w) = m_sessionRegistry w"
  "m_topicTree (upd_client sid f w) = m_topicTree w" "m_expiryHeap (upd_client sid f w) = m_expiryHeap w"
  "m_retransmitHeap (upd_client sid f w) = m_retransmitHeap w" "now_ms (upd_client sid f w) = now_ms w"
  "sent (upd_client sid f w) = sent w"
  "clients (upd_client sid f w) = (clients w)(sid := f (clients w sid))"
  by (simp_all add: upd_client_def)

lemma world_inv_upd_client [inv_intros]:
  assumes "world_inv w"
    and "session_wf (clients w sid) \<Longrightarrow> session_wf (f (clients w sid))"
    and "client_id (f (clients w sid)) = client_id (clients w sid)"
    and "cs_session (f (clients w sid)) = cs_session (clients w sid)"
    and "last_activity (f (clients w sid)) \<in> {last_activity (clients w sid), now_ms w}"
  shows "world_inv (upd_client sid f w)"
  using assms unfolding world_inv_def inv_defs
  by (auto simp: frame_simps)

lemma world_inv_push [inv_intros]: "world_inv w \<Longrightarrow> world_inv (pushDataToSend t d w)"
  by (simp add: world_inv_def inv_defs pushDataToSend_def)

lemma world_inv_removeSession [inv_intros]: "world_inv w \<Longrightarrow> world_inv (removeSession fd w)"
  by (auto simp: world_inv_def inv_defs removeSession_def map_of_um_erase)

lemma world_inv_forceDisconnect [inv_intros]: "world_inv w \<Longrightarrow> world_inv (forceDisconnect t w)"
  by (simp add: forceDisconnect_def world_inv_removeSession)

lemma world_inv_addSession [inv_intros]: "world_inv w \<Longrightarrow> world_inv (addSession fd w)"
  unfolding world_inv_def inv_defs addSession_def
  by (auto simp: less_Suc_eq) fastforce

lemma world_inv_removeFromRegistry [inv_intros]:
  "world_inv w \<Longrightarrow> world_inv (removeFromRegistry c w)"
  by (auto simp: world_inv_def inv_defs removeFromRegistry_def map_of_um_erase set_um_erase)

lemma world_inv_addToRegistry [inv_intros]:
  "world_inv w \<Longrightarrow> sid < next_sid w \<Longrightarrow> world_inv (addToRegistry sid w)"
  by (auto simp: world_inv_def inv_defs addToRegistry_def)

lemma ClientSession_new_sel [simp]:
  "cs_session ClientSession_new = None" "last_activity ClientSession_new = 0"
  "connected ClientSession_new = False" "inflight ClientSession_new = []"
  "inflight_ack ClientSession_new = []" "message_queue ClientSession_new = []"
  by (simp_all add: ClientSession_new_def)

lemma world_inv_make_client [inv_intros]:
  assumes "world_inv w" shows "world_inv (snd (make_client w))"
proof (rule world_invI)
  have old: "clients (snd (make_client w)) sid = clients w sid" if "sid < next_sid w" for sid
    using that by (simp add: make_client_def)
  have more: "sid < next_sid w \<Longrightarrow> sid < next_sid (snd (make_client w))" for sid
    by (simp add: make_client_def)
  have same: "m_sessionRegistry (snd (make_client w)) = m_sessionRegistry w"
    "m_topicTree (snd (make_client w)) = m_topicTree w"
    by (simp_all add: make_client_def)
  show "registry_inv (snd (make_client w))" "tree_inv (snd (make_client w))"
    using world_invD(1,2) [OF assms] old more unfolding registry_inv_def tree_inv_def same
    by metis+
  show "clients_inv (snd (make_client w))" "heaps_inv (snd (make_client w))"
    "transports_inv (snd (make_client w))"
    using assms by (auto simp: world_inv_def inv_defs make_client_def less_Suc_eq)
qed

lemma world_inv_updateActivity [inv_intros]: "world_inv w \<Longrightarrow> world_inv (updateActivity c w)"
  by (auto simp: updateActivity_def session_wf_def intro!: inv_intros split: option.split)

lemma deadline_bound: "deadline cs \<le> last_activity cs + 65535 * 1500"
proof -
  have "uint (keep_alive cs) < 2 ^ LENGTH(16)" by (rule uint_lt2p)
  then show ?thesis by (simp add: deadline_def)
qed

lemma world_inv_scheduleExpiry [inv_intros]:
  assumes "world_inv w" and "sid < next_sid w" shows "world_inv (scheduleExpiry sid w)"
proof -
  let ?w = "upd_client sid (\<lambda>c. c\<lparr>expiry_ms := deadline (clients w sid)\<rparr>) w"
  have "world_inv ?w" using assms(1) by (auto simp: session_wf_def intro!: inv_intros)
  moreover have "deadline (clients w sid) \<le> now_ms w + 65535 * 1500"
    using deadline_bound [of "clients w sid"] assms by (fastforce simp: world_inv_def clients_inv_def)
  ultimately show ?thesis
    using assms unfolding scheduleExpiry_def Let_def world_inv_def inv_defs
    by (auto simp: pq_push_def frame_simps)
qed

lemma world_inv_expiryHeap [inv_intros]:
  "world_inv w \<Longrightarrow> set h \<subseteq> set (m_expiryHeap w) \<Longrightarrow> world_inv (w\<lparr>m_expiryHeap := h\<rparr>)"
  by (auto simp: world_inv_def inv_defs)

lemma world_inv_retransmitHeap [inv_intros]:
  "world_inv w \<Longrightarrow> set h \<subseteq> set (m_retransmitHeap w) \<Longrightarrow> world_inv (w\<lparr>m_retransmitHeap := h\<rparr>)"
  by (auto simp: world_inv_def inv_defs)

lemma world_inv_disconnect_expired [inv_intros]:
  "world_inv w \<Longrightarrow> world_inv (disconnect_expired sid w)"
  by (auto simp: disconnect_expired_def Let_def session_wf_def intro!: inv_intros split: option.split)

lemma world_inv_scheduleRetransmission [inv_intros]:
  "world_inv w \<Longrightarrow> sid < next_sid w \<Longrightarrow> k \<noteq> 0 \<Longrightarrow>
     world_inv (scheduleRetransmission k PUBLISH sid w)"
  by (auto simp: world_inv_def inv_defs scheduleRetransmission_def Let_def pq_push_def)

lemma world_inv_tree [inv_intros]:
  assumes "world_inv w" and "node_wf t"
    and "\<And>p c s. look t p c = Some s \<Longrightarrow> look (m_topicTree w) p c = Some s \<or>
      (sub_session s < next_sid w \<and> client_id (clients w (sub_session s)) = c \<and> sub_qos s < 3)"
  shows "world_inv (w\<lparr>m_topicTree := t\<rparr>)"
proof (rule world_invI)
  show "tree_inv (w\<lparr>m_topicTree := t\<rparr>)"
    using assms(1,2) assms(3) by (fastforce simp: world_inv_def tree_inv_def)
qed (use assms(1) in \<open>simp_all add: world_inv_def inv_defs\<close>)

lemma world_inv_createSubscription [inv_intros]:
  assumes "world_inv w" and "q < 3" shows "world_inv (createSubscription topic q c w)"
proof (cases "sessionPresent c w")
  case (Some sid)
  have wf: "node_wf (m_topicTree w)" using assms(1) by (simp add: world_inv_def tree_inv_def)
  have "sid < next_sid w" using assms(1) Some by (auto simp: world_inv_def registry_inv_def sessionPresent_def)
  then show ?thesis
    using Some assms wf
    by (auto simp: createSubscription_def tree_ops_wf look_subscribe intro!: inv_intros split: if_splits)
qed (use assms in \<open>simp add: createSubscription_def\<close>)

lemma world_inv_removeSubscription [inv_intros]:
  assumes "world_inv w" shows "world_inv (removeSubscription topic c w)"
proof -
  have "node_wf (m_topicTree w)" using assms(1) by (simp add: world_inv_def tree_inv_def)
  then show ?thesis
    using assms
    by (auto simp: removeSubscription_def tree_ops_wf look_unsubscribe intro!: inv_intros
        split: if_splits option.split)
qed

lemma world_inv_match [inv_intros]:
  assumes "world_inv w" shows "world_inv (w\<lparr>m_topicTree := fst (tree_match topic (m_topicTree w))\<rparr>)"
proof -
  have "node_wf (m_topicTree w)" using assms(1) by (simp add: world_inv_def tree_inv_def)
  then show ?thesis
    using assms by (auto simp: tree_ops(3) look_grown grown_wf intro!: inv_intros)
qed

end
