(* ===== verification/Sample_State.thy ===== *)
theory Sample_State
  imports Session_Invariants
begin

text \<open>
  One concrete state of the session manager, on which the theorems about it are applied: two clients
  on two transports, subscribed to the same topic, one of them with a running keep-alive timer.
\<close>

definition sample_client :: "bool \<Rightarrow> ClientSession" where
  "sample_client clean =
     ClientSession_new\<lparr>client_id := ''c'', keep_alive := 2, cleansession := clean, connected := True,
       cs_session := Some 0, last_activity := 100\<rparr>"

definition sample_other :: ClientSession where
  "sample_other = ClientSession_new\<lparr>client_id := ''d'', connected := True, cs_session := Some 1\<rparr>"

definition sample_topics :: Node where
  "sample_topics =
     Node ''*'' [(''/'', Node ''/'' [(''a'', Node ''a'' []
       [(''c'', \<lparr>sub_session = 0, sub_qos = 1\<rparr>), (''d'', \<lparr>sub_session = 1, sub_qos = 2\<rparr>)])] [])] []"

text \<open>
  Client \<open>c\<close> on transport 0 with a keep-alive of 2 s, last heard of at 100 ms, subscribed to \<open>/a\<close> with
  QoS 1; client \<open>d\<close> on transport 1, without keep-alive, subscribed to \<open>/a\<close> with QoS 2.
\<close>

definition sample_world :: "bool \<Rightarrow> int \<Rightarrow> world" where
  "sample_world clean now =
     (addSession 6 (addSession 5 (world_init 0)))
       \<lparr>clients := (\<lambda>_. ClientSession_new)(0 := sample_client clean, 1 := sample_other), next_sid := 2,
        m_sessionRegistry := [(''c'', 0), (''d'', 1)], m_topicTree := sample_topics,
        m_expiryHeap := [\<lparr>ee_expiry_ms = 3100, ee_session = 0\<rparr>], now_ms := now\<rparr>"

lemma sample_client_sel [simp]:
  "client_id (sample_client b) = ''c''" "keep_alive (sample_client b) = 2"
  "cleansession (sample_client b) = b" "connected (sample_client b)"
  "cs_session (sample_client b) = Some 0" "last_activity (sample_client b) = 100"
  "deadline (sample_client b) = 3100" "session_wf (sample_client b)"
  "inflight (sample_client b) = []" "inflight_ack (sample_client b) = []"
  "message_queue (sample_client b) = []" "next_packet_id (sample_client b) = 1"
  by (simp_all add: sample_client_def deadline_def, simp_all add: ClientSession_new_def session_wf_def)

lemma sample_other_sel [simp]:
  "client_id sample_other = ''d''" "keep_alive sample_other = 0" "connected sample_other"
  "cs_session sample_other = Some 1" "last_activity sample_other = 0" "session_wf sample_other"
  "inflight sample_other = []" "message_queue sample_other = []" "next_packet_id sample_other = 1"
  by (simp_all add: sample_other_def, simp_all add: ClientSession_new_def session_wf_def)

lemma sample_world_sel [simp]:
  "clients (sample_world b n) = (\<lambda>_. ClientSession_new)(0 := sample_client b, 1 := sample_other)"
  "next_sid (sample_world b n) = 2" "m_sessionRegistry (sample_world b n) = [(''c'', 0), (''d'', 1)]"
  "m_expiryHeap (sample_world b n) = [\<lparr>ee_expiry_ms = 3100, ee_session = 0\<rparr>]"
  "now_ms (sample_world b n) = n" "m_sessions (sample_world b n) = [(5, 0), (6, 1)]"
  "held (sample_world b n) = []" "next_tid (sample_world b n) = 2"
  "m_topicTree (sample_world b n) = sample_topics" "m_retransmitHeap (sample_world b n) = []"
  "sent (sample_world b n) = []" "ms_fd (transports (sample_world b n) 0) = 5"
  "ms_fd (transports (sample_world b n) 1) = 6" "ms_fd (transports (sample_world b n) (Suc 0)) = 6"
  "ms_client_id (transports (sample_world b n) t) = ''''"
  by (simp_all add: sample_world_def addSession_def world_init_def)

lemma sample_topics_wf: "node_wf sample_topics"
  by (simp add: sample_topics_def)

lemma look_sample_topics:
  "look sample_topics p c =
     (if p = [''/'', ''a''] then map_of [(''c'', \<lparr>sub_session = 0, sub_qos = 1\<rparr>),
        (''d'', \<lparr>sub_session = 1, sub_qos = 2\<rparr>)] c else None)"
proof -
  have subs: "subs_at (Node l ls ss) (t # q) = (case map_of ls t of None \<Rightarrow> [] | Some m \<Rightarrow> subs_at m q)"
    "subs_at (Node l ls ss) [] = ss" for l ls ss t q
    by (simp_all add: subs_at_simps)
  show ?thesis
    by (cases p; cases "tl p"; cases "tl (tl p)")
      (auto simp: look_def sample_topics_def subs)
qed

lemma match_sample_topics:
  "tree_match ''/a'' sample_topics =
     (sample_topics, [\<lparr>sub_session = 0, sub_qos = 1\<rparr>, \<lparr>sub_session = 1, sub_qos = 2\<rparr>])"
  by (simp add: tree_match_def sample_topics_def getNode.simps(2) Let_def)

lemma sample_world_inv: "100 \<le> n \<Longrightarrow> world_inv (sample_world b n)"
proof (rule world_invI)
  assume n: "100 \<le> n"
  show "transports_inv (sample_world b n)"
    by (simp add: transports_inv_def)
  have "session_wf ClientSession_new" by (simp add: ClientSession_new_def session_wf_def)
  with n show "clients_inv (sample_world b n)" by (simp add: clients_inv_def)
  show "tree_inv (sample_world b n)"
    by (simp add: tree_inv_def sample_topics_wf look_sample_topics)
qed (simp_all add: registry_inv_def heaps_inv_def)

end
