(* ===== verification/Delivery.thy ===== *)
theory Delivery
  imports Sample_State
begin

text \<open>
  Routing, sending and retransmission: proofs about \<open>sendToClient\<close>, \<open>routePacket\<close> and
  \<open>processRetransmissions\<close> of \<open>Sessions\<close>. \<open>delivers\<close> is the contract of the delivery operations: what
  they may change, and in which direction.
\<close>

subsection \<open>PUBLISH packets\<close>

definition pub_ok :: "Packet \<Rightarrow> bool" where
  "pub_ok p \<longleftrightarrow> hdr_type (header p) = PUBLISH \<and> (\<exists>pub. pkt p = VPublish pub) \<and> 0 < pkt_len p"

definition the_pub :: "Packet \<Rightarrow> Publish" where
  "the_pub p = (case pkt p of VPublish pub \<Rightarrow> pub | _ \<Rightarrow> Publish_default)"

lemma pub_ok_get: "pub_ok p \<Longrightarrow> get_publish (pkt p) = Inr (the_pub p)"
  by (auto simp: pub_ok_def the_pub_def)

lemma pub_ok_pkt: "pub_ok p \<Longrightarrow> pkt p = VPublish (the_pub p)"
  by (auto simp: pub_ok_def the_pub_def)

definition with_qos :: "u8 \<Rightarrow> Packet \<Rightarrow> Packet" where
  "with_qos q p = p\<lparr>header := (header p)\<lparr>hdr_qos := q\<rparr>\<rparr>"

lemma with_qos_sel [simp]:
  "pub_ok (with_qos q p) = pub_ok p" "the_pub (with_qos q p) = the_pub p"
  "pkt (with_qos q p) = pkt p" "pkt_len (with_qos q p) = pkt_len p"
  "hdr_qos (header (with_qos q p)) = q" "hdr_type (header (with_qos q p)) = hdr_type (header p)"
  "with_qos q (with_qos q' p) = with_qos q p"
  by (simp_all add: with_qos_def pub_ok_def the_pub_def)

lemma with_qos_same [simp]: "with_qos (hdr_qos (header p)) p = p"
  by (simp add: with_qos_def)

text \<open>The bytes a PUBLISH is forwarded as; the id given to \<open>build_publish\<close> is not among them.\<close>

definition publish_bytes :: "core \<Rightarrow> Packet \<Rightarrow> u8 list" where
  "publish_bytes C p = (case build_publish C p 0 [] of Inr b \<Rightarrow> b | Inl _ \<Rightarrow> [])"

lemma build_publish_id: "build_publish C p k buff = build_publish C p k' buff"
  by (simp add: build_publish_def)

lemma build_publish_ok: "pub_ok p \<Longrightarrow> build_publish C p k [] = Inr (publish_bytes C p)"
  unfolding build_publish_id [of C p k "[]" 0] publish_bytes_def
  by (simp add: build_publish_def pub_ok_get case_prod_unfold Let_def)

subsection \<open>sendToClient\<close>

text \<open>
  What \<open>sendToClient\<close> leaves behind for a QoS of 1 or 2: the id it allocates goes into the
  retransmission entry, the packet goes into the in-flight map under the publisher's id.
\<close>

definition keep_copy :: "Packet \<Rightarrow> nat \<Rightarrow> world \<Rightarrow> world" where
  "keep_copy p sid w =
     (if hdr_qos (header p) > 0 then
        scheduleRetransmission (next_packet_id (alloc_next (clients w sid))) PUBLISH sid
          (upd_client sid (\<lambda>c. (alloc_next c)\<lparr>inflight :=
             um_insert (pub_packet_id (the_pub p)) p (inflight c)\<rparr>) w)
      else w)"

definition push_to :: "nat option \<Rightarrow> u8 list \<Rightarrow> world \<Rightarrow> world" where
  "push_to t data w = (case t of Some tid \<Rightarrow> pushDataToSend tid data w | None \<Rightarrow> w)"

lemma alloc_next_keeps [simp]:
  "inflight (alloc_next c) = inflight c" "inflight_ack (alloc_next c) = inflight_ack c"
  "message_queue (alloc_next c) = message_queue c" "client_id (alloc_next c) = client_id c"
  "connected (alloc_next c) = connected c" "cs_session (alloc_next c) = cs_session c"
  "last_activity (alloc_next c) = last_activity c" "keep_alive (alloc_next c) = keep_alive c"
  "cleansession (alloc_next c) = cleansession c" "expiry_ms (alloc_next c) = expiry_ms c"
  by (simp_all add: alloc_next_def allocatePacketId_def Let_def)

lemma allocatePacketId_pair: "allocatePacketId c = (next_packet_id (alloc_next c), alloc_next c)"
  using fst_allocatePacketId [of c] by (simp add: alloc_next_def prod_eq_iff)

lemma lock_transport_cong:
  "m_sessions w = m_sessions w' \<Longrightarrow> held w = held w' \<Longrightarrow> lock_transport w t = lock_transport w' t"
  by (simp add: lock_transport_def transport_alive_def split: option.split)

lemma keep_copy_transports:
  "m_sessions (keep_copy p sid w) = m_sessions w" "held (keep_copy p sid w) = held w"
  "cs_session (clients (keep_copy p sid w) s) = cs_session (clients w s)"
  by (simp_all add: keep_copy_def scheduleRetransmission_def frame_simps Let_def)

lemma sendToClient_publish:
  assumes "pub_ok p"
  shows "sendToClient C (Some sid) p w =
    Inr (push_to (lock_transport w (cs_session (clients w sid))) (publish_bytes C p)
           (keep_copy p sid w))"
proof -
  have t: "hdr_type (header p) = PUBLISH" using assms by (simp add: pub_ok_def)
  have upd: "upd_client sid (\<lambda>_. c) (upd_client sid (\<lambda>_. d) w) = upd_client sid (\<lambda>_. c) w" for c d
    by (simp add: upd_client_def)
  have same: "upd_client sid f w = upd_client sid (\<lambda>_. f (clients w sid)) w" for f
    by (simp add: upd_client_def)
  have "sendToClient C (Some sid) p w =
    Inr (push_to (lock_transport (keep_copy p sid w) (cs_session (clients (keep_copy p sid w) sid)))
           (publish_bytes C p) (keep_copy p sid w))"
  proof (cases "hdr_qos (header p) > 0")
    case True
    then show ?thesis
      unfolding sendToClient_def keep_copy_def
      by (simp add: t pub_ok_get [OF assms] deref_def allocatePacketId_pair storeInflight_def
          build_publish_ok [OF assms] push_to_def Let_def upd
          same [of "\<lambda>c. (alloc_next c)\<lparr>inflight := um_insert (pub_packet_id (the_pub p)) p (inflight c)\<rparr>"]
          upd_client_sel(12) split: option.split)
  next
    case False
    then show ?thesis
      unfolding sendToClient_def keep_copy_def
      by (simp add: t deref_def build_publish_ok [OF assms] push_to_def split: option.split)
  qed
  then show ?thesis
    by (simp add: keep_copy_transports lock_transport_cong [OF keep_copy_transports(1,2)])
qed

subsection \<open>The contract of delivery\<close>

text \<open>
  Delivery adds nodes to the tree, packets to the in-flight maps and the offline queues, later entries
  to the retransmission heap and bytes to the output; it takes nothing away and leaves the registry,
  the transports and the keep-alive state alone.
\<close>

definition client_grows :: "ClientSession \<Rightarrow> ClientSession \<Rightarrow> bool" where
  "client_grows c c' \<longleftrightarrow>
     client_id c' = client_id c \<and> keep_alive c' = keep_alive c \<and> cleansession c' = cleansession c \<and>
     connected c' = connected c \<and> cs_session c' = cs_session c \<and>
     last_activity c' = last_activity c \<and> inflight_ack c' = inflight_ack c \<and>
     (\<forall>k p. map_of (inflight c) k = Some p \<longrightarrow> map_of (inflight c') k = Some p) \<and>
     prefix (message_queue c) (message_queue c')"

definition keeps :: "world \<Rightarrow> world \<Rightarrow> bool" where
  "keeps w w' \<longleftrightarrow>
     next_sid w' = next_sid w \<and> transports w' = transports w \<and> next_tid w' = next_tid w \<and>
     m_sessions w' = m_sessions w \<and> held w' = held w \<and>
     m_sessionRegistry w' = m_sessionRegistry w \<and> m_expiryHeap w' = m_expiryHeap w \<and>
     now_ms w' = now_ms w \<and> look (m_topicTree w') = look (m_topicTree w) \<and>
     (\<forall>sid. client_grows (clients w sid) (clients w' sid)) \<and> prefix (sent w) (sent w')"

definition delivers :: "world \<Rightarrow> world \<Rightarrow> bool" where
  "delivers w w' \<longleftrightarrow> keeps w w' \<and>
     (\<exists>es. m_retransmitHeap w' = m_retransmitHeap w @ es \<and>
        (\<forall>e \<in> set es. re_retry_ms e = now_ms w + 5000))"

lemma client_grows_refl [simp]: "client_grows c c"
  by (simp add: client_grows_def)

lemma client_grows_trans: "client_grows a b \<Longrightarrow> client_grows b c \<Longrightarrow> client_grows a c"
  by (auto simp: client_grows_def)

lemma delivers_refl [simp]: "delivers w w"
  by (simp add: delivers_def keeps_def)

lemma keeps_trans:
  assumes "keeps a b" and "keeps b c" shows "keeps a c"
proof -
  have "client_grows (clients a sid) (clients c sid)" for sid
    using assms client_grows_trans unfolding keeps_def by blast
  moreover have "prefix (sent a) (sent c)"
    using assms prefix_order.trans unfolding keeps_def by blast
  ultimately show ?thesis using assms by (simp add: keeps_def)
qed

lemma delivers_trans:
  assumes "delivers a b" and "delivers b c" shows "delivers a c"
proof -
  obtain es fs where "m_retransmitHeap b = m_retransmitHeap a @ es"
    "m_retransmitHeap c = m_retransmitHeap b @ fs"
    "\<forall>e \<in> set es. re_retry_ms e = now_ms a + 5000" "\<forall>e \<in> set fs. re_retry_ms e = now_ms b + 5000"
    using assms unfolding delivers_def by blast
  moreover have "keeps a b" "keeps b c" using assms by (simp_all add: delivers_def)
  ultimately show ?thesis
    using keeps_trans [of a b c] unfolding delivers_def
    by (intro conjI exI [of _ "es @ fs"]) (auto simp: keeps_def)
qed

lemma delivers_upd_client:
  "client_grows (clients w sid) (f (clients w sid)) \<Longrightarrow> delivers w (upd_client sid f w)"
  by (simp add: delivers_def keeps_def frame_simps)

lemma delivers_push: "delivers w (push_to t d w)"
  by (simp add: delivers_def keeps_def push_to_def pushDataToSend_def split: option.split)

lemma delivers_schedule: "delivers w (scheduleRetransmission k t sid w)"
  by (simp add: delivers_def keeps_def scheduleRetransmission_def pq_push_def Let_def)

lemma delivers_tree: "look t = look (m_topicTree w) \<Longrightarrow> delivers w (w\<lparr>m_topicTree := t\<rparr>)"
  by (simp add: delivers_def keeps_def)

lemma delivers_keep_copy: "delivers w (keep_copy p sid w)"
proof -
  have "client_grows c ((alloc_next c)\<lparr>inflight := um_insert k p (inflight c)\<rparr>)" for c k
    by (simp add: client_grows_def map_of_um_insert)
  then show ?thesis
    unfolding keep_copy_def by (auto intro: delivers_trans [OF delivers_upd_client delivers_schedule])
qed

lemma world_inv_push_to [inv_intros]: "world_inv w \<Longrightarrow> world_inv (push_to t d w)"
  by (auto simp: push_to_def intro: inv_intros split: option.split)

lemma world_inv_keep_copy [inv_intros]:
  assumes "world_inv w" and "pub_ok p" and "sid < next_sid w"
  shows "world_inv (keep_copy p sid w)"
proof (cases "hdr_qos (header p) > 0")
  case True
  let ?c = "clients w sid"
  have wf: "session_wf ?c" using assms(1) by (simp add: world_inv_def clients_inv_def)
  have "session_wf (alloc_next ?c)"
    using session_wf_alloc [OF wf] by (simp add: alloc_next_def)
  moreover have "storeInflight p (alloc_next ?c) =
      Inr ((alloc_next ?c)\<lparr>inflight := um_insert (pub_packet_id (the_pub p)) p (inflight ?c)\<rparr>)"
    by (simp add: storeInflight_def pub_ok_get [OF assms(2)])
  ultimately have "session_wf ((alloc_next ?c)\<lparr>inflight := um_insert (pub_packet_id (the_pub p)) p (inflight ?c)\<rparr>)"
    using session_wf_storeInflight True assms(2) pub_ok_def by blast
  moreover have "next_packet_id (alloc_next ?c) \<noteq> 0"
    using \<open>session_wf (alloc_next ?c)\<close> by (simp add: session_wf_def)
  ultimately show ?thesis
    using True assms(1,3) unfolding keep_copy_def
    by (auto intro!: world_inv_scheduleRetransmission world_inv_upd_client simp: frame_simps)
qed (use assms in \<open>simp add: keep_copy_def\<close>)


subsection \<open>routePacket\<close>

text \<open>One round, without the faults: a PUBLISH packet that is one causes none.\<close>

definition live :: "world \<Rightarrow> nat \<Rightarrow> bool" where
  "live w sid \<longleftrightarrow> client_alive w sid \<and> connected (clients w sid)"

fun route_step :: "core \<Rightarrow> Subscription \<Rightarrow> Packet \<times> world \<Rightarrow> Packet \<times> world" where
  "route_step C sub (p, w) =
     (let sid = sub_session sub in
      if live w sid then
        let p' = with_qos (min (hdr_qos (header p)) (sub_qos sub)) p in
        (p', push_to (lock_transport w (cs_session (clients w sid))) (publish_bytes C p') (keep_copy p' sid w))
      else if client_alive w sid \<and> hdr_qos (header p) > 0
      then (p, upd_client sid (storeMessage p) w)
      else (p, w))"

lemma route_to_step:
  assumes "pub_ok p" shows "route_to C sub (p, w) = Inr (route_step C sub (p, w))"
  using sendToClient_publish [of "with_qos (min (hdr_qos (header p)) (sub_qos sub)) p"] assms
  by (auto simp: route_to_def live_def with_qos_def [symmetric] Let_def)

lemma route_step_pub_ok: "pub_ok p \<Longrightarrow> pub_ok (fst (route_step C sub (p, w)))"
  by (simp add: Let_def)

lemma fold_route_to:
  "pub_ok p \<Longrightarrow> fold_r (route_to C) subs (p, w) = Inr (fold (route_step C) subs (p, w))"
proof (induction subs arbitrary: p w)
  case (Cons s ss)
  obtain p' w' where r: "route_step C s (p, w) = (p', w')" by (cases "route_step C s (p, w)")
  then have "pub_ok p'" using route_step_pub_ok [OF Cons.prems, of C s w] by simp
  with Cons r show ?case by (simp add: route_to_step del: route_step.simps)
qed simp

lemma routePacket_fold:
  assumes "pub_ok p"
  shows "routePacket C p cs w =
    Inr (fold (route_step C) (snd (tree_match (pub_topic (the_pub p)) (m_topicTree w)))
           (p, w\<lparr>m_topicTree := fst (tree_match (pub_topic (the_pub p)) (m_topicTree w))\<rparr>))"
  using assms
  by (simp add: routePacket_def pub_ok_get fold_route_to case_prod_unfold Let_def) (simp add: pub_ok_def)

lemma queued_ok_pub: "pub_ok p \<Longrightarrow> 0 < hdr_qos (header p) \<Longrightarrow> queued_ok p"
  by (auto simp: pub_ok_def queued_ok_def)

lemma delivers_route_step: "delivers w (snd (route_step C sub (p, w)))"
proof -
  have "client_grows c (storeMessage p c)" for c
    by (simp add: client_grows_def storeMessage_def)
  then show ?thesis
    by (auto simp: Let_def intro: delivers_trans [OF delivers_keep_copy delivers_push] delivers_upd_client)
qed

lemma world_inv_route_step:
  assumes "world_inv w" and "pub_ok p" shows "world_inv (snd (route_step C sub (p, w)))"
proof -
  have "sub_session sub < next_sid w" if "client_alive w (sub_session sub)"
    using client_alive_less [OF world_invD(1) [OF assms(1)] that] .
  moreover have "session_wf (storeMessage p c)" if "session_wf c" "0 < hdr_qos (header p)" for c
    using that session_wf_storeMessage queued_ok_pub [OF assms(2)] by blast
  moreover have "client_id (storeMessage p c) = client_id c" "cs_session (storeMessage p c) = cs_session c"
    "last_activity (storeMessage p c) = last_activity c" for c
    by (simp_all add: storeMessage_def)
  ultimately show ?thesis
    using assms by (auto simp: live_def Let_def intro!: inv_intros)
qed

lemma fold_route_step:
  assumes "world_inv w" and "pub_ok p"
  shows "\<exists>p' w'. fold (route_step C) subs (p, w) = (p', w') \<and> world_inv w' \<and> delivers w w' \<and>
    pub_ok p' \<and> the_pub p' = the_pub p"
  using assms
proof (induction subs arbitrary: p w)
  case (Cons s ss)
  obtain p' w' where r: "route_step C s (p, w) = (p', w')" by (cases "route_step C s (p, w)")
  have "pub_ok p'" using route_step_pub_ok [OF Cons.prems(2)] r by (metis fst_conv)
  moreover have "the_pub p' = the_pub p" using r by (auto simp: Let_def split: if_splits)
  moreover have "world_inv w'" using world_inv_route_step [OF Cons.prems] r by (metis snd_conv)
  moreover have "delivers w w'" using delivers_route_step r by (metis snd_conv)
  ultimately have *: "pub_ok p'" "the_pub p' = the_pub p" "world_inv w'" "delivers w w'" .
  with Cons.IH [OF *(3,1)] r show ?case
    by (auto simp del: route_step.simps intro: delivers_trans)
qed simp

lemma routePacket_ok:
  assumes "world_inv w" and "pub_ok p"
  shows "\<exists>p' w'. routePacket C p cs w = Inr (p', w') \<and> world_inv w' \<and> delivers w w' \<and>
    pub_ok p' \<and> the_pub p' = the_pub p"
proof -
  let ?m = "tree_match (pub_topic (the_pub p)) (m_topicTree w)"
  have "look (fst ?m) = look (m_topicTree w)" by (simp add: tree_ops(3) look_grown)
  then have "delivers w (w\<lparr>m_topicTree := fst ?m\<rparr>)" by (rule delivers_tree)
  then show ?thesis
    using fold_route_step [OF world_inv_match [OF assms(1), of "pub_topic (the_pub p)"] assms(2),
        where C = C and subs = "snd ?m"]
    unfolding routePacket_fold [OF assms(2)] by (auto intro: delivers_trans)
qed

text \<open>Who is live does not change while a packet is routed; the QoS only goes down.\<close>

lemma delivers_live:
  assumes "delivers w w'"
  shows "client_alive w' sid = client_alive w sid" "live w' sid = live w sid"
    "lock_transport w' (cs_session (clients w' sid)) = lock_transport w (cs_session (clients w sid))"
proof -
  show alive: "client_alive w' sid = client_alive w sid"
    using assms by (simp add: delivers_def keeps_def client_alive_def)
  have c: "client_grows (clients w sid) (clients w' sid)"
    using assms by (simp add: delivers_def keeps_def)
  then show "live w' sid = live w sid" by (simp add: live_def alive client_grows_def)
  show "lock_transport w' (cs_session (clients w' sid)) = lock_transport w (cs_session (clients w sid))"
    using assms c lock_transport_cong [of w' w] by (simp add: delivers_def keeps_def client_grows_def)
qed

lemma fold_route_qos:
  "hdr_qos (header (fst (fold (route_step C) subs (p, w)))) =
     fold (\<lambda>s q. min q (sub_qos s)) (filter (\<lambda>s. live w (sub_session s)) subs) (hdr_qos (header p))"
proof (induction subs arbitrary: p w)
  case (Cons s ss)
  obtain p' w' where r: "route_step C s (p, w) = (p', w')" by (cases "route_step C s (p, w)")
  then have "delivers w w'" using delivers_route_step by (metis snd_conv)
  moreover have "hdr_qos (header p') =
      (if live w (sub_session s) then min (hdr_qos (header p)) (sub_qos s) else hdr_qos (header p))"
    using r by (auto simp: Let_def split: if_splits)
  ultimately show ?case
    using Cons.IH [of p' w'] r by (simp add: delivers_live del: route_step.simps)
qed simp

text \<open>A packet of QoS 0 is written once to every live subscription with a transport, and that is all.\<close>

definition qos0_output :: "core \<Rightarrow> Packet \<Rightarrow> world \<Rightarrow> Subscription list \<Rightarrow> (nat \<times> u8 list) list" where
  "qos0_output C p w subs =
     concat (map (\<lambda>s. if live w (sub_session s)
       then case lock_transport w (cs_session (clients w (sub_session s))) of
              Some tid \<Rightarrow> [(tid, publish_bytes C p)] | None \<Rightarrow> []
       else []) subs)"

lemma fold_route_qos0:
  "hdr_qos (header p) = 0 \<Longrightarrow>
     fold (route_step C) subs (p, w) = (p, w\<lparr>sent := sent w @ qos0_output C p w subs\<rparr>)"
proof (induction subs arbitrary: w)
  case Nil
  then show ?case by (simp add: qos0_output_def)
next
  case (Cons s ss)
  have "with_qos (min (hdr_qos (header p)) q) p = p" for q
    using Cons.prems by (metis with_qos_same min.absorb1 word_coorder.extremum)
  then have r: "route_step C s (p, w) = (p, w\<lparr>sent := sent w @ qos0_output C p w [s]\<rparr>)"
    using Cons.prems
    by (auto simp: qos0_output_def Let_def keep_copy_def push_to_def pushDataToSend_def split: option.split)
  have "lock_transport (w\<lparr>sent := l\<rparr>) t = lock_transport w t" for l t
    by (rule lock_transport_cong) simp_all
  then have "qos0_output C p (w\<lparr>sent := l\<rparr>) ss = qos0_output C p w ss" for l
    by (simp add: qos0_output_def live_def client_alive_def cong: if_cong)
  with Cons.IH [OF Cons.prems] r show ?case
    by (simp add: qos0_output_def del: route_step.simps)
qed

subsection \<open>Retransmission\<close>

interpretation retransmit_heap: priority_queue re_retry_ms pq_push "pq_top re_retry_ms"
    "pq_pop re_retry_ms" mset
  by (rule priority_queue_model)

definition due_count :: "int \<Rightarrow> world \<Rightarrow> nat" where
  "due_count now w = size {#e \<in># mset (m_retransmitHeap w). re_retry_ms e \<le> now#}"

lemma delivers_due:
  assumes "delivers w w'" and "now_ms w = now"
  shows "due_count now w' = due_count now w"
proof -
  obtain es where "m_retransmitHeap w' = m_retransmitHeap w @ es" "\<forall>e \<in> set es. re_retry_ms e = now_ms w + 5000"
    using assms(1) by (auto simp: delivers_def)
  moreover from this(2) have "{#e \<in># mset es. re_retry_ms e \<le> now#} = {#}"
    using assms(2) by (simp add: mset_filter [symmetric] filter_empty_conv)
  ultimately show ?thesis by (simp add: due_count_def)
qed

lemma retransmit_ready_due:
  assumes "retransmit_ready now w = Some e" and "delivers w w'" and "now_ms w = now"
  shows "due_count now (w'\<lparr>m_retransmitHeap := pq_pop re_retry_ms (m_retransmitHeap w')\<rparr>) < due_count now w"
proof -
  have e: "pq_top re_retry_ms (m_retransmitHeap w) = Some e" "re_retry_ms e \<le> now"
    using assms(1) by (auto simp: retransmit_ready_def split: option.splits if_splits)
  obtain es where es: "m_retransmitHeap w' = m_retransmitHeap w @ es"
    using assms(2) by (auto simp: delivers_def)
  have "\<exists>x \<in># mset (m_retransmitHeap w'). re_retry_ms x \<le> now"
    using e pq_top_in [OF e(1)] es by auto
  then obtain e' where "pq_top re_retry_ms (m_retransmitHeap w') = Some e'" "re_retry_ms e' \<le> now"
    using retransmit_heap.due_iff_top by blast
  from retransmit_heap.due_pop [OF this] show ?thesis
    using delivers_due [OF assms(2,3)] by (simp add: due_count_def)
qed

lemma retransmit_entry_ok:
  assumes inv: "world_inv w" and ready: "retransmit_ready now w = Some e" and now: "now_ms w = now"
  shows "\<exists>w'. retransmit_entry C e w = Inr w' \<and> world_inv w' \<and> keeps w w' \<and>
    due_count now w' < due_count now w"
proof -
  let ?c = "clients w (re_session e)"
  let ?p = "getPacket (re_packet_id e) PUBLISH ?c"
  let ?d = "?p\<lparr>header := (header ?p)\<lparr>hdr_dup := True\<rparr>\<rparr>"
  have "e \<in> set (m_retransmitHeap w)" and len: "0 < pkt_len (getPacket (re_packet_id e) (re_packet_type e) ?c)"
    using ready pq_top_in by (fastforce simp: retransmit_ready_def split: option.splits if_splits)+
  then have t: "re_packet_type e = PUBLISH" using inv by (simp add: world_inv_def heaps_inv_def)
  have "session_wf ?c" using inv by (simp add: world_inv_def clients_inv_def)
  with len t have "inflight_entry_ok (re_packet_id e, ?p)"
    using getPacket_wf [of ?c "re_packet_id e" PUBLISH] by simp
  then have "pub_ok ?d"
    by (cases "pkt ?p") (auto simp: pub_ok_def inflight_entry_ok_def publish_id_def)
  then obtain p' w' where r: "routePacket C ?d None w = Inr (p', w')" "world_inv w'" "delivers w w'"
    using routePacket_ok [OF inv] by blast
  let ?w = "w'\<lparr>m_retransmitHeap := pq_pop re_retry_ms (m_retransmitHeap w')\<rparr>"
  have "retransmit_entry C e w = Inr ?w"
    using r(1) t by (simp add: retransmit_entry_def Let_def)
  moreover have "world_inv ?w" by (rule world_inv_retransmitHeap [OF r(2) pq_pop_subset])
  moreover have "keeps w ?w" using r(3) by (simp add: delivers_def keeps_def)
  ultimately show ?thesis using retransmit_ready_due [OF ready r(3) now] by blast
qed

lemma processRetransmissions_ok:
  assumes "world_inv w"
  shows "\<exists>w'. processRetransmissions C w = Some (Inr w') \<and> world_inv w' \<and> keeps w w' \<and>
    retransmit_ready (now_ms w) w' = None"
proof -
  let ?now = "now_ms w"
  define P where "P = (\<lambda>r :: fault + world. \<exists>u. r = Inr u \<and> world_inv u \<and> keeps w u)"
  define m where "m = case_sum (\<lambda>_ :: fault. 0) (due_count ?now)"
  have step: "P (retransmit_step C ?now r) \<and> m (retransmit_step C ?now r) < m r"
    if "P r" "retransmit_guard ?now r" for r
  proof -
    from that obtain u e where u: "r = Inr u" "world_inv u" "keeps w u" "retransmit_ready ?now u = Some e"
      by (auto simp: P_def)
    from u(3) have "now_ms u = ?now" by (simp add: keeps_def)
    from retransmit_entry_ok [OF u(2,4) this] obtain u' where
      "retransmit_entry C e u = Inr u'" "world_inv u'" "keeps u u'" "due_count ?now u' < due_count ?now u"
      by blast
    with u keeps_trans [OF u(3)] show ?thesis
      by (simp add: P_def m_def retransmit_step_def)
  qed
  have init: "P (Inr w)" using assms by (simp add: P_def keeps_def)
  from measure_while_option_Some [where P = P and f = m, OF step init]
  obtain r where r: "processRetransmissions C w = Some r"
    by (auto simp: processRetransmissions_def)
  have "P r"
    using while_option_rule [where P = P, OF _ r [unfolded processRetransmissions_def] init] step by blast
  moreover have "\<not> retransmit_guard ?now r"
    using while_option_stop [OF r [unfolded processRetransmissions_def]] .
  ultimately show ?thesis using r by (auto simp: P_def)
qed

lemma processRetransmissions_blocked:
  "retransmit_ready (now_ms w) w = None \<Longrightarrow> processRetransmissions C w = Some (Inr w)"
  by (simp add: processRetransmissions_def while_option_done)

subsection \<open>What a routed packet leaves behind\<close>

text \<open>The output of a routed packet: its QoS is lowered on the way and does not come back.\<close>

fun routed_output :: "core \<Rightarrow> Packet \<Rightarrow> world \<Rightarrow> Subscription list \<Rightarrow> (nat \<times> u8 list) list" where
  "routed_output C p w [] = []"
| "routed_output C p w (s # ss) =
     (if live w (sub_session s) then
        let p' = with_qos (min (hdr_qos (header p)) (sub_qos s)) p in
        (case lock_transport w (cs_session (clients w (sub_session s))) of
           Some tid \<Rightarrow> [(tid, publish_bytes C p')] | None \<Rightarrow> []) @ routed_output C p' w ss
      else routed_output C p w ss)"

lemma sent_push_to:
  "sent (push_to t d w) = sent w @ (case t of Some tid \<Rightarrow> [(tid, d)] | None \<Rightarrow> [])"
  by (simp add: push_to_def pushDataToSend_def split: option.split)

lemma sent_keep_copy: "sent (keep_copy p sid w) = sent w"
  by (simp add: keep_copy_def scheduleRetransmission_def frame_simps Let_def)

lemma sent_route_step:
  "sent (snd (route_step C s (p, w))) = sent w @ routed_output C p w [s]"
  by (auto simp: Let_def sent_push_to sent_keep_copy frame_simps)

lemma routed_output_delivers: "delivers w w' \<Longrightarrow> routed_output C p w' ss = routed_output C p w ss"
  by (induction ss arbitrary: p) (simp_all add: delivers_live Let_def)

lemma routed_output_Cons:
  assumes "route_step C s (p, w) = (p', w')"
  shows "routed_output C p w (s # ss) = routed_output C p w [s] @ routed_output C p' w ss"
  using assms by (auto simp: Let_def split: if_splits)

lemma sent_fold_route:
  "sent (snd (fold (route_step C) subs (p, w))) = sent w @ routed_output C p w subs"
proof (induction subs arbitrary: p w)
  case (Cons s ss)
  obtain p' w' where r: "route_step C s (p, w) = (p', w')" by (cases "route_step C s (p, w)")
  then have "delivers w w'" using delivers_route_step by (metis snd_conv)
  moreover have "sent w' = sent w @ routed_output C p w [s]" using sent_route_step r by (metis snd_conv)
  ultimately show ?case
    using Cons.IH [of p' w'] r routed_output_delivers [of w w'] routed_output_Cons [OF r, of ss]
    by (simp del: route_step.simps routed_output.simps)
qed simp

text \<open>What routing does to the offline queue of one client.\<close>

lemma queue_route_step:
  "message_queue (clients (snd (route_step C s (p, w))) sid) = message_queue (clients w sid) @
     (if sub_session s = sid \<and> client_alive w sid \<and> \<not> connected (clients w sid) \<and> 0 < hdr_qos (header p)
      then [p] else [])"
  by (auto simp: Let_def live_def push_to_def pushDataToSend_def keep_copy_def scheduleRetransmission_def
      storeMessage_def frame_simps split: option.split)

lemma queue_fold_route:
  assumes "\<forall>s \<in> set subs. live w (sub_session s) \<longrightarrow> hdr_qos (header p) \<le> sub_qos s"
    and "client_alive w sid" and "\<not> connected (clients w sid)" and "0 < hdr_qos (header p)"
  shows "message_queue (clients (snd (fold (route_step C) subs (p, w))) sid) =
    message_queue (clients w sid) @ replicate (length (filter (\<lambda>s. sub_session s = sid) subs)) p"
  using assms
proof (induction subs arbitrary: w)
  case (Cons s ss)
  obtain p' w' where r: "route_step C s (p, w) = (p', w')" by (cases "route_step C s (p, w)")
  have p': "p' = p" using r Cons.prems(1) by (auto simp: Let_def min_absorb1 split: if_splits)
  have "delivers w w'" using delivers_route_step r by (metis snd_conv)
  note d = delivers_live [OF this]
  have c: "connected (clients w' sid) = connected (clients w sid)"
    using d(1,2) [of sid] Cons.prems(2) by (simp add: live_def)
  have q: "message_queue (clients w' sid) =
      message_queue (clients w sid) @ (if sub_session s = sid then [p] else [])"
    using queue_route_step [of C s p w sid] r Cons.prems by simp
  show ?case
    using Cons.IH [of w'] Cons.prems r p' q c
    by (simp add: d del: route_step.simps)
qed simp

lemma queue_fold_route_none:
  assumes "client_alive w sid \<longrightarrow> connected (clients w sid) \<or> hdr_qos (header p) = 0"
  shows "message_queue (clients (snd (fold (route_step C) subs (p, w))) sid) = message_queue (clients w sid)"
  using assms
proof (induction subs arbitrary: p w)
  case (Cons s ss)
  obtain p' w' where r: "route_step C s (p, w) = (p', w')" by (cases "route_step C s (p, w)")
  have "delivers w w'" using delivers_route_step r by (metis snd_conv)
  note d = delivers_live [OF this]
  have c: "client_alive w sid \<Longrightarrow> connected (clients w' sid) = connected (clients w sid)"
    using d(1,2) [of sid] by (simp add: live_def)
  have "hdr_qos (header p) = 0 \<Longrightarrow> hdr_qos (header p') = 0"
    using r by (auto simp: Let_def split: if_splits)
  then show ?case
    using Cons.IH [of w' p'] Cons.prems r c queue_route_step [of C s p w sid]
    by (auto simp: d simp del: route_step.simps)
qed simp

text \<open>The QoS a packet still has when the \<open>i\<close>-th subscription is served, and what a client is queued of it.\<close>

definition qos_before :: "world \<Rightarrow> Packet \<Rightarrow> Subscription list \<Rightarrow> nat \<Rightarrow> u8" where
  "qos_before w p subs i =
     fold (\<lambda>s q. min q (sub_qos s)) (filter (\<lambda>s. live w (sub_session s)) (take i subs)) (hdr_qos (header p))"

definition queued_copies :: "world \<Rightarrow> Packet \<Rightarrow> Subscription list \<Rightarrow> nat \<Rightarrow> Packet list" where
  "queued_copies w p subs sid =
     concat (map (\<lambda>i. if sub_session (subs ! i) = sid \<and> 0 < qos_before w p subs i
                     then [with_qos (qos_before w p subs i) p] else []) [0..<length subs])"

lemma with_qos_twice [simp]: "with_qos q (with_qos r p) = with_qos q p" "hdr_qos (header (with_qos q p)) = q"
  by (simp_all add: with_qos_def)

lemma queued_copies_Cons:
  "queued_copies w p (s # ss) sid =
     (if sub_session s = sid \<and> 0 < hdr_qos (header p) then [p] else []) @
     queued_copies w (if live w (sub_session s) then with_qos (min (hdr_qos (header p)) (sub_qos s)) p else p) ss sid"
proof -
  have up: "[0..<length (s # ss)] = 0 # map Suc [0..<length ss]" by (simp add: upt_conv_Cons map_Suc_upt del: upt_Suc)
  have "with_qos (hdr_qos (header p)) p = p" by (simp add: with_qos_same)
  then show ?thesis
    unfolding queued_copies_def up by (simp add: o_def qos_before_def cong: if_cong)
qed

lemma queued_copies_live:
  assumes "\<And>s. live w' s = live w s" shows "queued_copies w' p ss sid = queued_copies w p ss sid"
proof -
  have "qos_before w' = qos_before w" by (simp add: qos_before_def fun_eq_iff assms)
  then show ?thesis by (simp add: queued_copies_def cong: if_cong)
qed

lemma queue_fold_route_exact:
  assumes "client_alive w sid" and "\<not> connected (clients w sid)"
  shows "message_queue (clients (snd (fold (route_step C) subs (p, w))) sid) =
    message_queue (clients w sid) @ queued_copies w p subs sid"
  using assms
proof (induction subs arbitrary: p w)
  case Nil
  then show ?case by (simp add: queued_copies_def)
next
  case (Cons s ss)
  obtain p' w' where r: "route_step C s (p, w) = (p', w')" by (cases "route_step C s (p, w)")
  have "delivers w w'" using delivers_route_step r by (metis snd_conv)
  note d = delivers_live [OF this]
  have "queued_copies w' p' ss sid = queued_copies w p' ss sid" by (rule queued_copies_live) (rule d)
  moreover have "p' = (if live w (sub_session s) then with_qos (min (hdr_qos (header p)) (sub_qos s)) p else p)"
    using r by (auto simp: Let_def split: if_splits)
  moreover have "connected (clients w' sid) = connected (clients w sid)"
    using d(1,2) [of sid] Cons.prems by (simp add: live_def)
  moreover have "message_queue (clients w' sid) = message_queue (clients w sid) @
      (if sub_session s = sid \<and> 0 < hdr_qos (header p) then [p] else [])"
    using queue_route_step [of C s p w sid] r Cons.prems by simp
  ultimately show ?case
    using Cons.IH [of w' p'] Cons.prems r by (simp add: d queued_copies_Cons del: route_step.simps)
qed

definition sample_publish :: "u8 \<Rightarrow> Packet" where
  "sample_publish q =
     \<lparr>header = \<lparr>hdr_type = PUBLISH, hdr_dup = False, hdr_qos = q, hdr_retain = False\<rparr>, pkt_len = 9,
      pkt = VPublish \<lparr>pub_topic = ''/a'', pub_packet_id = 9, pub_payload = [1]\<rparr>\<rparr>"

lemma sample_publish_ok [simp]:
  "pub_ok (sample_publish q)" "hdr_qos (header (sample_publish q)) = q"
  "the_pub (sample_publish q) = \<lparr>pub_topic = ''/a'', pub_packet_id = 9, pub_payload = [1]\<rparr>"
  "pkt_len (sample_publish q) = 9" "with_qos q' (sample_publish q) = sample_publish q'"
  by (simp_all add: pub_ok_def the_pub_def with_qos_def sample_publish_def)

subsection \<open>Properties\<close>

text \<open>A PUBLISH of QoS 0 is written exactly once for every subscription found whose session exists, is
  connected and has a transport, in the order \<open>match\<close> gives them, and nothing else changes but the
  nodes \<open>match\<close> adds: no packet is kept, queued or scheduled, and nobody else is sent anything.\<close>

lemma qos0_routing_exact:
  assumes "pub_ok p" and "hdr_qos (header p) = 0"
    and "tree_match (pub_topic (the_pub p)) (m_topicTree w) = (tree, subs)"
  shows "routePacket C p cs w =
    Inr (p, w\<lparr>m_topicTree := tree, sent := sent w @ concat (map (\<lambda>s.
      if client_alive w (sub_session s) \<and> connected (clients w (sub_session s))
      then case lock_transport w (cs_session (clients w (sub_session s))) of
             Some tid \<Rightarrow> [(tid, publish_bytes C p)] | None \<Rightarrow> []
      else []) subs)\<rparr>)"
proof -
  let ?w = "w\<lparr>m_topicTree := tree\<rparr>"
  have "lock_transport ?w t = lock_transport w t" for t by (rule lock_transport_cong) simp_all
  then have "qos0_output C p ?w subs = qos0_output C p w subs"
    by (simp add: qos0_output_def live_def client_alive_def cong: if_cong)
  then have "routePacket C p cs w =
      Inr (p, w\<lparr>m_topicTree := tree, sent := sent w @ qos0_output C p w subs\<rparr>)"
    using fold_route_qos0 [OF assms(2), of C subs ?w] assms(3) by (simp add: routePacket_fold [OF assms(1)])
  then show ?thesis by (simp only: qos0_output_def live_def)
qed

text \<open>C12: The QoS of a packet that is routed to several subscribers only goes down. Each live subscriber is
  sent the minimum of the packet's QoS and of the subscriptions served before it, its own included, so
  a subscriber of QoS 0 or 1 downgrades the delivery to all those after it; every packet of PUBLISH
  type is routed without a fault.\<close>

theorem routing_lowers_qos:
  assumes "pub_ok p" and "tree_match (pub_topic (the_pub p)) (m_topicTree w) = (tree, subs)"
  shows "\<exists>p' w'. routePacket C p cs w = Inr (p', w') \<and> sent w' = sent w @ routed_output C p w subs \<and>
    hdr_qos (header p') =
      fold (\<lambda>s q. min q (sub_qos s)) (filter (\<lambda>s. live w (sub_session s)) subs) (hdr_qos (header p))"
proof -
  let ?w = "w\<lparr>m_topicTree := tree\<rparr>"
  have l: "live ?w sid = live w sid" for sid by (simp add: live_def client_alive_def)
  have "lock_transport ?w t = lock_transport w t" for t by (rule lock_transport_cong) simp_all
  then have "routed_output C q ?w ss = routed_output C q w ss" for q ss
    by (induction ss arbitrary: q) (simp_all add: l Let_def)
  then show ?thesis
    using sent_fold_route [of C subs p ?w] fold_route_qos [of C subs p ?w] assms(2)
    by (cases "fold (route_step C) subs (p, ?w)") (simp add: routePacket_fold [OF assms(1)] l)
qed

theorem routing_lowers_qos_witness:
  "\<exists>p' w'. routePacket ref_core (sample_publish 2) None (sample_world True 1000) = Inr (p', w') \<and>
     sent w' = [(0, publish_bytes ref_core (sample_publish 1)), (1, publish_bytes ref_core (sample_publish 1))]"
  using routing_lowers_qos [of "sample_publish 2" "sample_world True 1000" sample_topics _ ref_core None]
  by (auto simp: match_sample_topics live_def client_alive_def lock_transport_def transport_alive_def Let_def)

text \<open>C22: The offline queue of a client, exactly. For each subscription of a registered client that is not
  connected, in the order \<open>match\<close> gives, the packet is appended to its queue with the QoS that the live
  subscribers served before have left it, and not at all once that is 0, so a connected subscriber of
  QoS 0 that comes first keeps the packet from all offline clients behind it. When no live subscriber
  lowers the QoS it is appended unchanged, once for each subscription; the queue of a client marked
  connected never changes, also when its transport is gone and nothing can be sent to it.\<close>

theorem offline_queue_exact:
  assumes "pub_ok p" and "tree_match (pub_topic (the_pub p)) (m_topicTree w) = (tree, subs)"
    and "routePacket C p cs w = Inr (p', w')"
  shows "message_queue (clients w' sid) = message_queue (clients w sid) @
      (if client_alive w sid \<and> \<not> connected (clients w sid) then concat (map (\<lambda>i.
         let q = fold (\<lambda>s q. min q (sub_qos s)) (filter (\<lambda>s. live w (sub_session s)) (take i subs)) (hdr_qos (header p))
         in if sub_session (subs ! i) = sid \<and> 0 < q then [with_qos q p] else []) [0..<length subs])
       else []) \<and>
    (client_alive w sid \<and> \<not> connected (clients w sid) \<and> 0 < hdr_qos (header p) \<and>
        (\<forall>s \<in> set subs. live w (sub_session s) \<longrightarrow> hdr_qos (header p) \<le> sub_qos s) \<longrightarrow>
      message_queue (clients w' sid) =
        message_queue (clients w sid) @ replicate (length (filter (\<lambda>s. sub_session s = sid) subs)) p) \<and>
    (connected (clients w sid) \<or> hdr_qos (header p) = 0 \<longrightarrow>
      message_queue (clients w' sid) = message_queue (clients w sid))"
proof -
  let ?w = "w\<lparr>m_topicTree := tree\<rparr>"
  have l: "live ?w s = live w s" "client_alive ?w s = client_alive w s" for s
    by (simp_all add: live_def client_alive_def)
  have w': "w' = snd (fold (route_step C) subs (p, ?w))"
    using assms(2,3) by (simp add: routePacket_fold [OF assms(1)])
  have "queued_copies ?w p subs sid = queued_copies w p subs sid" by (rule queued_copies_live) (rule l)
  then have "message_queue (clients w' sid) = message_queue (clients w sid) @
      (if client_alive w sid \<and> \<not> connected (clients w sid) then queued_copies w p subs sid else [])"
    using queue_fold_route_exact [of ?w sid C subs p] queue_fold_route_none [of ?w sid p C subs]
    unfolding w' by (auto simp: l)
  then show ?thesis
    using queue_fold_route [of subs ?w p sid C] queue_fold_route_none [of ?w sid p C subs]
    unfolding w' by (simp add: l queued_copies_def [unfolded qos_before_def] Let_def cong: if_cong)
qed

theorem offline_queue_exact_witness:
  "\<exists>p' w'. routePacket ref_core (sample_publish 1) None
       (upd_client 1 (\<lambda>c. c\<lparr>connected := False\<rparr>) (sample_world True 1000)) = Inr (p', w') \<and>
     message_queue (clients w' 1) = [sample_publish 1] \<and> message_queue (clients w' 0) = []"
proof -
  let ?w = "upd_client 1 (\<lambda>c. c\<lparr>connected := False\<rparr>) (sample_world True 1000)"
  have m: "tree_match (pub_topic (the_pub (sample_publish 1))) (m_topicTree ?w) =
      (sample_topics, [\<lparr>sub_session = 0, sub_qos = 1\<rparr>, \<lparr>sub_session = 1, sub_qos = 2\<rparr>])"
    by (simp add: frame_simps match_sample_topics)
  obtain p' w' where r: "routePacket ref_core (sample_publish 1) None ?w = Inr (p', w')"
    unfolding routePacket_fold [OF sample_publish_ok(1)] by (metis prod.exhaust)
  show ?thesis
    using r offline_queue_exact [OF _ m r, of 1] offline_queue_exact [OF _ m r, of 0]
    by (auto simp: client_alive_def live_def frame_simps)
qed

text \<open>C16: \<open>processRetransmissions\<close> always returns, without a fault, although routing a packet again pushes
  new entries on the heap it works on: those lie 5 s in the future. It leaves nothing to do at its top,
  and the clients' ids, connection state and acknowledgement maps, the registry, the transports and the
  subscriptions are as they were; packets are only added to in-flight maps, queues and the output.\<close>

theorem retransmission_terminates:
  assumes "world_inv w"
  shows "\<exists>w'. processRetransmissions C w = Some (Inr w') \<and> world_inv w' \<and>
    retransmit_ready (now_ms w) w' = None \<and> m_sessionRegistry w' = m_sessionRegistry w \<and>
    m_sessions w' = m_sessions w \<and> look (m_topicTree w') = look (m_topicTree w) \<and>
    prefix (sent w) (sent w') \<and> (\<forall>sid. client_grows (clients w sid) (clients w' sid))"
  using processRetransmissions_ok [OF assms, of C] unfolding keeps_def by blast

theorem retransmission_terminates_witness:
  "\<exists>w'. processRetransmissions ref_core
       ((sample_world True 9000)\<lparr>m_retransmitHeap :=
          [\<lparr>re_retry_ms = 6000, re_packet_id = 2, re_packet_type = PUBLISH, re_session = 0\<rparr>]\<rparr>) =
     Some (Inr w')"
proof -
  let ?w = "(sample_world True 9000)\<lparr>m_retransmitHeap :=
      [\<lparr>re_retry_ms = 6000, re_packet_id = 2, re_packet_type = PUBLISH, re_session = 0\<rparr>]\<rparr>"
  have "world_inv ?w"
    using sample_world_inv [of 9000 True] by (simp add: world_inv_def inv_defs)
  from retransmission_terminates [OF this] show ?thesis by blast
qed

text \<open>C30: One acknowledged packet stops all retransmission. While the entry with the least retry time is
  for a packet that is no longer in flight, or for a session that is gone, \<open>processRetransmissions\<close> does
  nothing at any later time, whatever other entries are due behind it.\<close>

theorem retransmission_head_of_line:
  assumes "pq_top re_retry_ms (m_retransmitHeap w) = Some e" and "re_packet_type e = PUBLISH"
    and "client_alive w (re_session e) \<longrightarrow>
      map_of (inflight (clients w (re_session e))) (re_packet_id e) = None"
  shows "processRetransmissions C (w\<lparr>now_ms := t\<rparr>) = Some (Inr (w\<lparr>now_ms := t\<rparr>))"
proof -
  have "client_alive (w\<lparr>now_ms := t\<rparr>) s = client_alive w s" for s by (simp add: client_alive_def)
  then have "retransmit_ready t (w\<lparr>now_ms := t\<rparr>) = None"
    using assms by (auto simp: retransmit_ready_def getPacket_def Packet_default_def)
  then show ?thesis using processRetransmissions_blocked [of "w\<lparr>now_ms := t\<rparr>"] by simp
qed

theorem retransmission_head_of_line_witness:
  "processRetransmissions ref_core ((sample_world True 1000)\<lparr>m_retransmitHeap :=
      [\<lparr>re_retry_ms = 6000, re_packet_id = 2, re_packet_type = PUBLISH, re_session = 0\<rparr>,
       \<lparr>re_retry_ms = 7000, re_packet_id = 2, re_packet_type = PUBLISH, re_session = 1\<rparr>],
      now_ms := 9000\<rparr>) =
   Some (Inr ((sample_world True 1000)\<lparr>m_retransmitHeap :=
      [\<lparr>re_retry_ms = 6000, re_packet_id = 2, re_packet_type = PUBLISH, re_session = 0\<rparr>,
       \<lparr>re_retry_ms = 7000, re_packet_id = 2, re_packet_type = PUBLISH, re_session = 1\<rparr>],
      now_ms := 9000\<rparr>))"
  by (rule retransmission_head_of_line [where e = "\<lparr>re_retry_ms = 6000, re_packet_id = 2,
      re_packet_type = PUBLISH, re_session = 0\<rparr>"]) simp_all

text \<open>C29: The copy kept for retransmission cannot be found. For a QoS of 1 or 2 \<open>sendToClient\<close> allocates
  an id for the subscriber and schedules a retransmission under it, but stores the packet under the
  publisher's id, where it does not replace a packet of that id. When the two ids differ and the
  allocated one is not in use by the subscriber, the scheduled entry finds no packet, and the
  subscriber's acknowledgement of the id it should have been sent removes none.\<close>

theorem sent_copy_not_found:
  assumes "pub_ok p" and "0 < hdr_qos (header p)"
    and "k = fst (allocatePacketId (clients w sid))" and "k \<noteq> pub_packet_id (the_pub p)"
    and "map_of (inflight (clients w sid)) k = None"
  shows "\<exists>w'. sendToClient C (Some sid) p w = Inr w' \<and>
    last (m_retransmitHeap w') =
      \<lparr>re_retry_ms = now_ms w + 5000, re_packet_id = k, re_packet_type = PUBLISH, re_session = sid\<rparr> \<and>
    getPacket k PUBLISH (clients w' sid) = Packet_default \<and>
    map_of (inflight (clients w' sid)) = (map_of (inflight (clients w sid)))
      (pub_packet_id (the_pub p) \<mapsto> case map_of (inflight (clients w sid)) (pub_packet_id (the_pub p)) of
         None \<Rightarrow> p | Some q \<Rightarrow> q) \<and>
    inflight (snd (removeFromInflight k (clients w' sid))) = inflight (clients w' sid)"
proof -
  let ?v = "keep_copy p sid w"
  let ?w = "push_to (lock_transport w (cs_session (clients w sid))) (publish_bytes C p) ?v"
  have k: "next_packet_id (alloc_next (clients w sid)) = k"
    using assms(3) by (simp add: fst_allocatePacketId)
  have c: "clients ?w = clients ?v" "m_retransmitHeap ?w = m_retransmitHeap ?v"
    by (simp_all add: push_to_def pushDataToSend_def split: option.split)
  have i: "inflight (clients ?v sid) = um_insert (pub_packet_id (the_pub p)) p (inflight (clients w sid))"
    using assms(2) by (simp add: keep_copy_def scheduleRetransmission_def frame_simps Let_def)
  have "last (m_retransmitHeap ?v) =
      \<lparr>re_retry_ms = now_ms w + 5000, re_packet_id = k, re_packet_type = PUBLISH, re_session = sid\<rparr>"
    using assms(2) by (simp add: keep_copy_def scheduleRetransmission_def pq_push_def frame_simps k Let_def)
  moreover have none: "map_of (inflight (clients ?v sid)) k = None"
    using assms(4,5) by (simp add: i map_of_um_insert)
  moreover from none have "getPacket k PUBLISH (clients ?v sid) = Packet_default"
    by (simp add: getPacket_def)
  moreover from none have "removeFromInflight k (clients ?v sid) = (Packet_default, clients ?v sid)"
    by (simp add: removeFromInflight_def)
  ultimately show ?thesis
    using sendToClient_publish [OF assms(1), of C sid w] c
    by (auto simp: i map_of_um_insert fun_eq_iff split: option.split)
qed

theorem sent_copy_not_found_witness:
  "\<exists>w'. sendToClient ref_core (Some 0) (sample_publish 1) (sample_world True 1000) = Inr w' \<and>
     getPacket 2 PUBLISH (clients w' 0) = Packet_default \<and> m_retransmitHeap w' \<noteq> []"
proof -
  have "fst (allocatePacketId (sample_client True)) = 2"
    by (simp add: allocatePacketId_def)
  with sent_copy_not_found [of "sample_publish 1" 2 "sample_world True 1000" 0 ref_core] show ?thesis
    by (auto simp: sendToClient_publish push_to_def pushDataToSend_def keep_copy_def
        scheduleRetransmission_def pq_push_def Let_def split: option.split)
qed

end
