(* ===== verification/Keep_Alive.thy ===== *)
theory Keep_Alive
  imports Sample_State
begin

text \<open>
  The keep-alive timers: proofs about \<open>getNextTimeoutMs\<close> and \<open>processExpiredSessions\<close> of \<open>Sessions\<close>.
  When the scan of the expiry heap returns, which sessions it collects, and what the two loops after
  it do to them.
\<close>

interpretation expiry_heap: priority_queue ee_expiry_ms pq_push "pq_top ee_expiry_ms"
    "pq_pop ee_expiry_ms" mset
  by (rule priority_queue_model)

subsection \<open>The poll timeout\<close>

lemma getNextTimeoutMs_eq:
  assumes "heaps_inv w"
  shows "getNextTimeoutMs w =
    (if m_expiryHeap w = [] then - 1
     else max 0 (Min (ee_expiry_ms ` set (m_expiryHeap w)) - now_ms w))"
proof (cases "pq_top ee_expiry_ms (m_expiryHeap w)")
  case None
  then show ?thesis by (simp add: getNextTimeoutMs_def pq_top_None)
next
  case (Some e)
  then have ne: "m_expiryHeap w \<noteq> []" by (auto simp: pq_top_None [symmetric])
  have m: "Min (ee_expiry_ms ` set (m_expiryHeap w)) = ee_expiry_ms e"
    by (rule Min_eqI) (use pq_top_in [OF Some] pq_top_le [OF Some] in auto)
  have "ee_expiry_ms e - now_ms w \<le> 65535 * 1500"
    using assms pq_top_in [OF Some] by (fastforce simp: heaps_inv_def)
  then have "0 \<le> ee_expiry_ms e - now_ms w \<Longrightarrow>
      c_int (word_of_int (ee_expiry_ms e - now_ms w)) = ee_expiry_ms e - now_ms w"
    by (intro c_int_of_int) auto
  with ne Some show ?thesis
    by (auto simp: getNextTimeoutMs_def m Let_def max_def)
qed

subsection \<open>The scan of the heap\<close>

definition due :: "world \<Rightarrow> ExpiryEntry \<Rightarrow> bool" where
  "due w e \<longleftrightarrow> ee_expiry_ms e \<le> now_ms w"

definition overdue :: "world \<Rightarrow> nat \<Rightarrow> bool" where
  "overdue w sid \<longleftrightarrow> (\<exists>e \<in> set (m_expiryHeap w). ee_session e = sid \<and> due w e)"

definition expired :: "world \<Rightarrow> nat \<Rightarrow> bool" where
  "expired w sid \<longleftrightarrow> connected (clients w sid) \<and> deadline (clients w sid) \<le> now_ms w"

definition extended :: "world \<Rightarrow> nat \<Rightarrow> bool" where
  "extended w sid \<longleftrightarrow> now_ms w < deadline (clients w sid)"

text \<open>\<open>Q\<close> holds the entries popped so far.\<close>

definition scan_inv :: "world \<Rightarrow> expiry_scan \<Rightarrow> bool" where
  "scan_inv w s \<longleftrightarrow> (case s of (heap, td, ne) \<Rightarrow> \<exists>Q.
     mset (m_expiryHeap w) = mset heap + Q \<and> (\<forall>e \<in># Q. due w e \<and> client_alive w (ee_session e)) \<and>
     set td = {sid. expired w sid \<and> (\<exists>e \<in># Q. ee_session e = sid)} \<and>
     set ne = {sid. extended w sid \<and> (\<exists>e \<in># Q. ee_session e = sid)})"

lemma set_mset_parts: "mset xs = mset ys + Q \<Longrightarrow> set xs = set ys \<union> set_mset Q"
  by (metis set_mset_mset set_mset_union)

lemma scan_inv_init: "scan_inv w (m_expiryHeap w, [], [])"
  by (simp add: scan_inv_def)

lemma expiry_due_top:
  "expiry_due (now_ms w) (heap, td, ne) \<longleftrightarrow> (\<exists>e. pq_top ee_expiry_ms heap = Some e \<and> due w e)"
  by (auto simp: due_def not_less split: option.splits)

lemma expiry_step_alive:
  assumes "pq_top ee_expiry_ms heap = Some e" and "client_alive w (ee_session e)"
  shows "expiry_step w (heap, td, ne) =
    (pq_pop ee_expiry_ms heap,
     if expired w (ee_session e) then td @ [ee_session e] else td,
     if extended w (ee_session e) then ne @ [ee_session e] else ne)"
  using assms by (auto simp: expired_def extended_def Let_def)

lemma scan_inv_step:
  assumes "scan_inv w s" and "expiry_due (now_ms w) s"
  shows "scan_inv w (expiry_step w s)"
proof -
  obtain heap td ne where s: "s = (heap, td, ne)" by (cases s)
  from assms(2) obtain e where e: "pq_top ee_expiry_ms heap = Some e" "due w e"
    unfolding s expiry_due_top by blast
  show ?thesis
  proof (cases "client_alive w (ee_session e)")
    case True
    from assms(1) obtain Q where Q: "mset (m_expiryHeap w) = mset heap + Q"
      "\<forall>e \<in># Q. due w e \<and> client_alive w (ee_session e)"
      "set td = {sid. expired w sid \<and> (\<exists>e \<in># Q. ee_session e = sid)}"
      "set ne = {sid. extended w sid \<and> (\<exists>e \<in># Q. ee_session e = sid)}"
      by (auto simp: s scan_inv_def)
    have "mset heap = add_mset e (mset (pq_pop ee_expiry_ms heap))"
      using expiry_heap.bag_pop [OF e(1)] expiry_heap.top_in [OF e(1)] by simp
    then have "mset (m_expiryHeap w) = mset (pq_pop ee_expiry_ms heap) + add_mset e Q"
      using Q(1) by simp
    then show ?thesis
      unfolding s expiry_step_alive [OF e(1) True] scan_inv_def prod.case
      by (intro exI [of _ "add_mset e Q"]) (use Q e(2) True in auto)
  next
    case False
    then show ?thesis using assms(1) e(1) by (simp add: s)
  qed
qed

lemma expiry_scan_stops:
  assumes "\<And>e. e \<in> set (m_expiryHeap w) \<Longrightarrow> due w e \<Longrightarrow> client_alive w (ee_session e)"
  shows "expiry_scan w \<noteq> None"
proof -
  define f where "f = (\<lambda>s :: expiry_scan. size {#e \<in># mset (fst s). ee_expiry_ms e \<le> now_ms w#})"
  have "scan_inv w (expiry_step w s) \<and> f (expiry_step w s) < f s"
    if "scan_inv w s" "expiry_due (now_ms w) s" for s
  proof
    show "scan_inv w (expiry_step w s)" using that by (rule scan_inv_step)
    obtain heap td ne where s: "s = (heap, td, ne)" by (cases s)
    from that(2) obtain e where e: "pq_top ee_expiry_ms heap = Some e" "due w e"
      unfolding s expiry_due_top by blast
    have "e \<in># mset (m_expiryHeap w)"
      using that(1) expiry_heap.top_in [OF e(1)] by (auto simp: s scan_inv_def dest: set_mset_parts)
    then have "client_alive w (ee_session e)" using assms e(2) by simp
    then show "f (expiry_step w s) < f s"
      using expiry_heap.due_pop [OF e(1), of "now_ms w"] e(2)
      unfolding s expiry_step_alive [OF e(1) \<open>client_alive w (ee_session e)\<close>]
      by (simp add: f_def due_def)
  qed
  from measure_while_option_Some [where P = "scan_inv w" and f = f, OF this scan_inv_init]
  show ?thesis by (auto simp: expiry_scan_def)
qed

lemma expiry_scan_result:
  assumes "expiry_scan w = Some (heap, td, ne)"
  shows "mset heap = {#e \<in># mset (m_expiryHeap w). \<not> due w e#}"
    and "set td = {sid. overdue w sid \<and> expired w sid}"
    and "set ne = {sid. overdue w sid \<and> extended w sid}"
    and "\<forall>e \<in> set (m_expiryHeap w). due w e \<longrightarrow> client_alive w (ee_session e)"
proof -
  have "scan_inv w (heap, td, ne)"
    by (rule while_option_rule [where P = "scan_inv w", OF _ assms [unfolded expiry_scan_def] scan_inv_init])
      (rule scan_inv_step)
  then obtain Q where Q: "mset (m_expiryHeap w) = mset heap + Q"
      "\<forall>e \<in># Q. due w e \<and> client_alive w (ee_session e)"
      "set td = {sid. expired w sid \<and> (\<exists>e \<in># Q. ee_session e = sid)}"
      "set ne = {sid. extended w sid \<and> (\<exists>e \<in># Q. ee_session e = sid)}"
    by (auto simp: scan_inv_def)
  have "\<not> expiry_due (now_ms w) (heap, td, ne)"
    using while_option_stop [OF assms [unfolded expiry_scan_def]] .
  then have stop: "\<not> due w e" if "e \<in># mset heap" for e
    using that expiry_heap.due_iff_top [of heap "now_ms w"] unfolding expiry_due_top due_def by blast
  have fQ: "{#e \<in># Q. \<not> due w e#} = {#}" and fh: "{#e \<in># mset heap. \<not> due w e#} = mset heap"
    using Q(2) stop by (simp_all add: filter_mset_eq_conv)
  show "mset heap = {#e \<in># mset (m_expiryHeap w). \<not> due w e#}" by (simp add: Q(1) fQ fh)
  have "set (m_expiryHeap w) = set heap \<union> set_mset Q"
    using set_mset_parts [OF Q(1)] .
  then have "overdue w sid \<longleftrightarrow> (\<exists>e \<in># Q. ee_session e = sid)" for sid
    using Q(2) stop by (auto simp: overdue_def)
  with Q(3,4) show "set td = {sid. overdue w sid \<and> expired w sid}"
    "set ne = {sid. overdue w sid \<and> extended w sid}" by auto
  show "\<forall>e \<in> set (m_expiryHeap w). due w e \<longrightarrow> client_alive w (ee_session e)"
    using \<open>set (m_expiryHeap w) = _\<close> Q(2) stop by auto
qed

lemma expiry_scan_returns_iff:
  "expiry_scan w \<noteq> None \<longleftrightarrow>
     (\<forall>e \<in> set (m_expiryHeap w). due w e \<longrightarrow> client_alive w (ee_session e))"
  using expiry_scan_stops [of w] expiry_scan_result(4) [of w] by (metis not_None_eq prod_cases3)


subsection \<open>Disconnecting and rescheduling\<close>

text \<open>
  What the two loops after the scan leave alone: timers, identities and delivery state. They only
  take transports, registrations and the \<open>connected\<close> flag away.
\<close>

definition same_client :: "ClientSession \<Rightarrow> ClientSession \<Rightarrow> bool" where
  "same_client c c' \<longleftrightarrow>
     c' = c\<lparr>connected := connected c', expiry_ms := expiry_ms c'\<rparr> \<and> (connected c' \<longrightarrow> connected c)"

definition only_removes :: "world \<Rightarrow> world \<Rightarrow> bool" where
  "only_removes w w' \<longleftrightarrow>
     next_sid w' = next_sid w \<and> transports w' = transports w \<and> next_tid w' = next_tid w \<and>
     held w' = held w \<and> m_topicTree w' = m_topicTree w \<and>
     m_retransmitHeap w' = m_retransmitHeap w \<and> now_ms w' = now_ms w \<and> sent w' = sent w \<and>
     (\<forall>sid. same_client (clients w sid) (clients w' sid)) \<and>
     (\<forall>fd t. map_of (m_sessions w') fd = Some t \<longrightarrow> map_of (m_sessions w) fd = Some t) \<and>
     (\<forall>c sid. map_of (m_sessionRegistry w') c = Some sid \<longrightarrow> map_of (m_sessionRegistry w) c = Some sid)"

lemma same_client_refl [simp]: "same_client c c"
  by (simp add: same_client_def)

lemma same_client_trans: "same_client a b \<Longrightarrow> same_client b c \<Longrightarrow> same_client a c"
  by (cases a; cases b; cases c; simp add: same_client_def)

lemma only_removes_refl [simp]: "only_removes w w"
  by (simp add: only_removes_def)

lemma only_removes_trans:
  assumes "only_removes a b" and "only_removes b c" shows "only_removes a c"
proof -
  have "same_client (clients a sid) (clients c sid)" for sid
    using assms same_client_trans unfolding only_removes_def by blast
  with assms show ?thesis by (simp add: only_removes_def)
qed

lemma only_removes_client:
  assumes "only_removes w w'"
  shows "client_id (clients w' sid) = client_id (clients w sid)"
    "cs_session (clients w' sid) = cs_session (clients w sid)"
    "cleansession (clients w' sid) = cleansession (clients w sid)"
    "keep_alive (clients w' sid) = keep_alive (clients w sid)"
    "deadline (clients w' sid) = deadline (clients w sid)"
    "connected (clients w' sid) \<Longrightarrow> connected (clients w sid)"
proof -
  have "same_client (clients w sid) (clients w' sid)"
    using assms by (simp add: only_removes_def)
  then show "client_id (clients w' sid) = client_id (clients w sid)"
    "cs_session (clients w' sid) = cs_session (clients w sid)"
    "cleansession (clients w' sid) = cleansession (clients w sid)"
    "keep_alive (clients w' sid) = keep_alive (clients w sid)"
    "deadline (clients w' sid) = deadline (clients w sid)"
    "connected (clients w' sid) \<Longrightarrow> connected (clients w sid)"
    by (cases "clients w sid"; cases "clients w' sid"; simp add: same_client_def deadline_def)+
qed

lemma only_removes_upd_client:
  "same_client (clients w sid) (f (clients w sid)) \<Longrightarrow> only_removes w (upd_client sid f w)"
  by (simp add: only_removes_def frame_simps)

lemma only_removes_forceDisconnect: "only_removes w (forceDisconnect t w)"
  by (auto simp: only_removes_def forceDisconnect_def removeSession_def map_of_um_erase split: if_splits)

lemma only_removes_removeFromRegistry: "only_removes w (removeFromRegistry c w)"
  by (auto simp: only_removes_def removeFromRegistry_def map_of_um_erase split: if_splits)

lemma same_client_disconnect: "same_client c (c\<lparr>connected := False\<rparr>)"
  by (simp add: same_client_def)

lemma same_client_expiry: "same_client c (c\<lparr>expiry_ms := t\<rparr>)"
  by (simp add: same_client_def)

lemma only_removes_disconnect_expired: "only_removes w (disconnect_expired sid w)"
proof (cases "lock_transport w (cs_session (clients w sid))")
  case (Some t)
  let ?w = "forceDisconnect t w"
  have "only_removes ?w (if cleansession (clients ?w sid) then removeFromRegistry (client_id (clients ?w sid)) ?w
      else upd_client sid (\<lambda>c. c\<lparr>connected := False\<rparr>) ?w)"
    by (simp add: only_removes_removeFromRegistry only_removes_upd_client same_client_disconnect)
  from only_removes_trans [OF only_removes_forceDisconnect this] Some show ?thesis
    by (simp add: disconnect_expired_def Let_def)
qed (simp add: disconnect_expired_def)

lemma only_removes_scheduleExpiry: "only_removes w (scheduleExpiry sid w)"
proof -
  have "only_removes w (upd_client sid (\<lambda>c. c\<lparr>expiry_ms := t\<rparr>) w)" for t
    by (intro only_removes_upd_client same_client_expiry)
  then show ?thesis by (simp add: scheduleExpiry_def Let_def only_removes_def)
qed

lemma only_removes_fold:
  "(\<And>x w. only_removes w (f x w)) \<Longrightarrow> only_removes w (fold f xs w)"
  by (induction xs arbitrary: w) (auto intro: only_removes_trans)

lemmas only_removes_folds =
  only_removes_fold [where f = disconnect_expired, OF only_removes_disconnect_expired]
  only_removes_fold [where f = scheduleExpiry, OF only_removes_scheduleExpiry]

lemma disconnect_expired_heap: "m_expiryHeap (fold disconnect_expired sids w) = m_expiryHeap w"
proof (induction sids arbitrary: w)
  case (Cons sid sids)
  have "m_expiryHeap (disconnect_expired sid w) = m_expiryHeap w"
    by (auto simp: disconnect_expired_def forceDisconnect_def removeSession_def removeFromRegistry_def
        Let_def frame_simps split: option.split)
  with Cons show ?case by simp
qed simp

lemma scheduleExpiry_other:
  "m_sessions (scheduleExpiry sid w) = m_sessions w"
  "m_sessionRegistry (scheduleExpiry sid w) = m_sessionRegistry w"
  "connected (clients (scheduleExpiry sid w) s) = connected (clients w s)"
  by (simp_all add: scheduleExpiry_def Let_def frame_simps)

lemma fold_scheduleExpiry_other:
  "m_sessions (fold scheduleExpiry sids w) = m_sessions w"
  "m_sessionRegistry (fold scheduleExpiry sids w) = m_sessionRegistry w"
  "connected (clients (fold scheduleExpiry sids w) s) = connected (clients w s)"
  by (induction sids arbitrary: w) (simp_all add: scheduleExpiry_other)

lemma fold_scheduleExpiry_heap:
  "m_expiryHeap (fold scheduleExpiry sids w) =
     m_expiryHeap w @ map (\<lambda>sid. \<lparr>ee_expiry_ms = deadline (clients w sid), ee_session = sid\<rparr>)
       (filter (\<lambda>sid. keep_alive (clients w sid) \<noteq> 0) sids)"
proof (induction sids arbitrary: w)
  case (Cons sid sids)
  note f = only_removes_client [OF only_removes_scheduleExpiry, of sid w]
  show ?case
    using Cons.IH [of "scheduleExpiry sid w"]
    by (simp add: f) (simp add: scheduleExpiry_def pq_push_def Let_def frame_simps)
qed simp

text \<open>The transports and registrations a disconnection round takes away, and the ones it must.\<close>

lemma forceDisconnect_dead:
  assumes "transports_inv w"
  shows "\<forall>fd. map_of (m_sessions (forceDisconnect t w)) fd \<noteq> Some t"
  using assms
  by (auto simp: transports_inv_def forceDisconnect_def removeSession_def map_of_um_erase split: if_splits)

lemma disconnect_expired_transports:
  "map_of (m_sessions (disconnect_expired sid w)) fd =
     (case lock_transport w (cs_session (clients w sid)) of
        None \<Rightarrow> map_of (m_sessions w) fd
      | Some t \<Rightarrow> if fd = ms_fd (transports w t) then None else map_of (m_sessions w) fd)"
  by (auto simp: disconnect_expired_def forceDisconnect_def removeSession_def removeFromRegistry_def
      Let_def frame_simps map_of_um_erase split: option.split)

lemma transports_inv_disconnect:
  "transports_inv w \<Longrightarrow> transports_inv (disconnect_expired a w)"
  by (auto simp: transports_inv_def disconnect_expired_def forceDisconnect_def removeSession_def
      removeFromRegistry_def Let_def frame_simps map_of_um_erase set_um_erase split: option.split)

lemma transport_alive_iff:
  assumes "transports_inv w"
  shows "transport_alive w t \<longleftrightarrow> t \<in> set (held w) \<or> map_of (m_sessions w) (ms_fd (transports w t)) = Some t"
proof -
  have ok: "um_ok (m_sessions w)" "map_of (m_sessions w) fd = Some t \<Longrightarrow> ms_fd (transports w t) = fd" for fd
    using assms by (simp_all add: transports_inv_def)
  have "t \<in> snd ` set (m_sessions w) \<longleftrightarrow> (\<exists>fd. map_of (m_sessions w) fd = Some t)"
    using ok(1) by (force dest: map_of_SomeD)
  with ok(2) show ?thesis by (auto simp: transport_alive_def)
qed

text \<open>
  A transport that is taken away has the descriptor of the transport of a session of the list; it is
  that transport, unless a task still holds the other one.
\<close>

lemma fold_disconnect_removed:
  assumes "map_of (m_sessions w) fd = Some t" and "map_of (m_sessions (fold disconnect_expired sids w)) fd = None"
    and "transports_inv w"
  shows "\<exists>sid \<in> set sids. \<exists>t'. cs_session (clients w sid) = Some t' \<and> ms_fd (transports w t') = fd \<and>
    (t' = t \<or> t' \<in> set (held w))"
  using assms
proof (induction sids arbitrary: w)
  case (Cons sid sids)
  let ?w = "disconnect_expired sid w"
  note keep = only_removes_client(2) [OF only_removes_disconnect_expired, of sid w]
  have tr: "transports ?w = transports w" "held ?w = held w"
    using only_removes_disconnect_expired by (simp_all add: only_removes_def)
  show ?case
  proof (cases "map_of (m_sessions ?w) fd")
    case None
    then obtain t' where t': "lock_transport w (cs_session (clients w sid)) = Some t'" "ms_fd (transports w t') = fd"
      using Cons.prems(1) disconnect_expired_transports [of sid w fd] by (auto split: option.splits if_splits)
    then have c: "cs_session (clients w sid) = Some t'" "transport_alive w t'"
      by (auto simp: lock_transport_def split: option.splits if_splits)
    have "t' = t \<or> t' \<in> set (held w)"
      using c(2) t'(2) Cons.prems(1) by (auto simp: transport_alive_iff [OF Cons.prems(3)])
    with t'(2) c(1) show ?thesis by auto
  next
    case (Some t'')
    have "map_of (m_sessions ?w) fd = map_of (m_sessions w) fd"
      using Some disconnect_expired_transports [of sid w fd] by (auto split: option.splits if_splits)
    with Cons.IH [of ?w] Cons.prems transports_inv_disconnect [of w sid] show ?thesis
      by (auto simp: only_removes_client(2) [OF only_removes_disconnect_expired] tr)
  qed
qed simp

lemma only_removes_sessions:
  "only_removes w w' \<Longrightarrow> \<forall>fd. map_of (m_sessions w) fd \<noteq> Some t \<Longrightarrow> map_of (m_sessions w') fd \<noteq> Some t"
  unfolding only_removes_def by blast

lemma fold_disconnect_closes:
  assumes "transports_inv w" and "sid \<in> set sids" and "cs_session (clients w sid) = Some t"
  shows "map_of (m_sessions (fold disconnect_expired sids w)) fd \<noteq> Some t"
  using assms
proof (induction sids arbitrary: w)
  case (Cons a sids)
  let ?w = "disconnect_expired a w"
  show ?case
  proof (cases "a = sid")
    case True
    have "\<forall>fd. map_of (m_sessions ?w) fd \<noteq> Some t"
    proof (cases "transport_alive w t")
      case alive: True
      then show ?thesis
        using Cons.prems(1,3) True
        by (auto simp: disconnect_expired_transports lock_transport_def transports_inv_def)
    next
      case False
      have ok: "um_ok (m_sessions w)" using Cons.prems(1) by (simp add: transports_inv_def)
      from False have "t \<notin> snd ` set (m_sessions w)" by (simp add: transport_alive_def)
      then have "map_of (m_sessions w) fd \<noteq> Some t" for fd by (force dest: map_of_SomeD)
      then show ?thesis
        using Cons.prems(3) True False by (simp add: disconnect_expired_transports lock_transport_def)
    qed
    then show ?thesis
      using only_removes_sessions [OF only_removes_folds(1) [of ?w sids]] by simp
  next
    case False
    have "transports_inv ?w" using Cons.prems(1) by (rule transports_inv_disconnect)
    then show ?thesis
      using Cons False only_removes_client(2) [OF only_removes_disconnect_expired, of a w sid] by simp
  qed
qed simp

definition signed_off :: "world \<Rightarrow> nat \<Rightarrow> world \<Rightarrow> bool" where
  "signed_off w sid w' \<longleftrightarrow>
     (if cleansession (clients w sid) then sessionPresent (client_id (clients w sid)) w' = None
      else \<not> connected (clients w' sid))"

lemma signed_off_later:
  assumes "only_removes w' w''" and "signed_off w sid w'" shows "signed_off w sid w''"
  using assms only_removes_client(6) [OF assms(1), of sid]
  by (auto simp: signed_off_def sessionPresent_def only_removes_def split: if_splits)
    (metis option.exhaust option.distinct(1))

lemma disconnect_signs_off:
  assumes "lock_transport w (cs_session (clients w sid)) = Some t"
  shows "signed_off w sid (disconnect_expired sid w)"
  using assms
  by (simp add: signed_off_def disconnect_expired_def sessionPresent_def forceDisconnect_def
      removeSession_def removeFromRegistry_def Let_def frame_simps)

text \<open>A transport stays reachable while sessions are disconnected whose transports have other descriptors.\<close>

lemma lock_after_disconnect:
  assumes inv: "transports_inv w" and lock: "transport_alive w t"
    and other: "\<forall>s. cs_session (clients w a) = Some s \<longrightarrow> ms_fd (transports w s) \<noteq> ms_fd (transports w t)"
  shows "transport_alive (disconnect_expired a w) t"
proof (cases "t \<in> set (held w)")
  case True
  then show ?thesis
    using only_removes_disconnect_expired [of w a] by (simp add: transport_alive_def only_removes_def)
next
  case False
  define fd where "fd = ms_fd (transports w t)"
  then have fd: "map_of (m_sessions w) fd = Some t" "ms_fd (transports w t) = fd"
    using lock False by (simp_all add: transport_alive_iff [OF inv])
  have "map_of (m_sessions (disconnect_expired a w)) fd = Some t"
    using other fd by (auto simp: disconnect_expired_transports lock_transport_def split: option.split)
  then show ?thesis by (force simp: transport_alive_def dest: map_of_SomeD)
qed

lemma fold_disconnect_signs_off:
  assumes "transports_inv w" and "sid \<in> set sids" and "cs_session (clients w sid) = Some t" and "transport_alive w t"
    and "\<forall>a \<in> set sids. a \<noteq> sid \<longrightarrow>
      (\<forall>s. cs_session (clients w a) = Some s \<longrightarrow> ms_fd (transports w s) \<noteq> ms_fd (transports w t))"
  shows "signed_off w sid (fold disconnect_expired sids w)"
  using assms
proof (induction sids arbitrary: w)
  case (Cons a sids)
  let ?w = "disconnect_expired a w"
  note rem = only_removes_disconnect_expired [of w a]
  have tr: "transports ?w = transports w" using rem by (simp add: only_removes_def)
  show ?case
  proof (cases "a = sid")
    case True
    then have "signed_off w sid ?w" using disconnect_signs_off [of w sid t] Cons.prems(3,4) by (simp add: lock_transport_def)
    then show ?thesis using signed_off_later [OF only_removes_folds(1)] by simp
  next
    case False
    then have "signed_off ?w sid (fold disconnect_expired sids ?w)"
      using Cons.prems lock_after_disconnect [OF Cons.prems(1,4), of a]
      by (intro Cons.IH transports_inv_disconnect) (auto simp: only_removes_client [OF rem] tr)
    then show ?thesis by (simp add: signed_off_def only_removes_client [OF rem] cong: if_cong)
  qed
qed simp

text \<open>A session whose transport is gone is left as it is.\<close>

lemma lock_transport_removed:
  assumes "only_removes w w'" and "transports_inv w" and "transports_inv w'" and "lock_transport w t = None"
  shows "lock_transport w' t = None"
proof -
  have "held w' = held w" "transports w' = transports w"
    "map_of (m_sessions w') fd = Some s \<Longrightarrow> map_of (m_sessions w) fd = Some s" for fd s
    using assms(1) by (simp_all add: only_removes_def)
  then have "transport_alive w' s \<Longrightarrow> transport_alive w s" for s
    by (auto simp: transport_alive_iff [OF assms(2)] transport_alive_iff [OF assms(3)])
  with assms(4) show ?thesis by (auto simp: lock_transport_def split: option.splits if_splits)
qed

lemma fold_disconnect_leaves:
  assumes "lock_transport w (cs_session (clients w sid)) = None" and "transports_inv w"
  shows "clients (fold disconnect_expired sids w) sid = clients w sid"
  using assms
proof (induction sids arbitrary: w)
  case (Cons a sids)
  let ?w = "disconnect_expired a w"
  have c: "clients ?w sid = clients w sid"
    using Cons.prems(1)
    by (auto simp: disconnect_expired_def forceDisconnect_def removeSession_def removeFromRegistry_def
        Let_def frame_simps split: option.split)
  note inv = transports_inv_disconnect [OF Cons.prems(2), of a]
  have "lock_transport ?w (cs_session (clients ?w sid)) = None"
    unfolding c by (rule lock_transport_removed [OF only_removes_disconnect_expired Cons.prems(2) inv Cons.prems(1)])
  from Cons.IH [OF this inv] show ?case by (simp add: c)
qed simp

lemma fold_disconnect_stays_registered:
  assumes "lock_transport w (cs_session (clients w sid)) = None" and "transports_inv w"
    and "\<forall>a \<in> set sids. client_id (clients w a) = client_id (clients w sid) \<longrightarrow> a = sid"
  shows "sessionPresent (client_id (clients w sid)) (fold disconnect_expired sids w) =
    sessionPresent (client_id (clients w sid)) w"
  using assms
proof (induction sids arbitrary: w)
  case (Cons a sids)
  let ?w = "disconnect_expired a w"
  note rem = only_removes_client [OF only_removes_disconnect_expired]
  note inv = transports_inv_disconnect [OF Cons.prems(2), of a]
  have "lock_transport ?w (cs_session (clients ?w sid)) = None"
    unfolding rem by (rule lock_transport_removed [OF only_removes_disconnect_expired Cons.prems(2) inv Cons.prems(1)])
  then have IH: "sessionPresent (client_id (clients w sid)) (fold disconnect_expired sids ?w) =
      sessionPresent (client_id (clients w sid)) ?w"
    using Cons.IH [of ?w] inv Cons.prems(3) by (simp add: rem)
  have "client_id (clients w a) \<noteq> client_id (clients w sid)" if "lock_transport w (cs_session (clients w a)) = Some t" for t
    using that Cons.prems(1,3) by auto
  then have "sessionPresent (client_id (clients w sid)) ?w = sessionPresent (client_id (clients w sid)) w"
    by (auto simp: sessionPresent_def disconnect_expired_def forceDisconnect_def removeSession_def
        removeFromRegistry_def map_of_um_erase Let_def frame_simps split: option.split)
  with IH show ?case by simp
qed simp

subsection \<open>processExpiredSessions as a whole\<close>

lemma processExpiredSessions_returns:
  "processExpiredSessions w \<noteq> None \<longleftrightarrow>
     (\<forall>e \<in> set (m_expiryHeap w). due w e \<longrightarrow> client_alive w (ee_session e))"
  using expiry_scan_returns_iff [of w]
  by (cases "expiry_scan w") (auto simp: processExpiredSessions_def)

lemma processExpiredSessions_elim:
  assumes "processExpiredSessions w = Some w'"
  obtains heap td ne where
    "mset heap = {#e \<in># mset (m_expiryHeap w). \<not> due w e#}"
    "set td = {sid. overdue w sid \<and> expired w sid}"
    "set ne = {sid. overdue w sid \<and> extended w sid}"
    "\<And>sid. overdue w sid \<Longrightarrow> client_alive w sid"
    "w' = fold scheduleExpiry ne (fold disconnect_expired td (w\<lparr>m_expiryHeap := heap\<rparr>))"
proof -
  obtain heap td ne where s: "expiry_scan w = Some (heap, td, ne)"
    "w' = fold scheduleExpiry ne (fold disconnect_expired td (w\<lparr>m_expiryHeap := heap\<rparr>))"
    using assms by (auto simp: processExpiredSessions_def split: option.splits)
  from that [OF expiry_scan_result(1-3) [OF s(1)] _ s(2)] expiry_scan_result(4) [OF s(1)]
  show thesis by (auto simp: overdue_def)
qed

lemma only_removes_heap [simp]: "only_removes (w\<lparr>m_expiryHeap := h\<rparr>) w' \<longleftrightarrow> only_removes w w'"
  by (simp add: only_removes_def)

lemma processExpiredSessions_only_removes:
  assumes "processExpiredSessions w = Some w'" shows "only_removes w w'"
  using assms
proof (rule processExpiredSessions_elim)
  fix heap td ne
  let ?w = "w\<lparr>m_expiryHeap := heap\<rparr>"
  assume "w' = fold scheduleExpiry ne (fold disconnect_expired td ?w)"
  then show "only_removes w w'"
    using only_removes_trans [OF only_removes_folds(1) [of ?w td] only_removes_folds(2) [of _ ne]]
    by simp
qed

lemma world_inv_fold_disconnect: "world_inv w \<Longrightarrow> world_inv (fold disconnect_expired sids w)"
  by (induction sids arbitrary: w) (simp_all add: world_inv_disconnect_expired)

lemma world_inv_fold_schedule:
  "world_inv w \<Longrightarrow> \<forall>sid \<in> set sids. sid < next_sid w \<Longrightarrow> world_inv (fold scheduleExpiry sids w)"
proof (induction sids arbitrary: w)
  case (Cons sid sids)
  have "next_sid (scheduleExpiry sid w) = next_sid w"
    using only_removes_scheduleExpiry by (simp add: only_removes_def)
  with Cons show ?case by (simp add: world_inv_scheduleExpiry)
qed simp

lemma overdue_less: "world_inv w \<Longrightarrow> overdue w sid \<Longrightarrow> sid < next_sid w"
  by (auto simp: overdue_def world_inv_def heaps_inv_def)

lemma world_inv_processExpiredSessions [inv_intros]:
  assumes "world_inv w" and "processExpiredSessions w = Some w'" shows "world_inv w'"
  using assms(2)
proof (rule processExpiredSessions_elim)
  fix heap td ne
  let ?w = "w\<lparr>m_expiryHeap := heap\<rparr>"
  assume heap: "mset heap = {#e \<in># mset (m_expiryHeap w). \<not> due w e#}"
    and ne: "set ne = {sid. overdue w sid \<and> extended w sid}"
    and w': "w' = fold scheduleExpiry ne (fold disconnect_expired td ?w)"
  have "set heap \<subseteq> set (m_expiryHeap w)"
    using arg_cong [OF heap, of set_mset] by auto
  then have "world_inv (fold disconnect_expired td ?w)"
    by (intro world_inv_fold_disconnect world_inv_expiryHeap assms(1))
  moreover have "next_sid (fold disconnect_expired td ?w) = next_sid w"
    using only_removes_folds(1) [of ?w td] by (simp add: only_removes_def)
  ultimately show "world_inv w'"
    unfolding w' using overdue_less [OF assms(1)] ne by (intro world_inv_fold_schedule) auto
qed

lemma processExpiredSessions_rest_later:
  assumes "processExpiredSessions w = Some w'" and "e \<in> set (m_expiryHeap w')"
  shows "now_ms w < ee_expiry_ms e"
  using assms(1)
proof (rule processExpiredSessions_elim)
  fix heap td ne
  let ?w = "w\<lparr>m_expiryHeap := heap\<rparr>" and ?v = "fold disconnect_expired td (w\<lparr>m_expiryHeap := heap\<rparr>)"
  assume heap: "mset heap = {#e \<in># mset (m_expiryHeap w). \<not> due w e#}"
    and ne: "set ne = {sid. overdue w sid \<and> extended w sid}"
    and w': "w' = fold scheduleExpiry ne ?v"
  have "only_removes w ?v" using only_removes_folds(1) [of ?w td] by simp
  then have "e \<in> set heap \<or> (\<exists>sid \<in> set ne. ee_expiry_ms e = deadline (clients w sid))"
    using assms(2) only_removes_client(5) unfolding w'
    by (auto simp: fold_scheduleExpiry_heap disconnect_expired_heap)
  then show ?thesis
  proof
    assume "e \<in> set heap"
    then have "e \<in># {#e \<in># mset (m_expiryHeap w). \<not> due w e#}" using heap by (metis set_mset_mset)
    then show ?thesis by (simp add: due_def)
  qed (use ne in \<open>auto simp: extended_def\<close>)
qed

lemma processExpiredSessions_closes_only:
  assumes "processExpiredSessions w = Some w'" and "transports_inv w"
    and "map_of (m_sessions w) fd = Some t" and "map_of (m_sessions w') fd = None"
  shows "\<exists>sid t'. overdue w sid \<and> expired w sid \<and> client_alive w sid \<and>
    cs_session (clients w sid) = Some t' \<and> ms_fd (transports w t') = fd \<and> (t' = t \<or> t' \<in> set (held w))"
  using assms(1)
proof (rule processExpiredSessions_elim)
  fix heap td ne
  let ?w = "w\<lparr>m_expiryHeap := heap\<rparr>"
  assume td: "set td = {sid. overdue w sid \<and> expired w sid}"
    and alive: "\<And>sid. overdue w sid \<Longrightarrow> client_alive w sid"
    and w': "w' = fold scheduleExpiry ne (fold disconnect_expired td ?w)"
  have "map_of (m_sessions (fold disconnect_expired td ?w)) fd = None"
    using assms(4) by (simp add: w' fold_scheduleExpiry_other)
  moreover have "transports_inv ?w" using assms(2) by (simp add: transports_inv_def)
  ultimately obtain sid t' where "sid \<in> set td" "cs_session (clients w sid) = Some t'" "ms_fd (transports w t') = fd"
    "t' = t \<or> t' \<in> set (held w)"
    using fold_disconnect_removed [of ?w fd t td] assms(3) by auto
  with td alive show ?thesis by blast
qed

lemma processExpiredSessions_closes:
  assumes "processExpiredSessions w = Some w'" and "transports_inv w"
    and "overdue w sid" and "expired w sid" and "cs_session (clients w sid) = Some t"
  shows "map_of (m_sessions w') fd \<noteq> Some t"
  using assms(1)
proof (rule processExpiredSessions_elim)
  fix heap td ne
  let ?w = "w\<lparr>m_expiryHeap := heap\<rparr>"
  assume td: "set td = {sid. overdue w sid \<and> expired w sid}"
    and w': "w' = fold scheduleExpiry ne (fold disconnect_expired td ?w)"
  have "transports_inv ?w" using assms(2) by (simp add: transports_inv_def)
  from fold_disconnect_closes [OF this, of sid td t fd] assms(3-5) td show ?thesis
    by (simp add: w' fold_scheduleExpiry_other)
qed

lemma processExpiredSessions_signs_off:
  assumes "processExpiredSessions w = Some w'" and "transports_inv w"
    and "overdue w sid" and "expired w sid" and "cs_session (clients w sid) = Some t" and "transport_alive w t"
    and "\<forall>a. a \<noteq> sid \<longrightarrow> overdue w a \<longrightarrow> expired w a \<longrightarrow>
      (\<forall>s. cs_session (clients w a) = Some s \<longrightarrow> ms_fd (transports w s) \<noteq> ms_fd (transports w t))"
  shows "signed_off w sid w'"
  using assms(1)
proof (rule processExpiredSessions_elim)
  fix heap td ne
  let ?w = "w\<lparr>m_expiryHeap := heap\<rparr>" and ?v = "fold disconnect_expired td (w\<lparr>m_expiryHeap := heap\<rparr>)"
  assume td: "set td = {sid. overdue w sid \<and> expired w sid}"
    and w': "w' = fold scheduleExpiry ne ?v"
  have "transports_inv ?w" using assms(2) by (simp add: transports_inv_def)
  moreover have "transport_alive ?w t" using assms(6) by (simp add: transport_alive_def)
  ultimately have "signed_off ?w sid ?v"
    using assms(3-5,7) td by (intro fold_disconnect_signs_off [where t = t]) auto
  then show ?thesis
    using signed_off_later [OF only_removes_folds(2), of ?w sid ?v ne] by (simp add: w' signed_off_def cong: if_cong)
qed

lemma processExpiredSessions_leaves:
  assumes "processExpiredSessions w = Some w'" and "world_inv w"
    and "overdue w sid" and "expired w sid" and "lock_transport w (cs_session (clients w sid)) = None"
  shows "clients w' sid = clients w sid"
    and "sessionPresent (client_id (clients w sid)) w' = sessionPresent (client_id (clients w sid)) w"
proof -
  obtain heap td ne where r: "set td = {sid. overdue w sid \<and> expired w sid}" "set ne = {sid. overdue w sid \<and> extended w sid}"
    "\<And>sid. overdue w sid \<Longrightarrow> client_alive w sid"
    "w' = fold scheduleExpiry ne (fold disconnect_expired td (w\<lparr>m_expiryHeap := heap\<rparr>))"
    using processExpiredSessions_elim [OF assms(1)] by metis
  let ?w = "w\<lparr>m_expiryHeap := heap\<rparr>" and ?v = "fold disconnect_expired td (w\<lparr>m_expiryHeap := heap\<rparr>)"
  have inv: "transports_inv ?w" using assms(2) by (simp add: world_inv_def transports_inv_def)
  have lock: "lock_transport ?w (cs_session (clients ?w sid)) = None"
    using assms(5) by (simp add: lock_transport_def transport_alive_def cong: option.case_cong)
  have "sid \<notin> set ne" using assms(4) r(2) by (auto simp: expired_def extended_def)
  then have "clients (fold scheduleExpiry ne u) sid = clients u sid" for u
    by (induction ne arbitrary: u) (simp_all add: scheduleExpiry_def Let_def frame_simps)
  then show "clients w' sid = clients w sid"
    using fold_disconnect_leaves [OF lock inv] by (simp add: r(4))
  have reg: "map_of (m_sessionRegistry w) (client_id (clients w a)) = Some a" if "overdue w a" for a
    using client_alive_iff [of w a] r(3) [OF that] assms(2) by (simp add: world_inv_def)
  have "\<forall>a \<in> set td. client_id (clients w a) = client_id (clients w sid) \<longrightarrow> a = sid"
    using reg assms(3) r(1) by (metis (no_types, lifting) mem_Collect_eq option.inject)
  with fold_disconnect_stays_registered [OF lock inv, of td]
  show "sessionPresent (client_id (clients w sid)) w' = sessionPresent (client_id (clients w sid)) w"
    by (simp add: r(4) sessionPresent_def fold_scheduleExpiry_other)
qed

subsection \<open>Properties\<close>

text \<open>The event loop sleeps exactly until the first keep-alive deadline. With no entry in the expiry
  heap \<open>getNextTimeoutMs\<close> gives -1 (block), otherwise the distance to the least deadline, 0 when it has
  passed; the conversion of the 64-bit difference to \<open>int\<close> loses nothing.\<close>

lemma poll_timeout_exact:
  assumes "world_inv w"
  shows "getNextTimeoutMs w =
    (if m_expiryHeap w = [] then - 1
     else max 0 (Min (ee_expiry_ms ` set (m_expiryHeap w)) - now_ms w))"
  using assms getNextTimeoutMs_eq by (simp add: world_inv_def)

text \<open>The scan of the expiry heap comes to an end exactly when every entry that is due belongs to a
  session that still exists. An entry whose session is gone is never popped, so one of them, once due,
  makes the broker's only event loop spin forever under the lock of the heap.\<close>

lemma expiry_scan_ends_iff:
  "processExpiredSessions w \<noteq> None \<longleftrightarrow>
     (\<forall>e \<in> set (m_expiryHeap w). ee_expiry_ms e \<le> now_ms w \<longrightarrow> client_alive w (ee_session e))"
  using processExpiredSessions_returns [of w] by (simp add: due_def)

text \<open>C15: Whose connection keep-alive closes. When the map of connections loses an entry while
  \<open>processExpiredSessions\<close> runs, there is a registered session with a due entry in the heap, still marked
  connected and silent for at least one and a half times its keep-alive, whose transport has the same
  descriptor. The transport that is closed is that session's, unless a task still holds the session's
  transport after its own connection was closed: then the descriptor was given to another client, and
  it is that client's connection that is closed.\<close>

theorem expiry_closes_only_silent_clients:
  assumes "processExpiredSessions w = Some w'" and "world_inv w"
    and "map_of (m_sessions w) fd = Some t" and "map_of (m_sessions w') fd = None"
  shows "\<exists>sid t'. client_alive w sid \<and> connected (clients w sid) \<and>
    last_activity (clients w sid) + uint (keep_alive (clients w sid)) * 1500 \<le> now_ms w \<and>
    (\<exists>e \<in> set (m_expiryHeap w). ee_session e = sid \<and> ee_expiry_ms e \<le> now_ms w) \<and>
    cs_session (clients w sid) = Some t' \<and> ms_fd (transports w t') = fd \<and> (t' = t \<or> t' \<in> set (held w))"
  using processExpiredSessions_closes_only [OF assms(1) world_invD(5) [OF assms(2)] assms(3,4)]
  by (auto simp: expired_def overdue_def due_def deadline_def)

lemma sample_expires:
  "\<exists>w'. processExpiredSessions (sample_world b 4000) = Some w' \<and> map_of (m_sessions w') 5 = None"
proof -
  have "processExpiredSessions (sample_world b 4000) \<noteq> None"
    unfolding processExpiredSessions_returns by (simp add: client_alive_def)
  then obtain w' where w': "processExpiredSessions (sample_world b 4000) = Some w'" by blast
  have "transports_inv (sample_world b 4000)" using sample_world_inv [of 4000 b] by (simp add: world_inv_def)
  then have c: "map_of (m_sessions w') 5 \<noteq> Some 0"
    using processExpiredSessions_closes [OF w', of 0 0 5]
    by (simp add: overdue_def expired_def due_def)
  have sub: "map_of (m_sessions w') 5 = Some t \<Longrightarrow> map_of (m_sessions (sample_world b 4000)) 5 = Some t" for t
    using processExpiredSessions_only_removes [OF w'] unfolding only_removes_def by blast
  have "map_of (m_sessions w') 5 = None"
  proof (cases "map_of (m_sessions w') 5")
    case (Some t)
    with sub [OF this] c show ?thesis by simp
  qed
  with w' show ?thesis by blast
qed

theorem expiry_closes_only_silent_clients_witness:
  "\<exists>sid. client_alive (sample_world True 4000) sid \<and> cs_session (clients (sample_world True 4000) sid) = Some 0 \<and>
     deadline (clients (sample_world True 4000) sid) \<le> 4000"
proof -
  obtain w' where w: "processExpiredSessions (sample_world True 4000) = Some w'"
    "map_of (m_sessions w') 5 = None" using sample_expires by blast
  have m: "map_of (m_sessions (sample_world True 4000)) 5 = Some 0" by simp
  show ?thesis
    using expiry_closes_only_silent_clients [OF w(1) sample_world_inv m w(2)] unfolding deadline_def by auto
qed

text \<open>C14: What becomes of a silent client. When the scan returns, consider a connected session with a due
  entry whose deadline has passed. If its transport can still be reached, and no other such session has
  a transport on the same descriptor, it is signed off: the transport has lost its connection, a clean
  session is gone from the registry and a persistent one is marked offline. If its transport is gone
  (the connection was closed before), nothing is done: the session stays as it is, marked connected, and
  stays registered.\<close>

theorem silent_client_signed_off:
  assumes "processExpiredSessions w = Some w'" and "world_inv w"
    and "\<exists>e \<in> set (m_expiryHeap w). ee_session e = sid \<and> ee_expiry_ms e \<le> now_ms w"
    and "connected (clients w sid)" and "deadline (clients w sid) \<le> now_ms w"
    and "\<forall>e \<in> set (m_expiryHeap w). ee_session e \<noteq> sid \<and> ee_expiry_ms e \<le> now_ms w \<and>
      connected (clients w (ee_session e)) \<and> deadline (clients w (ee_session e)) \<le> now_ms w \<longrightarrow>
      (\<forall>s t. cs_session (clients w (ee_session e)) = Some s \<and> cs_session (clients w sid) = Some t \<longrightarrow>
        ms_fd (transports w s) \<noteq> ms_fd (transports w t))"
  shows "case lock_transport w (cs_session (clients w sid)) of
      Some t \<Rightarrow> (\<forall>fd. map_of (m_sessions w') fd \<noteq> Some t) \<and>
        (if cleansession (clients w sid) then sessionPresent (client_id (clients w sid)) w' = None
         else \<not> connected (clients w' sid))
    | None \<Rightarrow> clients w' sid = clients w sid \<and> sessionPresent (client_id (clients w sid)) w' = Some sid"
proof -
  have inv: "transports_inv w" "registry_inv w" using assms(2) by (simp_all add: world_inv_def)
  have o: "overdue w sid" "expired w sid" using assms(3-5) by (auto simp: overdue_def expired_def due_def)
  have "client_alive w sid"
    using assms(1) o(1) by (rule_tac processExpiredSessions_elim) auto
  then have reg: "sessionPresent (client_id (clients w sid)) w = Some sid"
    using client_alive_iff [OF inv(2)] by (simp add: sessionPresent_def)
  show ?thesis
  proof (cases "lock_transport w (cs_session (clients w sid))")
    case None
    then show ?thesis using processExpiredSessions_leaves [OF assms(1,2) o None] reg by simp
  next
    case (Some t)
    then have t: "cs_session (clients w sid) = Some t" "transport_alive w t"
      by (auto simp: lock_transport_def split: option.splits if_splits)
    have "\<forall>a. a \<noteq> sid \<longrightarrow> overdue w a \<longrightarrow> expired w a \<longrightarrow>
        (\<forall>s. cs_session (clients w a) = Some s \<longrightarrow> ms_fd (transports w s) \<noteq> ms_fd (transports w t))"
      using assms(6) t(1) by (auto simp: overdue_def expired_def due_def)
    from processExpiredSessions_signs_off [OF assms(1) inv(1) o t this]
      processExpiredSessions_closes [OF assms(1) inv(1) o t(1)] Some
    show ?thesis by (simp add: signed_off_def)
  qed
qed

theorem silent_client_signed_off_witness:
  "\<exists>w'. processExpiredSessions (sample_world True 4000) = Some w' \<and> sessionPresent ''c'' w' = None"
proof -
  obtain w' where w: "processExpiredSessions (sample_world True 4000) = Some w'"
    using sample_expires by blast
  have l: "lock_transport (sample_world True 4000) (cs_session (clients (sample_world True 4000) 0)) = Some 0"
    by (simp add: lock_transport_def transport_alive_def)
  have "sessionPresent ''c'' w' = None"
    using silent_client_signed_off [OF w sample_world_inv, of 0] unfolding l by simp
  with w show ?thesis by blast
qed

text \<open>The scan leaves no entry that is due, so a second scan at the same time changes nothing: a
  session that was active since its entry was pushed is rescheduled at its new deadline, which lies in
  the future.\<close>

lemma expiry_scan_idempotent:
  assumes "processExpiredSessions w = Some w'"
  shows "(\<forall>e \<in> set (m_expiryHeap w'). now_ms w' < ee_expiry_ms e) \<and> processExpiredSessions w' = Some w'"
proof -
  have now: "now_ms w' = now_ms w"
    using processExpiredSessions_only_removes [OF assms] by (simp add: only_removes_def)
  have later: "now_ms w' < ee_expiry_ms e" if "e \<in> set (m_expiryHeap w')" for e
    using processExpiredSessions_rest_later [OF assms that] now by simp
  then have "\<not> expiry_due (now_ms w') (m_expiryHeap w', [], [])"
    unfolding expiry_due_top due_def using pq_top_in by fastforce
  then have "expiry_scan w' = Some (m_expiryHeap w', [], [])"
    unfolding expiry_scan_def by (rule while_option_done)
  with later show ?thesis by (simp add: processExpiredSessions_def)
qed

end
