(* ===== verification/Handlers.thy ===== *)
theory Handlers
  imports Delivery Keep_Alive
begin

text \<open>
  The packet handlers, \<open>mqtt/include/packethandlers.h\<close> and \<open>mqtt/src/packethandlers.cpp\<close>. A handler
  takes the packet, the output vector, the state and the transport it runs for, and gives its return
  code, the output vector and the state, or a fault. Handlers that look the client up by the
  transport's client id use the result without a test: for an unregistered client that is the fault
  \<open>NullDeref\<close>. The theorems show that a handler called with the packet its decoder produces keeps the
  invariant, when it faults, and what it does to the protocol state.
\<close>

abbreviation (input) MQTT_CONNECTION_ACCEPTED :: int where "MQTT_CONNECTION_ACCEPTED \<equiv> 0x06"
abbreviation (input) MQTT_UNACCEPTABLE_PROTOCOL_VERSION :: int where
  "MQTT_UNACCEPTABLE_PROTOCOL_VERSION \<equiv> 0x07"

type_synonym handled = "fault + (int \<times> u8 list \<times> world)"
type_synonym packethandler = "Packet \<Rightarrow> u8 list \<Rightarrow> world \<Rightarrow> nat \<Rightarrow> handled"

definition getClientId :: "world \<Rightarrow> nat \<Rightarrow> string" where
  "getClientId w tid = ms_client_id (transports w tid)"

subsection \<open>CONNECT\<close>

definition resendMessages :: "core \<Rightarrow> Packet \<Rightarrow> u16 \<Rightarrow> nat \<Rightarrow> world \<Rightarrow> fault + world" where
  "resendMessages C packet packet_id mqtt_session w =
     (let p = packet\<lparr>header := (header packet)\<lparr>hdr_dup := True\<rparr>\<rparr>;
          type = hdr_type (header packet)
      in if type = PUBLISH then
           and_then (build_publish C p packet_id []) (\<lambda>buff.
           Inr (pushDataToSend mqtt_session buff w))
         else if type = PUBREL then
           Inr (pushDataToSend mqtt_session (snd (build_ack C packet_id PUBREL [])) w)
         else Inr w)"

definition resume_session :: "core \<Rightarrow> nat \<Rightarrow> world \<Rightarrow> fault + world" where
  "resume_session C cs w =
     (case lock_transport w (cs_session (clients w cs)) of
        None \<Rightarrow> Inr w
      | Some old_session \<Rightarrow>
          and_then (fold_r (\<lambda>(k, p). resendMessages C p k old_session) (inflight (clients w cs)) w)
            (fold_r (\<lambda>(k, p). resendMessages C p k old_session) (inflight_ack (clients w cs))))"

definition disconnect_old :: "nat \<Rightarrow> world \<Rightarrow> world" where
  "disconnect_old cs w =
     (if connected (clients w cs) then
        upd_client cs (\<lambda>c. c\<lparr>connected := False\<rparr>)
          (case lock_transport w (cs_session (clients w cs)) of
             Some old_session \<Rightarrow> forceDisconnect old_session w
           | None \<Rightarrow> w)
      else w)"

text \<open>The session a CONNECT gets, the session-present flag and whether to register it.\<close>

definition select_session :: "core \<Rightarrow> Connect \<Rightarrow> world \<Rightarrow> fault + (nat \<times> u8 \<times> bool \<times> world)" where
  "select_session C cn_pkt w =
     (case sessionPresent (cn_client_id cn_pkt) w of
        Some cs \<Rightarrow>
          let w = disconnect_old cs w in
          if cf_cleansession (cn_cf cn_pkt) then
            let (cs, w) = make_client (removeFromRegistry (cn_client_id cn_pkt) w) in
            Inr (cs, 0x00, True, w)
          else and_then (resume_session C cs w) (\<lambda>w. Inr (cs, 0x01, False, w))
      | None \<Rightarrow> let (cs, w) = make_client w in Inr (cs, 0x00, True, w))"

definition connectHandler :: "core \<Rightarrow> packethandler" where
  "connectHandler C packet buff w mqtt_session =
     (case pkt packet of
        VConnect cn_pkt \<Rightarrow>
          and_then (select_session C cn_pkt w) (\<lambda>(cs, session_present, add_to_registry, w).
          let w = upd_client cs (\<lambda>c. c\<lparr>client_id := cn_client_id cn_pkt,
                    keep_alive := cn_keep_alive cn_pkt,
                    cleansession := cf_cleansession (cn_cf cn_pkt)\<rparr>) w;
              hdr = Header_default\<lparr>hdr_type := CONNACK\<rparr>;
              bad_level = (cn_level cn_pkt \<noteq> 0x04);
              rc = (if bad_level then 0x01 else 0x00);
              w = (if bad_level then upd_client cs (\<lambda>c. c\<lparr>connected := False\<rparr>) w else w);
              add_to_registry = (if bad_level then False else add_to_registry);
              return_code = (if bad_level then MQTT_UNACCEPTABLE_PROTOCOL_VERSION
                             else MQTT_CONNECTION_ACCEPTED);
              connack_pkt = \<lparr>ack_flags = session_present, return_code = rc\<rparr>;
              w = (if add_to_registry then
                     scheduleExpiry cs (addToRegistry cs (upd_client cs (\<lambda>c. c\<lparr>connected := True,
                       cs_session := Some mqtt_session, last_activity := now_ms w\<rparr>) w))
                   else w);
              buff = buff @ [header_pack hdr];
              buff = buff @ snd (encode_length 2 []);
              buff = buff @ [ucast (connack_pack (core_little_endian C) connack_pkt)]
          in Inr (return_code, buff, w))
      | _ \<Rightarrow> Inr (- MQTT_ERR, buff, w))"

subsection \<open>PUBLISH and its acknowledgements\<close>

definition publishHandler :: "core \<Rightarrow> packethandler" where
  "publishHandler C packet buff w mqtt_session =
     (case pkt packet of
        VPublish pub \<Rightarrow>
          let w = updateActivity (getClientId w mqtt_session) w in
          if hdr_qos (header packet) = 0 then
            and_then (routePacket C packet None w) (\<lambda>(_, w). Inr (MQTT_OK, buff, w))
          else if hdr_qos (header packet) = 1 then
            and_then (routePacket C packet None w) (\<lambda>(_, w).
            let buff = snd (build_ack C (pub_packet_id pub) PUBACK buff) in
            Inr (MQTT_OK, buff, pushDataToSend mqtt_session buff w))
          else
            and_then (deref (sessionPresent (getClientId w mqtt_session) w)) (\<lambda>cs.
            let present_packet = getPacket (pub_packet_id pub) PUBLISH (clients w cs) in
            and_then
              (if pkt_len present_packet = 0
               then and_then (storeInflight packet (clients w cs)) (\<lambda>c. Inr (upd_client cs (\<lambda>_. c) w))
               else Inr w) (\<lambda>w.
            let buff = snd (build_ack C (pub_packet_id pub) PUBREC buff) in
            Inr (MQTT_OK, buff, pushDataToSend mqtt_session buff w)))
      | _ \<Rightarrow> Inr (- MQTT_ERR, buff, w))"

definition pubackHandler :: "core \<Rightarrow> packethandler" where
  "pubackHandler C packet buff w mqtt_session =
     (case pkt packet of
        VAck puback \<Rightarrow>
          let w = updateActivity (getClientId w mqtt_session) w in
          and_then (deref (sessionPresent (getClientId w mqtt_session) w)) (\<lambda>cs.
          let (_, c) = removeFromInflight (ack_packet_id puback) (clients w cs) in
          Inr (MQTT_OK, buff, upd_client cs (\<lambda>_. c) w))
      | _ \<Rightarrow> Inr (- MQTT_ERR, buff, w))"

definition pubrecHandler :: "core \<Rightarrow> packethandler" where
  "pubrecHandler C packet buff w mqtt_session =
     (case pkt packet of
        VAck pubrec \<Rightarrow>
          let w = updateActivity (getClientId w mqtt_session) w;
              cs = sessionPresent (getClientId w mqtt_session) w;
              (pkt_pubrel, buff) = build_ack C (ack_packet_id pubrec) PUBREL buff
          in and_then (deref cs) (\<lambda>cs.
             and_then (storeInflightAcknowlegement pkt_pubrel (clients w cs)) (\<lambda>c.
             Inr (MQTT_OK, buff, pushDataToSend mqtt_session buff (upd_client cs (\<lambda>_. c) w))))
      | _ \<Rightarrow> Inr (- MQTT_ERR, buff, w))"

definition pubrelHandler :: "core \<Rightarrow> packethandler" where
  "pubrelHandler C packet buff w mqtt_session =
     (case pkt packet of
        VAck pubrel \<Rightarrow>
          let w = updateActivity (getClientId w mqtt_session) w in
          and_then (deref (sessionPresent (getClientId w mqtt_session) w)) (\<lambda>cs.
          let (pub_pkt, c) = removeFromInflight (ack_packet_id pubrel) (clients w cs);
              w = upd_client cs (\<lambda>_. c) w
          in and_then
               (if hdr_type (header pub_pkt) = PUBLISH
                then and_then (routePacket C pub_pkt None w) (\<lambda>(_, w). Inr (MQTT_OK, w))
                else Inr (- MQTT_ERR, w)) (\<lambda>(return_code, w).
             let buff = snd (build_ack C (ack_packet_id pubrel) PUBCOMP buff) in
             Inr (return_code, buff, pushDataToSend mqtt_session buff w)))
      | _ \<Rightarrow> Inr (- MQTT_ERR, buff, w))"

definition pubcompHandler :: "core \<Rightarrow> packethandler" where
  "pubcompHandler C packet buff w mqtt_session =
     (case pkt packet of
        VAck pubcomp \<Rightarrow>
          let w = updateActivity (getClientId w mqtt_session) w in
          and_then (deref (sessionPresent (getClientId w mqtt_session) w)) (\<lambda>cs.
          let (_, c) = removeFromInflightAcknowlegement (ack_packet_id pubcomp) (clients w cs) in
          Inr (MQTT_OK, buff, upd_client cs (\<lambda>_. c) w))
      | _ \<Rightarrow> Inr (- MQTT_ERR, buff, w))"

subsection \<open>SUBSCRIBE and UNSUBSCRIBE\<close>

definition subscribe_one :: "string \<Rightarrow> topic_tuple \<Rightarrow> u8 list \<times> world \<Rightarrow> u8 list \<times> world" where
  "subscribe_one cid tuple s =
     (let (return_codes, w) = s in
      if tp_qos tuple < 3
      then (return_codes @ [tp_qos tuple], createSubscription (tp_topic tuple) (tp_qos tuple) cid w)
      else (return_codes @ [0x80], w))"

definition subscribeHandler :: "core \<Rightarrow> packethandler" where
  "subscribeHandler C packet buff w mqtt_session =
     (case pkt packet of
        VSubscribe sub \<Rightarrow>
          let w = updateActivity (getClientId w mqtt_session) w;
              (return_codes, w) =
                fold (subscribe_one (getClientId w mqtt_session)) (sub_payload sub) ([], w);
              buff = build_suback C (sub_packet_id sub) return_codes buff
          in Inr (MQTT_OK, buff, pushDataToSend mqtt_session buff w)
      | _ \<Rightarrow> Inr (- MQTT_ERR, buff, w))"

text \<open>The test is for the alternative \<open>Pubrec\<close>, the \<open>get\<close> after it for \<open>Unsubscribe\<close>.\<close>

definition unsubscribeHandler :: "core \<Rightarrow> packethandler" where
  "unsubscribeHandler C packet buff w mqtt_session =
     (case pkt packet of
        VAck _ \<Rightarrow>
          let w = updateActivity (getClientId w mqtt_session) w in
          and_then (get_unsubscribe (pkt packet)) (\<lambda>unsub.
          let w = fold (\<lambda>topic. removeSubscription topic (getClientId w mqtt_session))
                    (unsub_topics unsub) w;
              buff = snd (build_ack C (unsub_packet_id unsub) UNSUBACK buff)
          in Inr (MQTT_OK, buff, pushDataToSend mqtt_session buff w))
      | _ \<Rightarrow> Inr (- MQTT_ERR, buff, w))"

subsection \<open>PINGREQ and DISCONNECT\<close>

definition pingreqHandler :: "core \<Rightarrow> packethandler" where
  "pingreqHandler C packet buff w mqtt_session =
     (let w = updateActivity (getClientId w mqtt_session) w;
          buff = buff @ [header_pack (Header_default\<lparr>hdr_type := PINGREQ\<rparr>)]
      in Inr (- MQTT_ERR, buff, pushDataToSend mqtt_session buff w))"

definition disconnectHandler :: "core \<Rightarrow> packethandler" where
  "disconnectHandler C packet buff w mqtt_session = Inr (MQTT_OK, buff, w)"

subsection \<open>The table\<close>

definition handlers :: "core \<Rightarrow> packethandler option list" where
  "handlers C =
     [None, Some (connectHandler C), None, Some (publishHandler C), Some (pubackHandler C),
      Some (pubrecHandler C), Some (pubrelHandler C), Some (pubcompHandler C),
      Some (subscribeHandler C), None, Some (unsubscribeHandler C), None, Some (pingreqHandler C),
      None, Some (disconnectHandler C)]"


subsection \<open>What every step keeps\<close>

text \<open>
  Sessions keep their identity, an offline queue is only appended to, the output only grows. No
  operation of the broker takes a message out of a queue.
\<close>

definition evolves :: "world \<Rightarrow> world \<Rightarrow> bool" where
  "evolves w w' \<longleftrightarrow>
     next_sid w \<le> next_sid w' \<and> next_tid w \<le> next_tid w' \<and> now_ms w \<le> now_ms w' \<and>
     prefix (sent w) (sent w') \<and>
     (\<forall>sid < next_sid w. client_id (clients w' sid) = client_id (clients w sid) \<and>
        prefix (message_queue (clients w sid)) (message_queue (clients w' sid)))"

lemma evolves_refl [simp]: "evolves w w"
  by (simp add: evolves_def)

lemma evolves_trans:
  assumes "evolves a b" and "evolves b c" shows "evolves a c"
proof -
  have "client_id (clients c sid) = client_id (clients a sid) \<and>
      prefix (message_queue (clients a sid)) (message_queue (clients c sid))" if "sid < next_sid a" for sid
    using assms that prefix_order.trans unfolding evolves_def by (metis order_less_le_trans)
  with assms show ?thesis
    unfolding evolves_def by (meson order_trans prefix_order.trans)
qed

lemma evolves_keeps: "keeps w w' \<Longrightarrow> evolves w w'"
  by (simp add: evolves_def keeps_def client_grows_def)

lemma evolves_delivers: "delivers w w' \<Longrightarrow> evolves w w'"
  by (simp add: delivers_def evolves_keeps)

lemma evolves_only_removes: 
  assumes "only_removes w w'" shows "evolves w w'"
proof -
  have "same_client (clients w sid) (clients w' sid)" for sid
    using assms by (simp add: only_removes_def)
  then have "message_queue (clients w' sid) = message_queue (clients w sid)" for sid
    by (metis ClientSession.select_convs(11) ClientSession.surjective ClientSession.update_convs(4,7) same_client_def)
  with assms only_removes_client(1) [OF assms] show ?thesis
    by (simp add: evolves_def only_removes_def)
qed

lemma evolves_upd_client:
  "client_id (f (clients w sid)) = client_id (clients w sid) \<Longrightarrow>
   prefix (message_queue (clients w sid)) (message_queue (f (clients w sid))) \<Longrightarrow>
     evolves w (upd_client sid f w)"
  by (simp add: evolves_def frame_simps)

lemma evolves_push: "evolves w (pushDataToSend t d w)"
  by (simp add: evolves_def pushDataToSend_def)

lemma evolves_updateActivity: "evolves w (updateActivity c w)"
  by (auto simp: updateActivity_def intro: evolves_upd_client split: option.split)

lemma evolves_make_client: "evolves w (snd (make_client w))"
  by (simp add: evolves_def make_client_def)

lemma evolves_subscription:
  "evolves w (createSubscription topic q c w)" "evolves w (removeSubscription topic c w)"
  by (auto simp: evolves_def createSubscription_def removeSubscription_def split: option.split)

lemma evolves_addToRegistry: "evolves w (addToRegistry sid w)"
  by (simp add: evolves_def addToRegistry_def)

lemma evolves_fold: "(\<And>x w. evolves w (f x w)) \<Longrightarrow> evolves w (fold f xs w)"
  by (induction xs arbitrary: w) (auto intro: evolves_trans)

lemmas evolves_steps =
  evolves_push evolves_updateActivity evolves_make_client evolves_subscription evolves_addToRegistry
  evolves_only_removes [OF only_removes_forceDisconnect] evolves_only_removes [OF only_removes_removeFromRegistry]
  evolves_only_removes [OF only_removes_scheduleExpiry]

subsection \<open>The contract of a handler\<close>

text \<open>The packet a handler gets: decoded, of the handler's type, from an open transport.\<close>

definition arrives :: "PacketType \<Rightarrow> Packet \<Rightarrow> nat \<Rightarrow> world \<Rightarrow> bool" where
  "arrives t p tid w \<longleftrightarrow>
     world_inv w \<and> tid < next_tid w \<and> hdr_type (header p) = t \<and> 0 < pkt_len p \<and>
     (variant_of t (pkt p) \<or> t \<in> {PINGREQ, DISCONNECT})"

definition registered :: "world \<Rightarrow> nat \<Rightarrow> bool" where
  "registered w tid \<longleftrightarrow> sessionPresent (getClientId w tid) w \<noteq> None"

locale packet_handler =
  fixes type :: PacketType
    and handle :: packethandler
  assumes step: "arrives type p tid w \<Longrightarrow> handle p buff w tid = Inr (rc, buff', w') \<Longrightarrow>
        world_inv w' \<and> evolves w w'"
    and total: "arrives type p tid w \<Longrightarrow> registered w tid \<Longrightarrow> \<exists>r. handle p buff w tid = Inr r"
    and fault: "arrives type p tid w \<Longrightarrow> handle p buff w tid = Inl e \<Longrightarrow> e = NullDeref"
    and codes: "handle p buff w tid = Inr (rc, buff', w') \<Longrightarrow>
        rc \<in> {MQTT_OK, - MQTT_ERR} \<or>
        (type = CONNECT \<and> rc \<in> {MQTT_CONNECTION_ACCEPTED, MQTT_UNACCEPTABLE_PROTOCOL_VERSION})"
begin

lemma fault_unregistered:
  "arrives type p tid w \<Longrightarrow> handle p buff w tid = Inl e \<Longrightarrow> \<not> registered w tid \<and> e = NullDeref"
  using total [of p tid w buff] fault by fastforce

lemma outcome:
  assumes "arrives type p tid w"
  shows "(\<exists>rc buff' w'. handle p buff w tid = Inr (rc, buff', w') \<and> world_inv w' \<and> evolves w w') \<or>
    (handle p buff w tid = Inl NullDeref \<and> \<not> registered w tid)"
proof (cases "handle p buff w tid")
  case (Inl e)
  with fault_unregistered [OF assms] show ?thesis by blast
next
  case (Inr r)
  with step [OF assms] show ?thesis by (cases r) auto
qed

end

lemma updateActivity_sel [frame_simps]:
  "m_sessionRegistry (updateActivity c w) = m_sessionRegistry w"
  "transports (updateActivity c w) = transports w" "m_topicTree (updateActivity c w) = m_topicTree w"
  "next_sid (updateActivity c w) = next_sid w" "next_tid (updateActivity c w) = next_tid w"
  by (auto simp: updateActivity_def frame_simps split: option.split)

lemma updateActivity_lookup [simp]:
  "sessionPresent d (updateActivity c w) = sessionPresent d w"
  "getClientId (updateActivity c w) tid = getClientId w tid"
  by (simp_all add: sessionPresent_def getClientId_def frame_simps)

lemma sessionPresent_less:
  "world_inv w \<Longrightarrow> sessionPresent c w = Some sid \<Longrightarrow> sid < next_sid w \<and> client_id (clients w sid) = c"
  unfolding sessionPresent_def world_inv_def registry_inv_def by blast

lemma variant_ofE:
  "variant_of CONNECT v \<Longrightarrow> \<exists>c. v = VConnect c" "variant_of PUBLISH v \<Longrightarrow> \<exists>p. v = VPublish p"
  "variant_of SUBSCRIBE v \<Longrightarrow> \<exists>s. v = VSubscribe s" "variant_of UNSUBSCRIBE v \<Longrightarrow> \<exists>u. v = VUnsubscribe u"
  "t \<in> {PUBACK, PUBREC, PUBREL, PUBCOMP} \<Longrightarrow> variant_of t v \<Longrightarrow> \<exists>a. v = VAck a"
  by (cases v; auto)+

text \<open>The return codes of the handlers.\<close>

lemma handler_codes:
  "connectHandler C p buff w tid = Inr (rc, b, w') \<Longrightarrow>
     rc \<in> {MQTT_OK, - MQTT_ERR} \<or> rc \<in> {MQTT_CONNECTION_ACCEPTED, MQTT_UNACCEPTABLE_PROTOCOL_VERSION}"
  "publishHandler C p buff w tid = Inr (rc, b, w') \<Longrightarrow> rc \<in> {MQTT_OK, - MQTT_ERR}"
  "pubackHandler C p buff w tid = Inr (rc, b, w') \<Longrightarrow> rc \<in> {MQTT_OK, - MQTT_ERR}"
  "pubrecHandler C p buff w tid = Inr (rc, b, w') \<Longrightarrow> rc \<in> {MQTT_OK, - MQTT_ERR}"
  "pubrelHandler C p buff w tid = Inr (rc, b, w') \<Longrightarrow> rc \<in> {MQTT_OK, - MQTT_ERR}"
  "pubcompHandler C p buff w tid = Inr (rc, b, w') \<Longrightarrow> rc \<in> {MQTT_OK, - MQTT_ERR}"
  "subscribeHandler C p buff w tid = Inr (rc, b, w') \<Longrightarrow> rc \<in> {MQTT_OK, - MQTT_ERR}"
  "unsubscribeHandler C p buff w tid = Inr (rc, b, w') \<Longrightarrow> rc \<in> {MQTT_OK, - MQTT_ERR}"
  "pingreqHandler C p buff w tid = Inr (rc, b, w') \<Longrightarrow> rc \<in> {MQTT_OK, - MQTT_ERR}"
  "disconnectHandler C p buff w tid = Inr (rc, b, w') \<Longrightarrow> rc \<in> {MQTT_OK, - MQTT_ERR}"
  unfolding connectHandler_def publishHandler_def pubackHandler_def pubrecHandler_def pubrelHandler_def
    pubcompHandler_def subscribeHandler_def unsubscribeHandler_def pingreqHandler_def disconnectHandler_def
    Let_def case_prod_unfold
  by (auto elim!: and_then_InrE split: variant.splits if_split_asm)

lemma arrives_wf: "arrives t p tid w \<Longrightarrow> session_wf (clients w sid)"
  by (simp add: arrives_def world_inv_def clients_inv_def)

text \<open>A write to one session that keeps its identity, timers and queue.\<close>

lemma upd_client_step:
  assumes "world_inv w" and "session_wf c" and "client_id c = client_id (clients w sid)"
    and "cs_session c = cs_session (clients w sid)" and "last_activity c = last_activity (clients w sid)"
    and "message_queue c = message_queue (clients w sid)"
  shows "world_inv (upd_client sid (\<lambda>_. c) w) \<and> evolves w (upd_client sid (\<lambda>_. c) w)"
  using assms by (auto intro!: world_inv_upd_client evolves_upd_client)

lemma remove_keeps:
  "client_id (snd (removeFromInflight k c)) = client_id c"
  "cs_session (snd (removeFromInflight k c)) = cs_session c"
  "last_activity (snd (removeFromInflight k c)) = last_activity c"
  "message_queue (snd (removeFromInflight k c)) = message_queue c"
  "client_id (snd (removeFromInflightAcknowlegement k c)) = client_id c"
  "cs_session (snd (removeFromInflightAcknowlegement k c)) = cs_session c"
  "last_activity (snd (removeFromInflightAcknowlegement k c)) = last_activity c"
  "message_queue (snd (removeFromInflightAcknowlegement k c)) = message_queue c"
  by (auto simp: removeFromInflight_def removeFromInflightAcknowlegement_def split: option.split)

lemma world_wf: "world_inv w \<Longrightarrow> session_wf (clients w sid)"
  by (simp add: world_inv_def clients_inv_def)

interpretation puback: packet_handler PUBACK "pubackHandler C" for C
proof unfold_locales
  fix p tid w buff rc buff' w'
  assume a: "arrives PUBACK p tid w"
  then obtain ack where v: "pkt p = VAck ack" by (auto simp: arrives_def split: variant.splits)
  let ?w = "updateActivity (getClientId w tid) w"
  have u: "world_inv ?w" "evolves w ?w"
    using a by (auto simp: arrives_def intro: inv_intros evolves_steps)
  show "pubackHandler C p buff w tid = Inr (rc, buff', w') \<Longrightarrow> world_inv w' \<and> evolves w w'"
    using v upd_client_step [OF u(1), of "snd (removeFromInflight (ack_packet_id ack) (clients ?w sid))" sid for sid]
      session_wf_remove(1) [OF world_wf [OF u(1)]] evolves_trans [OF u(2)]
    by (auto simp: pubackHandler_def Let_def and_then_eq_Inr deref_def case_prod_unfold remove_keeps)
  show "registered w tid \<Longrightarrow> \<exists>r. pubackHandler C p buff w tid = Inr r"
    using v by (auto simp: pubackHandler_def registered_def Let_def deref_def case_prod_unfold)
  show "pubackHandler C p buff w tid = Inl e \<Longrightarrow> e = NullDeref" for e
    using v by (auto simp: pubackHandler_def Let_def deref_def and_then_eq_Inl or_fault_eq_Inl case_prod_unfold)
next
  show "pubackHandler C p buff w tid = Inr (rc, buff', w') \<Longrightarrow>
      rc \<in> {MQTT_OK, - MQTT_ERR} \<or> (PUBACK = CONNECT \<and>
        rc \<in> {MQTT_CONNECTION_ACCEPTED, MQTT_UNACCEPTABLE_PROTOCOL_VERSION})" for p buff w tid rc buff' w'
    using handler_codes(3) by auto
qed

lemma arrives_active:
  assumes "arrives t p tid w"
  shows "world_inv (updateActivity c w)" "evolves w (updateActivity c w)"
    "tid < next_tid (updateActivity c w)"
  using assms by (auto simp: arrives_def frame_simps intro: inv_intros evolves_steps)

lemma world_evolves_trans:
  "evolves a b \<Longrightarrow> world_inv c \<and> evolves b c \<Longrightarrow> world_inv c \<and> evolves a c"
  using evolves_trans by blast

lemma push_step:
  "world_inv w \<and> evolves v w \<Longrightarrow>
     world_inv (pushDataToSend t d w) \<and> evolves v (pushDataToSend t d w)"
  using evolves_trans [OF _ evolves_push] by (auto intro: inv_intros)

lemma pubrel_sel:
  "hdr_type (header (fst (build_ack C k PUBREL buff))) = PUBREL"
  "0 < pkt_len (fst (build_ack C k PUBREL buff))"
  by (simp_all add: build_ack_simps)

lemma session_wf_pubrel:
  "session_wf c \<Longrightarrow> storeInflightAcknowlegement (fst (build_ack C k PUBREL buff)) c = Inr c' \<Longrightarrow>
     session_wf c'"
  by (rule session_wf_storeInflightAck [OF _ _ pubrel_sel])

lemma storeAck_keeps:
  "storeInflightAcknowlegement p c = Inr c' \<Longrightarrow>
     client_id c' = client_id c \<and> cs_session c' = cs_session c \<and>
     last_activity c' = last_activity c \<and> message_queue c' = message_queue c"
  by (auto simp: storeInflightAcknowlegement_def and_then_eq_Inr)

lemma storeInflight_keeps:
  "storeInflight p c = Inr c' \<Longrightarrow>
     client_id c' = client_id c \<and> cs_session c' = cs_session c \<and>
     last_activity c' = last_activity c \<and> message_queue c' = message_queue c"
  by (auto simp: storeInflight_def and_then_eq_Inr)

interpretation pubcomp: packet_handler PUBCOMP "pubcompHandler C" for C
proof unfold_locales
  fix p tid w buff rc buff' w'
  assume a: "arrives PUBCOMP p tid w"
  then obtain ack where v: "pkt p = VAck ack" by (auto simp: arrives_def split: variant.splits)
  let ?w = "updateActivity (getClientId w tid) w"
  note u = arrives_active [OF a, of "getClientId w tid"]
  show "pubcompHandler C p buff w tid = Inr (rc, buff', w') \<Longrightarrow> world_inv w' \<and> evolves w w'"
    using v upd_client_step [OF u(1), of "snd (removeFromInflightAcknowlegement (ack_packet_id ack) (clients ?w sid))" sid for sid]
      session_wf_remove(2) [OF world_wf [OF u(1)]] evolves_trans [OF u(2)]
    by (auto simp: pubcompHandler_def Let_def and_then_eq_Inr deref_def case_prod_unfold remove_keeps)
  show "registered w tid \<Longrightarrow> \<exists>r. pubcompHandler C p buff w tid = Inr r"
    using v by (auto simp: pubcompHandler_def registered_def Let_def deref_def case_prod_unfold)
  show "pubcompHandler C p buff w tid = Inl e \<Longrightarrow> e = NullDeref" for e
    using v by (auto simp: pubcompHandler_def Let_def deref_def and_then_eq_Inl or_fault_eq_Inl case_prod_unfold)
next
  show "pubcompHandler C p buff w tid = Inr (rc, buff', w') \<Longrightarrow>
      rc \<in> {MQTT_OK, - MQTT_ERR} \<or> (PUBCOMP = CONNECT \<and>
        rc \<in> {MQTT_CONNECTION_ACCEPTED, MQTT_UNACCEPTABLE_PROTOCOL_VERSION})" for p buff w tid rc buff' w'
    using handler_codes(6) by auto
qed

interpretation pubrec: packet_handler PUBREC "pubrecHandler C" for C
proof unfold_locales
  fix p tid w buff rc buff' w'
  assume a: "arrives PUBREC p tid w"
  then obtain ack where v: "pkt p = VAck ack" by (auto simp: arrives_def split: variant.splits)
  let ?w = "updateActivity (getClientId w tid) w"
  let ?p = "fst (build_ack C (ack_packet_id ack) PUBREL buff)"
  note u = arrives_active [OF a, of "getClientId w tid"]
  have ok: "storeInflightAcknowlegement ?p c \<noteq> Inl e" for c e
    by (simp add: storeInflightAcknowlegement_def build_ack_simps)
  show "pubrecHandler C p buff w tid = Inr (rc, buff', w') \<Longrightarrow> world_inv w' \<and> evolves w w'"
    using v push_step [OF world_evolves_trans [OF u(2) upd_client_step [OF u(1)]]]
      session_wf_pubrel [OF world_wf [OF u(1)]] storeAck_keeps
    by (fastforce simp: pubrecHandler_def Let_def and_then_eq_Inr deref_def case_prod_unfold)
  show "registered w tid \<Longrightarrow> \<exists>r. pubrecHandler C p buff w tid = Inr r"
    using v ok by (cases "storeInflightAcknowlegement ?p (clients ?w (the (sessionPresent (getClientId w tid) w)))")
      (auto simp: pubrecHandler_def registered_def Let_def deref_def case_prod_unfold)
  show "pubrecHandler C p buff w tid = Inl e \<Longrightarrow> e = NullDeref" for e
    using v ok by (auto simp: pubrecHandler_def Let_def deref_def and_then_eq_Inl or_fault_eq_Inl case_prod_unfold)
next
  show "pubrecHandler C p buff w tid = Inr (rc, buff', w') \<Longrightarrow>
      rc \<in> {MQTT_OK, - MQTT_ERR} \<or> (PUBREC = CONNECT \<and>
        rc \<in> {MQTT_CONNECTION_ACCEPTED, MQTT_UNACCEPTABLE_PROTOCOL_VERSION})" for p buff w tid rc buff' w'
    using handler_codes(4) by auto
qed

text \<open>A PUBLISH that was stored can be routed.\<close>

lemma inflight_pub_ok:
  assumes "session_wf c" and "fst (removeFromInflight k c) = p" and "hdr_type (header p) = PUBLISH"
  shows "pub_ok p"
proof -
  have "inflight_entry_ok (k, p)"
    using assms by (auto simp: session_wf_def removeFromInflight_def list_all_iff Packet_default_def
        Header_default_def split: option.splits dest!: map_of_in_set)
  then show ?thesis
    by (cases "pkt p") (auto simp: pub_ok_def inflight_entry_ok_def publish_id_def)
qed

lemma route_step_ok:
  assumes "world_inv w" and "pub_ok p" and "evolves v w"
  shows "\<exists>p' w'. routePacket C p None w = Inr (p', w') \<and> world_inv w' \<and> evolves v w'"
  using routePacket_ok [OF assms(1,2), of C None] evolves_trans [OF assms(3) evolves_delivers] by blast

interpretation pubrel: packet_handler PUBREL "pubrelHandler C" for C
proof unfold_locales
  fix p tid w buff
  assume a: "arrives PUBREL p tid w"
  then obtain ack where v: "pkt p = VAck ack" by (auto simp: arrives_def split: variant.splits)
  let ?w = "updateActivity (getClientId w tid) w" and ?k = "ack_packet_id ack"
  note u = arrives_active [OF a, of "getClientId w tid"]
  have main: "\<exists>rc buff' w'. pubrelHandler C p buff w tid = Inr (rc, buff', w') \<and> world_inv w' \<and> evolves w w'"
    if sid: "sessionPresent (getClientId w tid) w = Some sid" for sid
  proof -
    let ?c = "clients ?w sid" and ?v = "upd_client sid (\<lambda>_. snd (removeFromInflight ?k (clients ?w sid))) ?w"
    have s: "world_inv ?v \<and> evolves w ?v"
      by (rule world_evolves_trans [OF u(2)], rule upd_client_step [OF u(1)])
        (simp_all add: remove_keeps session_wf_remove world_wf [OF u(1)])
    show ?thesis
    proof (cases "hdr_type (header (fst (removeFromInflight ?k ?c))) = PUBLISH")
      case True
      then have "pub_ok (fst (removeFromInflight ?k ?c))"
        using inflight_pub_ok [OF world_wf [OF u(1)] refl] by simp
      with route_step_ok [of ?v _ w C] s obtain p' w' where
        r: "routePacket C (fst (removeFromInflight ?k ?c)) None ?v = Inr (p', w')" "world_inv w' \<and> evolves w w'"
        by blast
      with v sid True push_step [OF r(2)] show ?thesis
        by (simp add: pubrelHandler_def Let_def deref_def case_prod_unfold)
    next
      case False
      with v sid push_step [OF s] show ?thesis
        by (simp add: pubrelHandler_def Let_def deref_def case_prod_unfold)
    qed
  qed
  show "pubrelHandler C p buff w tid = Inr (rc, buff', w') \<Longrightarrow> world_inv w' \<and> evolves w w'" for rc buff' w'
    using main v
    by (cases "sessionPresent (getClientId w tid) w") (auto simp: pubrelHandler_def Let_def deref_def)
  show "registered w tid \<Longrightarrow> \<exists>r. pubrelHandler C p buff w tid = Inr r"
    using main by (auto simp: registered_def)
  show "pubrelHandler C p buff w tid = Inl e \<Longrightarrow> e = NullDeref" for e
    using main v
    by (cases "sessionPresent (getClientId w tid) w") (auto simp: pubrelHandler_def Let_def deref_def)
next
  show "pubrelHandler C p buff w tid = Inr (rc, buff', w') \<Longrightarrow>
      rc \<in> {MQTT_OK, - MQTT_ERR} \<or> (PUBREL = CONNECT \<and>
        rc \<in> {MQTT_CONNECTION_ACCEPTED, MQTT_UNACCEPTABLE_PROTOCOL_VERSION})" for p buff w tid rc buff' w'
    using handler_codes(5) by auto
qed

interpretation publish: packet_handler PUBLISH "publishHandler C" for C
proof unfold_locales
  fix p tid w buff
  assume a: "arrives PUBLISH p tid w"
  then obtain pub where v: "pkt p = VPublish pub" by (auto simp: arrives_def split: variant.splits)
  have pub: "pub_ok p" using a v by (simp add: arrives_def pub_ok_def)
  let ?w = "updateActivity (getClientId w tid) w" and ?q = "hdr_qos (header p)"
  note u = arrives_active [OF a, of "getClientId w tid"]
  obtain p' w1 where r: "routePacket C p None ?w = Inr (p', w1)" "world_inv w1 \<and> evolves w w1"
    using route_step_ok [OF u(1) pub u(2), of C] by blast
  have route: "\<exists>rc buff' w'. publishHandler C p buff w tid = Inr (rc, buff', w') \<and> world_inv w' \<and> evolves w w'"
    if "?q = 0 \<or> ?q = 1"
    using that r(1) r(2) push_step [OF r(2)] v by (auto simp: publishHandler_def Let_def)
  have store: "\<exists>rc buff' w'. publishHandler C p buff w tid = Inr (rc, buff', w') \<and> world_inv w' \<and> evolves w w'"
    if q: "?q \<noteq> 0" "?q \<noteq> 1" and sid: "sessionPresent (getClientId w tid) w = Some sid" for sid
  proof (cases "pkt_len (getPacket (pub_packet_id pub) PUBLISH (clients ?w sid)) = 0")
    case True
    obtain c where c: "storeInflight p (clients ?w sid) = Inr c" by (simp add: storeInflight_def v)
    have "session_wf c"
      by (rule session_wf_storeInflight [OF world_wf [OF u(1)] c])
        (use a q in \<open>auto simp: arrives_def word_greater_zero_iff\<close>)
    then have "world_inv (upd_client sid (\<lambda>_. c) ?w) \<and> evolves ?w (upd_client sid (\<lambda>_. c) ?w)"
      using storeInflight_keeps [OF c] by (intro upd_client_step [OF u(1)]) auto
    from push_step [OF world_evolves_trans [OF u(2) this]] c q True v sid show ?thesis
      by (simp add: publishHandler_def Let_def deref_def)
  next
    case False
    with push_step [of ?w w] u(1,2) q v sid show ?thesis
      by (simp add: publishHandler_def Let_def deref_def)
  qed
  have none: "publishHandler C p buff w tid = Inl NullDeref"
    if "?q \<noteq> 0" "?q \<noteq> 1" "sessionPresent (getClientId w tid) w = None"
    using that v by (simp add: publishHandler_def Let_def deref_def)
  show "publishHandler C p buff w tid = Inr (rc, buff', w') \<Longrightarrow> world_inv w' \<and> evolves w w'" for rc buff' w'
    using route store none by (cases "sessionPresent (getClientId w tid) w") fastforce+
  show "registered w tid \<Longrightarrow> \<exists>r. publishHandler C p buff w tid = Inr r"
    using route store by (fastforce simp: registered_def)
  show "publishHandler C p buff w tid = Inl e \<Longrightarrow> e = NullDeref" for e
    using route store none by (cases "sessionPresent (getClientId w tid) w") fastforce+
next
  show "publishHandler C p buff w tid = Inr (rc, buff', w') \<Longrightarrow>
      rc \<in> {MQTT_OK, - MQTT_ERR} \<or> (PUBLISH = CONNECT \<and>
        rc \<in> {MQTT_CONNECTION_ACCEPTED, MQTT_UNACCEPTABLE_PROTOCOL_VERSION})" for p buff w tid rc buff' w'
    using handler_codes(2) by auto
qed

text \<open>The state part of the loop of \<open>subscribeHandler\<close>, and its return codes.\<close>

definition granted :: "topic_tuple \<Rightarrow> u8" where
  "granted t = (if tp_qos t < 3 then tp_qos t else 0x80)"

definition add_subscription :: "string \<Rightarrow> topic_tuple \<Rightarrow> world \<Rightarrow> world" where
  "add_subscription cid t w =
     (if tp_qos t < 3 then createSubscription (tp_topic t) (tp_qos t) cid w else w)"

lemma fold_subscribe_one:
  "fold (subscribe_one cid) ts (rcs, w) = (rcs @ map granted ts, fold (add_subscription cid) ts w)"
  by (induction ts arbitrary: rcs w) (simp_all add: subscribe_one_def granted_def add_subscription_def)

lemma add_subscription_step:
  "world_inv w \<Longrightarrow> world_inv (add_subscription cid t w)" "evolves w (add_subscription cid t w)"
  by (auto simp: add_subscription_def intro: inv_intros evolves_steps)

lemma fold_world_inv:
  "(\<And>x w. world_inv w \<Longrightarrow> world_inv (f x w)) \<Longrightarrow> world_inv w \<Longrightarrow> world_inv (fold f xs w)"
  by (induction xs arbitrary: w) auto

lemma subscribeHandler_eq:
  assumes "pkt p = VSubscribe s"
  shows "subscribeHandler C p buff w tid =
    (let c = getClientId w tid;
         buff' = build_suback C (sub_packet_id s) (map granted (sub_payload s)) buff
     in Inr (MQTT_OK, buff', pushDataToSend tid buff'
          (fold (add_subscription c) (sub_payload s) (updateActivity c w))))"
  using assms by (simp add: subscribeHandler_def Let_def fold_subscribe_one)

interpretation subscribe: packet_handler SUBSCRIBE "subscribeHandler C" for C
proof unfold_locales
  fix p tid w buff rc buff' w'
  assume a: "arrives SUBSCRIBE p tid w"
  then obtain s where v: "pkt p = VSubscribe s" by (auto simp: arrives_def split: variant.splits)
  let ?c = "getClientId w tid"
  note u = arrives_active [OF a, of ?c]
  have "world_inv (fold (add_subscription ?c) (sub_payload s) (updateActivity ?c w)) \<and>
      evolves w (fold (add_subscription ?c) (sub_payload s) (updateActivity ?c w))"
    using fold_world_inv [where f = "add_subscription ?c", OF add_subscription_step(1) u(1)]
      evolves_trans [OF u(2) evolves_fold [where f = "add_subscription ?c", OF add_subscription_step(2)]]
    by blast
  from push_step [OF this]
  show "subscribeHandler C p buff w tid = Inr (rc, buff', w') \<Longrightarrow> world_inv w' \<and> evolves w w'"
    by (auto simp: subscribeHandler_eq [OF v] Let_def)
next
  show "subscribeHandler C p buff w tid = Inr (rc, buff', w') \<Longrightarrow>
      rc \<in> {MQTT_OK, - MQTT_ERR} \<or> (SUBSCRIBE = CONNECT \<and>
        rc \<in> {MQTT_CONNECTION_ACCEPTED, MQTT_UNACCEPTABLE_PROTOCOL_VERSION})" for p buff w tid rc buff' w'
    using handler_codes(7) by auto
qed (auto simp: arrives_def subscribeHandler_eq Let_def split: variant.splits)

interpretation unsubscribe: packet_handler UNSUBSCRIBE "unsubscribeHandler C" for C
proof unfold_locales
  show "unsubscribeHandler C p buff w tid = Inr (rc, buff', w') \<Longrightarrow>
      rc \<in> {MQTT_OK, - MQTT_ERR} \<or> (UNSUBSCRIBE = CONNECT \<and>
        rc \<in> {MQTT_CONNECTION_ACCEPTED, MQTT_UNACCEPTABLE_PROTOCOL_VERSION})" for p buff w tid rc buff' w'
    using handler_codes(8) by auto
qed (auto simp: arrives_def unsubscribeHandler_def split: variant.splits)

interpretation pingreq: packet_handler PINGREQ "pingreqHandler C" for C
proof unfold_locales
  fix p tid w buff rc buff' w'
  assume a: "arrives PINGREQ p tid w"
  show "pingreqHandler C p buff w tid = Inr (rc, buff', w') \<Longrightarrow> world_inv w' \<and> evolves w w'"
    using push_step [of "updateActivity (getClientId w tid) w" w] arrives_active [OF a]
    by (auto simp: pingreqHandler_def Let_def)
next
  show "pingreqHandler C p buff w tid = Inr (rc, buff', w') \<Longrightarrow>
      rc \<in> {MQTT_OK, - MQTT_ERR} \<or> (PINGREQ = CONNECT \<and>
        rc \<in> {MQTT_CONNECTION_ACCEPTED, MQTT_UNACCEPTABLE_PROTOCOL_VERSION})" for p buff w tid rc buff' w'
    using handler_codes(9) by auto
qed (auto simp: pingreqHandler_def Let_def)

interpretation disconnect: packet_handler DISCONNECT "disconnectHandler C" for C
  by unfold_locales (auto simp: arrives_def disconnectHandler_def)

subsection \<open>connectHandler\<close>

definition steps :: "world \<Rightarrow> world \<Rightarrow> bool" where
  "steps w w' \<longleftrightarrow> world_inv w' \<and> evolves w w'"

lemma steps_trans: "steps a b \<Longrightarrow> steps b c \<Longrightarrow> steps a c"
  using evolves_trans by (auto simp: steps_def)

lemma steps_refl: "world_inv w \<Longrightarrow> steps w w"
  by (simp add: steps_def)

lemma steps_push: "world_inv w \<Longrightarrow> steps w (pushDataToSend t d w)"
  by (auto simp: steps_def intro: inv_intros evolves_steps)

lemma steps_upd:
  assumes "world_inv w" and "session_wf (clients w sid) \<Longrightarrow> session_wf (f (clients w sid))"
    and "client_id (f (clients w sid)) = client_id (clients w sid)"
    and "cs_session (f (clients w sid)) = cs_session (clients w sid)"
    and "last_activity (f (clients w sid)) = last_activity (clients w sid)"
    and "message_queue (f (clients w sid)) = message_queue (clients w sid)"
  shows "steps w (upd_client sid f w)"
  using assms by (auto simp: steps_def intro!: world_inv_upd_client evolves_upd_client)

lemma disconnect_old_step:
  assumes "world_inv w" shows "steps w (disconnect_old cs w)"
proof -
  have s: "steps w (case lock_transport w (cs_session (clients w cs)) of
      Some old_session \<Rightarrow> forceDisconnect old_session w | None \<Rightarrow> w)"
    using assms by (auto simp: steps_def intro: inv_intros evolves_steps split: option.split)
  then have "world_inv (case lock_transport w (cs_session (clients w cs)) of
      Some old_session \<Rightarrow> forceDisconnect old_session w | None \<Rightarrow> w)"
    by (simp add: steps_def)
  from steps_upd [OF this, of cs "\<lambda>c. c\<lparr>connected := False\<rparr>"] s show ?thesis
    using steps_refl [OF assms]
    by (auto simp: disconnect_old_def session_wf_def intro: steps_trans)
qed

lemma disconnect_old_sel:
  "m_sessionRegistry (disconnect_old cs w) = m_sessionRegistry w" "next_sid (disconnect_old cs w) = next_sid w"
  "next_tid (disconnect_old cs w) = next_tid w" "now_ms (disconnect_old cs w) = now_ms w"
  "clients (disconnect_old cs w) = (clients w)(cs := (clients w cs)\<lparr>connected := False\<rparr>)"
  "sent (disconnect_old cs w) = sent w" "held (disconnect_old cs w) = held w"
  by (cases "clients w cs"; auto simp: disconnect_old_def forceDisconnect_def removeSession_def frame_simps
      split: option.split)+

definition same_but_sent :: "world \<Rightarrow> world \<Rightarrow> bool" where
  "same_but_sent w w' \<longleftrightarrow> (\<exists>out. w' = w\<lparr>sent := sent w @ out\<rparr>)"

lemma same_but_sent_push: "same_but_sent w v \<Longrightarrow> same_but_sent w (pushDataToSend t d v)"
  by (auto simp: same_but_sent_def pushDataToSend_def)

lemma resendMessages_ok:
  assumes "same_but_sent w v" and "hdr_type (header p) = PUBLISH \<longrightarrow> (\<exists>pub. pkt p = VPublish pub)"
  shows "\<exists>v'. resendMessages C p k t v = Inr v' \<and> same_but_sent w v'"
  using assms
  by (auto simp: resendMessages_def Let_def build_publish_def case_prod_unfold intro: same_but_sent_push)

lemma resume_session_ok:
  assumes "world_inv w"
  shows "\<exists>w'. resume_session C cs w = Inr w' \<and> same_but_sent w w'"
proof (cases "lock_transport w (cs_session (clients w cs))")
  case None
  then show ?thesis by (auto simp: resume_session_def same_but_sent_def intro: exI [of _ "[]"])
next
  case (Some t)
  let ?f = "\<lambda>(k, p). resendMessages C p k t"
  have pub: "hdr_type (header p) = PUBLISH \<longrightarrow> (\<exists>pub. pkt p = VPublish pub)"
    if "(k, p) \<in> set (inflight (clients w cs)) \<union> set (inflight_ack (clients w cs))" for k p
    using that world_wf [OF assms, of cs]
    by (cases "pkt p") (auto simp: session_wf_def list_all_iff inflight_entry_ok_def ack_entry_ok_def publish_id_def)
  have "\<exists>w'. fold_r ?f xs v = Inr w' \<and> same_but_sent w w'"
    if "same_but_sent w v" "set xs \<subseteq> set (inflight (clients w cs)) \<union> set (inflight_ack (clients w cs))" for xs v
    using fold_r_total [where P = "same_but_sent w" and f = ?f and xs = xs and s = v] that
      resendMessages_ok [of w _ _ C _ t] pub by (auto split: prod.splits) blast
  note run = this
  have "same_but_sent w w" by (auto simp: same_but_sent_def intro: exI [of _ "[]"])
  then obtain v where v: "fold_r ?f (inflight (clients w cs)) w = Inr v" "same_but_sent w v"
    using run [of w "inflight (clients w cs)"] by auto
  from run [OF v(2), of "inflight_ack (clients w cs)"] v(1) show ?thesis
    by (auto simp: resume_session_def Some)
qed

lemma same_but_sent_steps: "world_inv w \<Longrightarrow> same_but_sent w w' \<Longrightarrow> steps w w'"
  by (auto simp: same_but_sent_def steps_def evolves_def world_inv_def inv_defs)

text \<open>A session that the registry and the tree do not mention can be given any identity.\<close>

definition unreferenced :: "world \<Rightarrow> nat \<Rightarrow> bool" where
  "unreferenced w sid \<longleftrightarrow>
     (\<forall>c. map_of (m_sessionRegistry w) c \<noteq> Some sid) \<and>
     (\<forall>p c s. look (m_topicTree w) p c = Some s \<longrightarrow> sub_session s \<noteq> sid)"

lemma unreferenced_upd_client [simp]: "unreferenced (upd_client a f w) sid = unreferenced w sid"
  by (simp add: unreferenced_def frame_simps)

lemma world_inv_upd_unreferenced:
  assumes inv: "world_inv w" and un: "unreferenced w sid" and wf: "session_wf (f (clients w sid))"
    and t: "\<And>t. cs_session (f (clients w sid)) = Some t \<Longrightarrow> t < next_tid w"
    and l: "last_activity (f (clients w sid)) \<le> now_ms w"
  shows "world_inv (upd_client sid f w)"
proof (rule world_invI)
  show "registry_inv (upd_client sid f w)"
    using inv un unfolding world_inv_def registry_inv_def unreferenced_def upd_client_sel
    by (metis fun_upd_apply)
  show "tree_inv (upd_client sid f w)"
    using inv un unfolding world_inv_def tree_inv_def unreferenced_def upd_client_sel
    by (metis fun_upd_apply)
  show "clients_inv (upd_client sid f w)" "heaps_inv (upd_client sid f w)" "transports_inv (upd_client sid f w)"
    using inv wf t l by (auto simp: world_inv_def inv_defs frame_simps)
qed

lemma evolves_upd_fresh:
  "evolves w v \<Longrightarrow> next_sid w \<le> sid \<Longrightarrow> evolves w (upd_client sid f v)"
  by (auto simp: evolves_def frame_simps)

lemma make_client_fresh:
  assumes "world_inv w"
  shows "unreferenced (snd (make_client w)) (fst (make_client w))"
    "clients (snd (make_client w)) (fst (make_client w)) = ClientSession_new"
    "fst (make_client w) = next_sid w" "next_sid (snd (make_client w)) = next_sid w + 1"
    "next_tid (snd (make_client w)) = next_tid w" "now_ms (snd (make_client w)) = now_ms w"
proof -
  have "map_of (m_sessionRegistry w) c = Some sid \<Longrightarrow> sid < next_sid w"
    "look (m_topicTree w) p c = Some s \<Longrightarrow> sub_session s < next_sid w" for c sid p s
    using assms unfolding world_inv_def registry_inv_def tree_inv_def by blast+
  then show "unreferenced (snd (make_client w)) (fst (make_client w))"
    by (fastforce simp: unreferenced_def make_client_def)
qed (simp_all add: make_client_def)

text \<open>The session picked is the client's own, or a fresh one that nothing refers to.\<close>

definition picked :: "world \<Rightarrow> string \<Rightarrow> nat \<Rightarrow> bool \<Rightarrow> world \<Rightarrow> bool" where
  "picked w c cs add w' \<longleftrightarrow>
     steps w w' \<and> cs < next_sid w' \<and> next_tid w' = next_tid w \<and>
     (if add then next_sid w \<le> cs \<and> clients w' cs = ClientSession_new \<and> unreferenced w' cs
      else client_id (clients w' cs) = c)"

lemma picked_fresh:
  assumes "steps w v" and "next_tid v = next_tid w"
  shows "picked w c (fst (make_client v)) True (snd (make_client v))"
proof -
  have v: "world_inv v" "evolves w v" using assms(1) by (simp_all add: steps_def)
  have "steps v (snd (make_client v))"
    using v(1) by (auto simp: steps_def intro: inv_intros evolves_steps)
  then show ?thesis
    using make_client_fresh [OF v(1)] steps_trans [OF assms(1)] v(2) assms(2)
    by (auto simp: picked_def evolves_def)
qed

lemma select_session_ok:
  assumes "world_inv w"
  shows "\<exists>cs sp add w'. select_session C cn w = Inr (cs, sp, add, w') \<and> picked w (cn_client_id cn) cs add w'"
proof (cases "sessionPresent (cn_client_id cn) w")
  case None
  then have "select_session C cn w = Inr (fst (make_client w), 0, True, snd (make_client w))"
    by (simp add: select_session_def case_prod_unfold Let_def)
  with picked_fresh [OF steps_refl [OF assms] refl] show ?thesis by blast
next
  case (Some cs)
  let ?w = "disconnect_old cs w"
  have d: "steps w ?w" "world_inv ?w" using disconnect_old_step [OF assms] by (auto simp: steps_def)
  show ?thesis
  proof (cases "cf_cleansession (cn_cf cn)")
    case True
    let ?v = "removeFromRegistry (cn_client_id cn) ?w"
    have "steps ?w ?v" using d(2) by (auto simp: steps_def intro: inv_intros evolves_steps)
    moreover have "next_tid ?v = next_tid w" by (simp add: removeFromRegistry_def disconnect_old_sel)
    ultimately have "picked w (cn_client_id cn) (fst (make_client ?v)) True (snd (make_client ?v))"
      using picked_fresh [OF steps_trans [OF d(1)]] by blast
    moreover have "select_session C cn w = Inr (fst (make_client ?v), 0, True, snd (make_client ?v))"
      using Some True by (simp add: select_session_def Let_def case_prod_unfold)
    ultimately show ?thesis by blast
  next
    case False
    obtain v where v: "resume_session C cs ?w = Inr v" "same_but_sent ?w v"
      using resume_session_ok [OF d(2)] by blast
    have "steps w v" using steps_trans [OF d(1) same_but_sent_steps [OF d(2) v(2)]] .
    moreover have "cs < next_sid v" "next_tid v = next_tid w" "client_id (clients v cs) = cn_client_id cn"
      using v(2) sessionPresent_less [OF assms Some] by (auto simp: same_but_sent_def disconnect_old_sel)
    ultimately show ?thesis
      using Some False v(1) by (auto simp: select_session_def Let_def picked_def)
  qed
qed

text \<open>The rest of the handler, on the session that was picked.\<close>

definition connect_fields :: "Connect \<Rightarrow> ClientSession \<Rightarrow> ClientSession" where
  "connect_fields cn c = c\<lparr>client_id := cn_client_id cn, keep_alive := cn_keep_alive cn,
     cleansession := cf_cleansession (cn_cf cn)\<rparr>"

definition admit :: "Connect \<Rightarrow> nat \<Rightarrow> nat \<Rightarrow> bool \<Rightarrow> world \<Rightarrow> world" where
  "admit cn tid cs add w =
     (let w = upd_client cs (connect_fields cn) w in
      if cn_level cn \<noteq> 0x04 then upd_client cs (\<lambda>c. c\<lparr>connected := False\<rparr>) w
      else if add then
        scheduleExpiry cs (addToRegistry cs (upd_client cs (\<lambda>c. c\<lparr>connected := True,
          cs_session := Some tid, last_activity := now_ms w\<rparr>) w))
      else w)"

definition connack_code :: "Connect \<Rightarrow> u8" where
  "connack_code cn = (if cn_level cn \<noteq> 0x04 then 0x01 else 0x00)"

definition connack_bytes :: "core \<Rightarrow> u8 \<Rightarrow> u8 \<Rightarrow> u8 list" where
  "connack_bytes C sp rc =
     [0x20, 2, if core_little_endian C then sp else rc]"

lemma connectHandler_eq:
  assumes "pkt p = VConnect cn"
  shows "connectHandler C p buff w tid =
    and_then (select_session C cn w) (\<lambda>(cs, sp, add, w).
      Inr (if cn_level cn \<noteq> 0x04 then MQTT_UNACCEPTABLE_PROTOCOL_VERSION else MQTT_CONNECTION_ACCEPTED,
           buff @ connack_bytes C sp (connack_code cn), admit cn tid cs add w))"
proof -
  have h: "header_pack (Header_default\<lparr>hdr_type := CONNACK\<rparr>) = 0x20"
    by (simp add: header_pack_def Header_default_def)
  have e: "snd (encode_length 2 []) = [2]"
    using encode_length_vbi [of 2 "[]"] by (simp add: vbi_small)
  show ?thesis
  proof (cases "select_session C cn w")
    case (Inr r)
    obtain cs sp add v where r: "r = (cs, sp, add, v)" by (cases r)
    show ?thesis
      unfolding connectHandler_def assms variant.case Inr r and_then.simps prod.case Let_def h e
      by (cases "cn_level cn = 4"; cases add)
        (simp_all add: connack_pack_byte connack_bytes_def connack_code_def admit_def
          connect_fields_def [abs_def] Let_def)
  qed (simp add: connectHandler_def assms)
qed

lemma session_wf_fields:
  "session_wf (connect_fields cn c) = session_wf c"
  "session_wf (c\<lparr>connected := b\<rparr>) = session_wf c"
  "session_wf (c\<lparr>connected := b, cs_session := s, last_activity := l\<rparr>) = session_wf c"
  by (simp_all add: session_wf_def connect_fields_def)

lemma admit_steps:
  assumes p: "picked w (cn_client_id cn) cs add v" and tid: "tid < next_tid w"
  shows "steps w (admit cn tid cs add v)"
proof -
  let ?v = "upd_client cs (connect_fields cn) v"
  have v: "world_inv v" "evolves w v" "cs < next_sid v" "next_tid v = next_tid w"
    using p by (simp_all add: picked_def steps_def)
  have now: "0 \<le> now_ms v" using v(1) by (simp add: world_inv_def clients_inv_def)
  show ?thesis
  proof (cases add)
    case True
    then have f: "next_sid w \<le> cs" "clients v cs = ClientSession_new" "unreferenced v cs"
      using p by (simp_all add: picked_def)
    define c0 where "c0 = connect_fields cn ClientSession_new"
    have c0: "session_wf c0" "cs_session c0 = None" "last_activity c0 = 0"
      by (simp add: c0_def session_wf_fields, simp_all add: c0_def connect_fields_def)
    have v1: "world_inv ?v"
      by (rule world_inv_upd_unreferenced [OF v(1) f(3)])
        (unfold f(2) c0_def [symmetric], use c0 now in simp_all)
    have at: "clients ?v cs = c0" "next_tid ?v = next_tid w" "now_ms ?v = now_ms v"
      using f(2) v(4) by (simp_all add: frame_simps c0_def)
    let ?u = "\<lambda>f. upd_client cs f ?v"
    have up: "steps w (?u g)"
      if "session_wf (g c0)" "\<And>t. cs_session (g c0) = Some t \<Longrightarrow> t < next_tid w"
        "last_activity (g c0) \<le> now_ms v" for g
    proof -
      have "world_inv (?u g)"
        by (rule world_inv_upd_unreferenced [OF v1]) (unfold at unreferenced_upd_client, rule f(3), rule that, erule that, rule that)
      moreover have "evolves w (?u g)"
        by (rule evolves_upd_fresh [OF evolves_upd_fresh [OF v(2) f(1)] f(1)])
      ultimately show ?thesis by (simp add: steps_def)
    qed
    have bad: "steps w (?u (\<lambda>c. c\<lparr>connected := False\<rparr>))"
      by (rule up) (use c0 now in \<open>simp_all add: session_wf_fields\<close>)
    let ?g = "\<lambda>c. c\<lparr>connected := True, cs_session := Some tid, last_activity := now_ms v\<rparr>"
    have good: "steps w (?u ?g)"
      by (rule up) (use c0 tid in \<open>simp_all add: session_wf_fields\<close>)
    define x where "x = ?u ?g"
    have x: "steps w x" "cs < next_sid x" using good v(3) by (simp_all add: x_def frame_simps)
    have "steps w (addToRegistry cs x)"
      using x world_inv_addToRegistry evolves_trans [OF _ evolves_addToRegistry]
      unfolding steps_def by blast
    moreover have "cs < next_sid (addToRegistry cs x)" using x(2) by (simp add: addToRegistry_def)
    ultimately have "steps w (scheduleExpiry cs (addToRegistry cs x))"
      using world_inv_scheduleExpiry evolves_trans [OF _ evolves_only_removes [OF only_removes_scheduleExpiry]]
      unfolding steps_def by blast
    then have "steps w (scheduleExpiry cs (addToRegistry cs (?u ?g)))" unfolding x_def .
    moreover have "now_ms ?v = now_ms v" by (simp add: frame_simps)
    ultimately show ?thesis using True bad by (simp add: admit_def Let_def)
  next
    case False
    then have c: "client_id (clients v cs) = cn_client_id cn" using p by (simp add: picked_def)
    have "steps v ?v"
      by (rule steps_upd [OF v(1)]) (simp_all add: session_wf_fields, simp_all add: connect_fields_def c)
    moreover from this have "steps ?v (upd_client cs (\<lambda>c. c\<lparr>connected := False\<rparr>) ?v)"
      by (intro steps_upd) (simp_all add: steps_def session_wf_fields)
    moreover have "steps w v" using v by (simp add: steps_def)
    ultimately have "steps w ?v" "steps w (upd_client cs (\<lambda>c. c\<lparr>connected := False\<rparr>) ?v)"
      using steps_trans by blast+
    then show ?thesis using False by (simp add: admit_def Let_def)
  qed
qed

interpretation connect: packet_handler CONNECT "connectHandler C" for C
proof unfold_locales
  fix p tid w buff
  assume a: "arrives CONNECT p tid w"
  then obtain cn where v: "pkt p = VConnect cn" by (auto simp: arrives_def split: variant.splits)
  have w: "world_inv w" "tid < next_tid w" using a by (simp_all add: arrives_def)
  obtain cs sp add w1 where s: "select_session C cn w = Inr (cs, sp, add, w1)"
    "picked w (cn_client_id cn) cs add w1"
    using select_session_ok [OF w(1)] by blast
  note r = connectHandler_eq [OF v, of C buff w tid, unfolded s(1) and_then.simps prod.case]
  show "connectHandler C p buff w tid = Inr (rc, buff', w') \<Longrightarrow> world_inv w' \<and> evolves w w'" for rc buff' w'
    using admit_steps [OF s(2) w(2)] by (auto simp: r steps_def)
  show "\<exists>r. connectHandler C p buff w tid = Inr r" by (simp add: r)
  show "connectHandler C p buff w tid = Inl e \<Longrightarrow> e = NullDeref" for e by (simp add: r)
next
  show "connectHandler C p buff w tid = Inr (rc, buff', w') \<Longrightarrow>
      rc \<in> {MQTT_OK, - MQTT_ERR} \<or> (CONNECT = CONNECT \<and>
        rc \<in> {MQTT_CONNECTION_ACCEPTED, MQTT_UNACCEPTABLE_PROTOCOL_VERSION})" for p buff w tid rc buff' w'
    using handler_codes(1) by auto
qed


subsection \<open>Every entry of the table\<close>

lemma handlers_contract:
  assumes "handlers C ! i = Some h" and "i < length (handlers C)"
  shows "packet_handler (pt_of (of_nat i)) h"
proof -
  have "i \<in> {0, 1, 2, 3, 4, 5, 6, 7, 8, 9, 10, 11, 12, 13, 14}"
    using assms(2) unfolding insert_iff empty_iff by (simp add: handlers_def) arith
  with assms(1) show ?thesis
    by (auto simp: handlers_def pt_of_def connect.packet_handler_axioms publish.packet_handler_axioms
        puback.packet_handler_axioms pubrec.packet_handler_axioms pubrel.packet_handler_axioms
        pubcomp.packet_handler_axioms subscribe.packet_handler_axioms
        unsubscribe.packet_handler_axioms pingreq.packet_handler_axioms disconnect.packet_handler_axioms)
qed
end
