(* ===== verification/Handler_Properties.thy ===== *)
theory Handler_Properties
  imports Handlers
begin

text \<open>
  What the packet handlers do to the protocol state, in terms of the registry, the in-flight maps and
  the subscriptions: who is connected after a CONNECT, the two halves of a QoS 2 exchange, and where a
  SUBSCRIBE leaves its subscriptions.
\<close>

subsection \<open>CONNECT\<close>

lemma admit_sel:
  "clients (admit cn tid cs False w) cs' =
     (if cs' = cs then (connect_fields cn (clients w cs))
        \<lparr>connected := connected (clients w cs) \<and> cn_level cn = 4\<rparr> else clients w cs')"
  "m_sessionRegistry (admit cn tid cs False w) = m_sessionRegistry w"
  "m_expiryHeap (admit cn tid cs False w) = m_expiryHeap w"
  by (auto simp: admit_def connect_fields_def frame_simps Let_def)

lemma admit_refused:
  assumes "cn_level cn \<noteq> 4"
  shows "m_sessionRegistry (admit cn tid cs add w) = m_sessionRegistry w"
    "m_expiryHeap (admit cn tid cs add w) = m_expiryHeap w"
    "\<not> connected (clients (admit cn tid cs add w) cs)"
  using assms by (simp_all add: admit_def frame_simps Let_def)

lemma admit_added:
  assumes "cn_level cn = 4"
  shows "clients (admit cn tid cs True w) cs = (connect_fields cn (clients w cs))
      \<lparr>connected := True, cs_session := Some tid, last_activity := now_ms w,
       expiry_ms := (if cn_keep_alive cn = 0 then expiry_ms (clients w cs)
         else now_ms w + uint (cn_keep_alive cn) * 1500)\<rparr>"
    "map_of (m_sessionRegistry (admit cn tid cs True w)) =
       (map_of (m_sessionRegistry w))(cn_client_id cn \<mapsto> cs)"
    "m_expiryHeap (admit cn tid cs True w) = m_expiryHeap w @
       (if cn_keep_alive cn = 0 then []
        else [\<lparr>ee_expiry_ms = now_ms w + uint (cn_keep_alive cn) * 1500, ee_session = cs\<rparr>])"
    "m_sessions (admit cn tid cs True w) = m_sessions w"
  using assms
  by (auto simp: admit_def addToRegistry_def scheduleExpiry_def deadline_def pq_push_def
      connect_fields_def frame_simps Let_def)

lemma connect_step:
  assumes "world_inv w" and "tid < next_tid w" and "pkt p = VConnect cn"
    and "hdr_type (header p) = CONNECT" and "0 < pkt_len p"
    and "connectHandler C p buff w tid = Inr (rc, buff', w')"
  shows "world_inv w'" "evolves w w'"
proof -
  have "arrives CONNECT p tid w" using assms by (simp add: arrives_def)
  from connect.step [OF this assms(6)] show "world_inv w'" "evolves w w'" by blast+
qed

lemma select_session_fresh:
  "sessionPresent (cn_client_id cn) w = None \<Longrightarrow>
     select_session C cn w = Inr (fst (make_client w), 0, True, snd (make_client w))"
  by (simp add: select_session_def case_prod_unfold Let_def)

lemma make_client_sel:
  "fst (make_client w) = next_sid w" "m_sessionRegistry (snd (make_client w)) = m_sessionRegistry w"
  "m_expiryHeap (snd (make_client w)) = m_expiryHeap w" "now_ms (snd (make_client w)) = now_ms w"
  "clients (snd (make_client w)) = (clients w)(next_sid w := ClientSession_new)"
  "m_sessions (snd (make_client w)) = m_sessions w" "held (snd (make_client w)) = held w"
  "m_topicTree (snd (make_client w)) = m_topicTree w" "sent (snd (make_client w)) = sent w"
  by (simp_all add: make_client_def)

lemma connect_fresh_eq:
  assumes "pkt p = VConnect cn" and "cn_level cn = 4" and "sessionPresent (cn_client_id cn) w = None"
  shows "connectHandler C p [] w tid = Inr (MQTT_CONNECTION_ACCEPTED, [0x20, 2, 0],
    admit cn tid (next_sid w) True (snd (make_client w)))"
  using assms(2) select_session_fresh [OF assms(3), of C]
  by (simp add: connectHandler_eq [OF assms(1)] make_client_sel connack_bytes_def connack_code_def)

lemma select_session_resume:
  assumes "world_inv w" and "sessionPresent (cn_client_id cn) w = Some cs" and "\<not> cf_cleansession (cn_cf cn)"
  shows "\<exists>out. select_session C cn w =
    Inr (cs, 1, False, (disconnect_old cs w)\<lparr>sent := sent w @ out\<rparr>)"
proof -
  have "world_inv (disconnect_old cs w)" using disconnect_old_step [OF assms(1)] by (simp add: steps_def)
  then obtain v where "resume_session C cs (disconnect_old cs w) = Inr v"
    "same_but_sent (disconnect_old cs w) v" using resume_session_ok by blast
  with assms(2,3) show ?thesis
    by (auto simp: select_session_def Let_def same_but_sent_def disconnect_old_sel)
qed

lemma select_session_clean:
  assumes "sessionPresent (cn_client_id cn) w = Some cs" and "cf_cleansession (cn_cf cn)"
  shows "select_session C cn w =
    (let v = removeFromRegistry (cn_client_id cn) (disconnect_old cs w) in
     Inr (fst (make_client v), 0, True, snd (make_client v)))"
  using assms by (simp add: select_session_def Let_def case_prod_unfold)

lemma disconnect_old_heap: "m_expiryHeap (disconnect_old cs w) = m_expiryHeap w"
  by (simp add: disconnect_old_def forceDisconnect_def removeSession_def frame_simps split: option.split)

text \<open>A clean reconnect drops the old session from the registry, but not its entries from the heap.\<close>

lemma clean_reconnect:
  assumes "world_inv w" and "tid < next_tid w" and "hdr_type (header p) = CONNECT" and "0 < pkt_len p"
    and "pkt p = VConnect cn" and "cn_level cn = 4" and "cf_cleansession (cn_cf cn)"
    and "sessionPresent (cn_client_id cn) w = Some sid"
    and "e \<in> set (m_expiryHeap w)" and "ee_session e = sid"
  shows "\<exists>buff w'. connectHandler C p [] w tid = Inr (MQTT_CONNECTION_ACCEPTED, buff, w') \<and>
    e \<in> set (m_expiryHeap w') \<and> \<not> client_alive w' sid"
proof -
  let ?u = "removeFromRegistry (cn_client_id cn) (disconnect_old sid w)"
  let ?v = "snd (make_client ?u)"
  let ?w = "admit cn tid (fst (make_client ?u)) True ?v"
  obtain buff where r: "connectHandler C p [] w tid = Inr (MQTT_CONNECTION_ACCEPTED, buff, ?w)"
    using assms(6) select_session_clean [OF assms(8,7), of C]
    by (simp add: connectHandler_eq [OF assms(5)] Let_def)
  have inv: "world_inv ?w" "evolves w ?w"
    using connect_step [OF assms(1,2,5,3,4) r] by blast+
  have sid: "sid < next_sid w" "client_id (clients w sid) = cn_client_id cn"
    using sessionPresent_less [OF assms(1,8)] by blast+
  then have c: "client_id (clients ?w sid) = cn_client_id cn"
    using inv(2) by (simp add: evolves_def)
  have "fst (make_client ?u) = next_sid w"
    by (simp add: make_client_sel removeFromRegistry_def disconnect_old_sel)
  then have "map_of (m_sessionRegistry ?w) (cn_client_id cn) \<noteq> Some sid"
    using admit_added(2) [OF assms(6), of tid _ ?v] sid(1) by simp
  then have "\<not> client_alive ?w sid"
    using client_alive_iff [of ?w sid] inv(1) c by (simp add: world_inv_def)
  moreover have "m_expiryHeap ?u = m_expiryHeap w"
    by (simp add: removeFromRegistry_def disconnect_old_heap)
  then have "e \<in> set (m_expiryHeap ?w)"
    using admit_added(3) [OF assms(6), of tid _ ?v] assms(9) by (simp add: make_client_sel)
  ultimately show ?thesis using r by blast
qed

definition sample_connect :: "string \<Rightarrow> u8 \<Rightarrow> bool \<Rightarrow> Packet" where
  "sample_connect c lv clean =
     \<lparr>header = Header_default, pkt_len = 14,
      pkt = VConnect (Connect_default\<lparr>cn_level := lv, cn_cf := ConnectFlags_default\<lparr>cf_cleansession := clean\<rparr>,
        cn_keep_alive := 10, cn_client_id := c\<rparr>)\<rparr>"

subsection \<open>Properties of CONNECT\<close>

text \<open>The state after a CONNECT of another protocol level.\<close>

lemma admit_refused_eq:
  "cn_level cn \<noteq> 4 \<Longrightarrow>
     admit cn tid cs add w = upd_client cs (\<lambda>c. (connect_fields cn c)\<lparr>connected := False\<rparr>) w"
  by (simp add: admit_def upd_client_def Let_def)

lemma disconnect_old_sessions:
  "m_sessions (disconnect_old cs w) =
     (if connected (clients w cs) then
        (case lock_transport w (cs_session (clients w cs)) of
           None \<Rightarrow> m_sessions w
         | Some t \<Rightarrow> um_erase (ms_fd (transports w t)) (m_sessions w))
      else m_sessions w)"
  by (simp add: disconnect_old_def forceDisconnect_def removeSession_def frame_simps split: option.split)

lemma refused_state:
  assumes inv: "world_inv w" and level: "cn_level cn \<noteq> 4"
    and s: "select_session C cn w = Inr (cs, sp, add, v)"
  shows "m_expiryHeap (admit cn tid cs add v) = m_expiryHeap w \<and>
    (\<forall>sid. live (admit cn tid cs add v) sid \<longrightarrow> live w sid) \<and>
    (case sessionPresent (cn_client_id cn) w of
       None \<Rightarrow> m_sessionRegistry (admit cn tid cs add v) = m_sessionRegistry w \<and>
         m_sessions (admit cn tid cs add v) = m_sessions w
     | Some sid \<Rightarrow> \<not> live (admit cn tid cs add v) sid \<and>
         sessionPresent (cn_client_id cn) (admit cn tid cs add v) =
           (if cf_cleansession (cn_cf cn) then None else Some sid) \<and>
         (connected (clients w sid) \<longrightarrow> m_sessions (admit cn tid cs add v) =
            (case lock_transport w (cs_session (clients w sid)) of
               None \<Rightarrow> m_sessions w
             | Some t \<Rightarrow> um_erase (ms_fd (transports w t)) (m_sessions w))))"
proof (cases "sessionPresent (cn_client_id cn) w")
  case None
  with s have "cs = next_sid w" "v = snd (make_client w)"
    by (simp_all add: select_session_fresh make_client_sel)
  with None show ?thesis
    by (auto simp: admit_refused_eq [OF level] frame_simps make_client_sel live_def client_alive_def
        split: if_splits)
next
  case (Some sid)
  have n: "sid \<noteq> next_sid w" using sessionPresent_less [OF inv Some] by simp
  show ?thesis
  proof (cases "cf_cleansession (cn_cf cn)")
    case True
    let ?u = "removeFromRegistry (cn_client_id cn) (disconnect_old sid w)"
    have u: "m_sessions ?u = m_sessions (disconnect_old sid w)" "next_sid ?u = next_sid w"
      "clients ?u = clients (disconnect_old sid w)" "m_expiryHeap ?u = m_expiryHeap w"
      "m_sessionRegistry ?u = um_erase (cn_client_id cn) (m_sessionRegistry w)"
      using Some by (simp_all add: removeFromRegistry_def disconnect_old_sel disconnect_old_heap sessionPresent_def)
    have v: "cs = next_sid w" "v = snd (make_client ?u)"
      using s True select_session_clean [OF Some] u(2) by (simp_all add: make_client_sel Let_def)
    show ?thesis
      unfolding Some option.case admit_refused_eq [OF level]
      using n True
      by (auto simp: v frame_simps make_client_sel u live_def client_alive_def disconnect_old_sel
          disconnect_old_sessions sessionPresent_def map_of_um_erase set_um_erase split: if_splits)
  next
    case False
    then obtain out where "cs = sid" "v = (disconnect_old sid w)\<lparr>sent := sent w @ out\<rparr>"
      using s select_session_resume [OF inv Some False, of C] by auto
    with False Some [unfolded sessionPresent_def] show ?thesis
      unfolding Some option.case admit_refused_eq [OF level]
      by (auto simp: frame_simps live_def client_alive_def disconnect_old_sel disconnect_old_heap
          disconnect_old_sessions sessionPresent_def split: if_splits)
  qed
qed

text \<open>C39: A refused CONNECT. For any protocol level other than 4 nobody is registered or connected and the
  code asks for the connection to be closed, but on a little-endian host, where the return code is the
  byte cut off when the 16-bit CONNACK is stored as one, the bytes sent are those of an acceptance. And
  the level is tested last: a client that holds the id is signed off, its connection closed, and with a
  clean session it is dropped from the registry, as if the CONNECT had been accepted.\<close>

theorem refused_connect_outcome:
  assumes "world_inv w" and "pkt p = VConnect cn" and "cn_level cn \<noteq> 4" and "core_little_endian C"
  shows "\<exists>buff w'. connectHandler C p [] w tid = Inr (MQTT_UNACCEPTABLE_PROTOCOL_VERSION, buff, w') \<and>
    (\<exists>w''. connectHandler C (p\<lparr>pkt := VConnect (cn\<lparr>cn_level := 4\<rparr>)\<rparr>) [] w tid =
       Inr (MQTT_CONNECTION_ACCEPTED, buff, w'')) \<and>
    m_expiryHeap w' = m_expiryHeap w \<and> (\<forall>sid. live w' sid \<longrightarrow> live w sid) \<and>
    (case sessionPresent (cn_client_id cn) w of
       None \<Rightarrow> m_sessionRegistry w' = m_sessionRegistry w \<and> m_sessions w' = m_sessions w
     | Some sid \<Rightarrow> \<not> live w' sid \<and>
         sessionPresent (cn_client_id cn) w' = (if cf_cleansession (cn_cf cn) then None else Some sid) \<and>
         (connected (clients w sid) \<longrightarrow> m_sessions w' =
            (case lock_transport w (cs_session (clients w sid)) of
               None \<Rightarrow> m_sessions w
             | Some t \<Rightarrow> um_erase (ms_fd (transports w t)) (m_sessions w))))"
proof -
  obtain cs sp add v where s: "select_session C cn w = Inr (cs, sp, add, v)"
    using select_session_ok [OF assms(1)] by blast
  let ?w = "admit cn tid cs add v"
  have "select_session C (cn\<lparr>cn_level := 4\<rparr>) w = select_session C cn w"
    by (simp add: select_session_def cong: if_cong option.case_cong)
  then have "connectHandler C p [] w tid =
        Inr (MQTT_UNACCEPTABLE_PROTOCOL_VERSION, connack_bytes C sp 1, ?w)"
      "\<exists>w''. connectHandler C (p\<lparr>pkt := VConnect (cn\<lparr>cn_level := 4\<rparr>)\<rparr>) [] w tid =
        Inr (MQTT_CONNECTION_ACCEPTED, connack_bytes C sp 1, w'')"
    using assms(2-4) s by (simp_all add: connectHandler_eq connack_code_def connack_bytes_def)
  with refused_state [OF assms(1,3) s, of tid] show ?thesis by blast
qed

theorem refused_connect_outcome_witness:
  "\<exists>buff w'. connectHandler ref_core (sample_connect ''d'' 3 True) [] (sample_world True 1000) 0 =
     Inr (MQTT_UNACCEPTABLE_PROTOCOL_VERSION, buff, w') \<and> \<not> live w' 1 \<and>
     sessionPresent ''d'' w' = None \<and> m_sessions w' = [(5, 0)]"
proof -
  let ?cn = "Connect_default\<lparr>cn_level := 3, cn_cf := ConnectFlags_default\<lparr>cf_cleansession := True\<rparr>,
    cn_keep_alive := 10, cn_client_id := ''d''\<rparr>"
  have p: "pkt (sample_connect ''d'' 3 True) = VConnect ?cn" by (simp add: sample_connect_def)
  have l: "core_little_endian ref_core" by (simp add: ref_core_def)
  have c: "sessionPresent ''d'' (sample_world True 1000) = Some 1" by (simp add: sessionPresent_def)
  have t: "lock_transport (sample_world True 1000) (Some (Suc 0)) = Some (Suc 0)"
    by (simp add: lock_transport_def transport_alive_def)
  from refused_connect_outcome [OF sample_world_inv [of 1000 True] p _ l, of 0] show ?thesis
    by (auto simp: c t)
qed

text \<open>C26: A session that is resumed stays offline. When a registered client reconnects without asking for
  a clean session, the CONNACK promises acceptance (and, on a little-endian host, session-present 1),
  but the session is left disconnected and attached to its old transport, as it was before or as a client
  that has gone offline, and its queue is left as it was.\<close>

theorem resumed_session_stays_offline:
  assumes "world_inv w" and "pkt p = VConnect cn" and "cn_level cn = 4"
    and "sessionPresent (cn_client_id cn) w = Some sid" and "\<not> cf_cleansession (cn_cf cn)"
  shows "\<exists>w'. connectHandler C p [] w tid =
      Inr (MQTT_CONNECTION_ACCEPTED, [0x20, 2, if core_little_endian C then 1 else 0], w') \<and>
    sessionPresent (cn_client_id cn) w' = Some sid \<and> \<not> connected (clients w' sid) \<and>
    cs_session (clients w' sid) = cs_session (clients w sid) \<and>
    message_queue (clients w' sid) = message_queue (clients w sid) \<and> m_expiryHeap w' = m_expiryHeap w"
proof -
  obtain out where s: "select_session C cn w =
      Inr (sid, 1, False, (disconnect_old sid w)\<lparr>sent := sent w @ out\<rparr>)"
    using select_session_resume [OF assms(1,4,5)] by blast
  show ?thesis
    unfolding connectHandler_eq [OF assms(2)] s
    using assms(3,4)
    by (simp add: admit_sel disconnect_old_sel disconnect_old_heap connect_fields_def sessionPresent_def
        connack_bytes_def connack_code_def)
qed

theorem resumed_session_stays_offline_witness:
  "\<exists>w'. connectHandler ref_core (sample_connect ''d'' 4 False) [] (sample_world True 1000) 0 =
       Inr (MQTT_CONNECTION_ACCEPTED, [0x20, 2, 1], w') \<and> \<not> connected (clients w' 1) \<and>
     cs_session (clients w' 1) = Some 1"
proof -
  let ?cn = "Connect_default\<lparr>cn_level := 4, cn_cf := ConnectFlags_default\<lparr>cf_cleansession := False\<rparr>,
    cn_keep_alive := 10, cn_client_id := ''d''\<rparr>"
  have p: "pkt (sample_connect ''d'' 4 False) = VConnect ?cn" by (simp add: sample_connect_def)
  have l: "core_little_endian ref_core" by (simp add: ref_core_def)
  from resumed_session_stays_offline [OF sample_world_inv [of 1000 True] p, of 1 ref_core 0] l show ?thesis
    by (auto simp: sessionPresent_def ConnectFlags_default_def)
qed

text \<open>Reconnecting with a clean session stops the event loop. The old session is dropped from the
  registry while its entry stays in the expiry heap; from the moment that entry is due,
  \<open>processExpiredSessions\<close> does not return, as long as the entry is there.\<close>

lemma clean_reconnect_hangs_expiry:
  assumes "world_inv w" and "tid < next_tid w" and "hdr_type (header p) = CONNECT" and "0 < pkt_len p"
    and "pkt p = VConnect cn" and "cn_level cn = 4" and "cf_cleansession (cn_cf cn)"
    and "sessionPresent (cn_client_id cn) w = Some sid"
    and "e \<in> set (m_expiryHeap w)" and "ee_session e = sid" and "ee_expiry_ms e \<le> t"
  shows "\<exists>buff w'. connectHandler C p [] w tid = Inr (MQTT_CONNECTION_ACCEPTED, buff, w') \<and>
    e \<in> set (m_expiryHeap w') \<and> processExpiredSessions (w'\<lparr>now_ms := t\<rparr>) = None"
proof -
  obtain buff w' where r: "connectHandler C p [] w tid = Inr (MQTT_CONNECTION_ACCEPTED, buff, w')"
    "e \<in> set (m_expiryHeap w')" "\<not> client_alive w' sid"
    using clean_reconnect [OF assms(1-10), of C] by blast
  have "client_alive (w'\<lparr>now_ms := t\<rparr>) sid = client_alive w' sid" by (simp add: client_alive_def)
  then have "processExpiredSessions (w'\<lparr>now_ms := t\<rparr>) = None"
    using processExpiredSessions_returns [of "w'\<lparr>now_ms := t\<rparr>"] r(2,3) assms(10,11)
    by (auto simp: due_def)
  with r show ?thesis by blast
qed

subsection \<open>QoS 2 and the acknowledgements\<close>

definition answered :: "nat \<Rightarrow> u8 list \<Rightarrow> world \<Rightarrow> world \<Rightarrow> bool" where
  "answered tid buff w w' \<longleftrightarrow>
     sent w' = sent w @ [(tid, buff)] \<and> m_topicTree w' = m_topicTree w \<and>
     m_retransmitHeap w' = m_retransmitHeap w \<and> m_sessionRegistry w' = m_sessionRegistry w"

text \<open>C27: The first half of QoS 2. A PUBLISH of QoS 2 (or 3) from a registered client is stored in its
  in-flight map, unless a packet with the id is there already, and answered by one PUBREC; it is routed
  to nobody and no other client's session changes, so a repeated PUBLISH has no effect but the PUBREC.\<close>

theorem qos2_publish_stored:
  assumes "pub_ok p" and "1 < hdr_qos (header p)"
    and "sessionPresent (getClientId w tid) w = Some sid" and "world_inv w"
  shows "\<exists>w'. publishHandler C p [] w tid =
      Inr (MQTT_OK, snd (build_ack C (pub_packet_id (the_pub p)) PUBREC []), w') \<and>
    answered tid (snd (build_ack C (pub_packet_id (the_pub p)) PUBREC [])) w w' \<and>
    inflight (clients w' sid) = um_insert (pub_packet_id (the_pub p)) p (inflight (clients w sid)) \<and>
    (\<forall>s. s \<noteq> sid \<longrightarrow> clients w' s = clients w s)"
proof -
  let ?k = "pub_packet_id (the_pub p)"
  let ?b = "snd (build_ack C ?k PUBREC [])"
  let ?u = "upd_client sid (\<lambda>c. c\<lparr>last_activity := now_ms w\<rparr>) w"
  have u: "updateActivity (getClientId w tid) w = ?u"
    using assms(3) by (simp add: updateActivity_def)
  have q: "hdr_qos (header p) \<noteq> 0" "hdr_qos (header p) \<noteq> 1" using assms(2) by auto
  have look: "sessionPresent c ?u = sessionPresent c w" "getClientId ?u tid = getClientId w tid" for c
    by (simp_all add: sessionPresent_def getClientId_def frame_simps)
  have i: "inflight (clients ?u sid) = inflight (clients w sid)" by (simp add: frame_simps)
  have pl: "0 < pkt_len p" using assms(1) by (simp add: pub_ok_def)
  show ?thesis
  proof (cases "map_of (inflight (clients w sid)) ?k")
    case None
    then have "pkt_len (getPacket ?k PUBLISH (clients ?u sid)) = 0"
      by (simp add: getPacket_def i Packet_default_def)
    moreover have "storeInflight p (clients ?u sid) =
        Inr ((clients ?u sid)\<lparr>inflight := um_insert ?k p (inflight (clients w sid))\<rparr>)"
      by (simp add: storeInflight_def pub_ok_get [OF assms(1)] i)
    ultimately show ?thesis
      using q assms(3) pub_ok_pkt [OF assms(1)]
      by (simp add: publishHandler_def Let_def deref_def u look answered_def pushDataToSend_def
          frame_simps)
  next
    case (Some p0)
    have "inflight_entry_ok (?k, p0)"
      using world_wf [OF assms(4), of sid] Some
      by (auto simp: session_wf_def list_all_iff dest: map_of_in_set)
    then have "0 < pkt_len p0" by (cases "pkt p0") (auto simp: inflight_entry_ok_def)
    with Some show ?thesis
      using q assms(3) pub_ok_pkt [OF assms(1)]
      by (simp add: publishHandler_def Let_def deref_def u look answered_def pushDataToSend_def
          getPacket_def i um_insert_def frame_simps)
  qed
qed

definition as_client :: "nat \<Rightarrow> string \<Rightarrow> world \<Rightarrow> world" where
  "as_client tid c w = w\<lparr>transports := (transports w)(tid := (transports w tid)\<lparr>ms_client_id := c\<rparr>)\<rparr>"

lemma as_client_sel [simp]:
  "getClientId (as_client tid c w) tid = c" "sessionPresent d (as_client tid c w) = sessionPresent d w"
  "clients (as_client tid c w) = clients w" "m_topicTree (as_client tid c w) = m_topicTree w"
  "sent (as_client tid c w) = sent w" "m_sessionRegistry (as_client tid c w) = m_sessionRegistry w"
  by (simp_all add: as_client_def getClientId_def sessionPresent_def)

lemma as_client_inv: "world_inv w \<Longrightarrow> world_inv (as_client tid c w)"
  by (auto simp: as_client_def world_inv_def inv_defs)

theorem qos2_publish_stored_witness:
  "\<exists>w'. publishHandler ref_core (sample_publish 2) [] (as_client 0 ''c'' (sample_world True 1000)) 0 =
       Inr (MQTT_OK, [0x50, 2, 0], w') \<and> inflight (clients w' 0) = [(9, sample_publish 2)]"
proof -
  let ?w = "as_client 0 ''c'' (sample_world True 1000)"
  have p: "1 < hdr_qos (header (sample_publish 2))" by simp
  have s: "sessionPresent (getClientId ?w 0) ?w = Some 0" by (simp add: sessionPresent_def)
  have b: "snd (build_ack ref_core 9 PUBREC []) = [0x50, 2, 0]"
    by (simp add: build_ack_simps header_pack_def Header_default_def ref_core_def drop_bit_eq_div)
  from qos2_publish_stored [OF sample_publish_ok(1) p s as_client_inv [OF sample_world_inv [of 1000 True]], of ref_core] b
  show ?thesis by (auto simp: um_insert_def)
qed

text \<open>C28: The second half of QoS 2. A PUBREL takes the stored PUBLISH out of the sender's in-flight map,
  routes it and answers with PUBCOMP; a PUBREL whose id is not in flight routes nothing and changes no
  in-flight map, but is answered with PUBCOMP all the same.\<close>

theorem pubrel_releases_once:
  assumes "pkt p = VAck ack" and "sessionPresent (getClientId w tid) w = Some sid" and "world_inv w"
    and "u = upd_client sid (\<lambda>c. c\<lparr>last_activity := now_ms w\<rparr>) w"
  shows "case map_of (inflight (clients w sid)) (ack_packet_id ack) of
      None \<Rightarrow> pubrelHandler C p [] w tid =
        Inr (- MQTT_ERR, snd (build_ack C (ack_packet_id ack) PUBCOMP []),
          pushDataToSend tid (snd (build_ack C (ack_packet_id ack) PUBCOMP [])) u)
    | Some q \<Rightarrow> \<exists>q' v. routePacket C q None
          (upd_client sid (\<lambda>c. c\<lparr>inflight := um_erase (ack_packet_id ack) (inflight c)\<rparr>) u) = Inr (q', v) \<and>
        pubrelHandler C p [] w tid =
          Inr (MQTT_OK, snd (build_ack C (ack_packet_id ack) PUBCOMP []),
            pushDataToSend tid (snd (build_ack C (ack_packet_id ack) PUBCOMP [])) v)"
proof -
  let ?k = "ack_packet_id ack"
  have a: "updateActivity (getClientId w tid) w = u"
    using assms(2,4) by (simp add: updateActivity_def)
  have look: "sessionPresent c u = sessionPresent c w" "getClientId u tid = getClientId w tid" for c
    by (simp_all add: assms(4) sessionPresent_def getClientId_def frame_simps)
  have i: "inflight (clients u sid) = inflight (clients w sid)" by (simp add: assms(4) frame_simps)
  have same: "upd_client sid (\<lambda>_. clients u sid) u = u" by (simp add: upd_client_def)
  have upd: "upd_client sid (\<lambda>_. f (clients u sid)) u = upd_client sid f u" for f
    by (simp add: upd_client_def)
  have inv_u: "world_inv u"
    using world_inv_updateActivity [OF assms(3), of "getClientId w tid"] a by simp
  show ?thesis
  proof (cases "map_of (inflight (clients w sid)) ?k")
    case None
    then have "removeFromInflight ?k (clients u sid) = (Packet_default, clients u sid)"
      by (simp add: removeFromInflight_def i)
    with None show ?thesis
      using assms(1,2)
      by (simp add: pubrelHandler_def Let_def deref_def a look same Packet_default_def Header_default_def)
  next
    case (Some q)
    let ?v = "upd_client sid (\<lambda>c. c\<lparr>inflight := um_erase ?k (inflight c)\<rparr>) u"
    have r: "removeFromInflight ?k (clients u sid) =
        (q, (clients u sid)\<lparr>inflight := um_erase ?k (inflight (clients u sid))\<rparr>)"
      using Some by (simp add: removeFromInflight_def i)
    have "inflight_entry_ok (?k, q)"
      using world_wf [OF assms(3), of sid] Some
      by (auto simp: session_wf_def list_all_iff dest: map_of_in_set)
    then have t: "hdr_type (header q) = PUBLISH" and q: "pub_ok q"
      by (cases "pkt q"; auto simp: inflight_entry_ok_def publish_id_def pub_ok_def)+
    have "world_inv (upd_client sid (\<lambda>_. snd (removeFromInflight ?k (clients u sid))) u)"
      using upd_client_step [OF inv_u] session_wf_remove(1) [OF world_wf [OF inv_u]] remove_keeps(1-4) by blast
    then have "world_inv ?v" by (simp add: r upd [of "\<lambda>c. c\<lparr>inflight := um_erase ?k (inflight c)\<rparr>"])
    then obtain q' v where v: "routePacket C q None ?v = Inr (q', v)"
      using routePacket_ok [OF _ q, of ?v C None] by blast
    with r t Some assms(1,2) show ?thesis
      by (simp add: pubrelHandler_def Let_def deref_def a look
          upd [of "\<lambda>c. c\<lparr>inflight := um_erase ?k (inflight c)\<rparr>"])
  qed
qed

theorem pubrel_releases_once_witness:
  "pubrelHandler ref_core \<lparr>header = Header_default\<lparr>hdr_type := PUBREL\<rparr>, pkt_len = 4, pkt = VAck \<lparr>ack_packet_id = 9\<rparr>\<rparr>
     [] (as_client 0 ''c'' (sample_world True 1000)) 0 =
   Inr (- MQTT_ERR, [0x70, 2, 0], pushDataToSend 0 [0x70, 2, 0]
     (upd_client 0 (\<lambda>c. c\<lparr>last_activity := 1000\<rparr>) (as_client 0 ''c'' (sample_world True 1000))))"
proof -
  let ?w = "as_client 0 ''c'' (sample_world True 1000)"
  have s: "sessionPresent (getClientId ?w 0) ?w = Some 0" by (simp add: sessionPresent_def)
  have n: "now_ms ?w = 1000" by (simp add: as_client_def)
  have b: "snd (build_ack ref_core 9 PUBCOMP []) = [0x70, 2, 0]"
    by (simp add: build_ack_simps header_pack_def Header_default_def ref_core_def drop_bit_eq_div)
  from pubrel_releases_once [OF _ s as_client_inv [OF sample_world_inv [of 1000 True]] refl,
      of "\<lparr>header = Header_default\<lparr>hdr_type := PUBREL\<rparr>, pkt_len = 4, pkt = VAck \<lparr>ack_packet_id = 9\<rparr>\<rparr>"
        "\<lparr>ack_packet_id = 9\<rparr>" ref_core] b n
  show ?thesis by simp
qed

subsection \<open>SUBSCRIBE\<close>

lemma add_subscription_sel:
  "m_sessionRegistry (add_subscription cid t w) = m_sessionRegistry w"
  "clients (add_subscription cid t w) = clients w"
  "next_sid (add_subscription cid t w) = next_sid w"
  by (auto simp: add_subscription_def createSubscription_def split: option.split)

lemma look_add_subscription:
  assumes "world_inv w" and "sessionPresent cid w = Some sid"
  shows "look (m_topicTree (add_subscription cid t w)) q c =
    (if tp_qos t < 3 \<and> q \<in> set (reach (tp_topic t) (m_topicTree w)) \<and> c = cid
     then Some \<lparr>sub_session = sid, sub_qos = tp_qos t\<rparr> else look (m_topicTree w) q c)"
proof -
  have "node_wf (m_topicTree w)" using assms(1) by (simp add: world_inv_def tree_inv_def)
  moreover have "client_id (clients w sid) = cid" using sessionPresent_less [OF assms] by blast
  ultimately show ?thesis
    using assms(2) by (simp add: add_subscription_def createSubscription_def look_subscribe)
qed

lemma fold_add_subscription_keeps:
  assumes "world_inv w" and "sessionPresent cid w = Some sid"
    and "\<exists>q < 3. look (m_topicTree w) path cid = Some \<lparr>sub_session = sid, sub_qos = q\<rparr>"
  shows "\<exists>q < 3. look (m_topicTree (fold (add_subscription cid) ts w)) path cid =
    Some \<lparr>sub_session = sid, sub_qos = q\<rparr>"
  using assms
proof (induction ts arbitrary: w)
  case (Cons t ts)
  have "sessionPresent cid (add_subscription cid t w) = Some sid"
    using Cons.prems(2) by (simp add: sessionPresent_def add_subscription_sel)
  moreover have "\<exists>q < 3. look (m_topicTree (add_subscription cid t w)) path cid =
      Some \<lparr>sub_session = sid, sub_qos = q\<rparr>"
    using look_add_subscription [OF Cons.prems(1,2), of t path cid] Cons.prems(3) by auto
  ultimately show ?case
    using Cons.IH [OF add_subscription_step(1) [OF Cons.prems(1)]] by simp
qed simp

lemma fold_add_subscription:
  assumes "world_inv w" and "sessionPresent cid w = Some sid" and "t \<in> set ts"
    and "tp_qos t < 3" and "plain (split (tp_topic t))"
  shows "\<exists>q < 3. look (m_topicTree (fold (add_subscription cid) ts w)) (split (tp_topic t)) cid =
    Some \<lparr>sub_session = sid, sub_qos = q\<rparr>"
  using assms
proof (induction ts arbitrary: w)
  case (Cons x ts)
  let ?w = "add_subscription cid x w"
  have w: "world_inv ?w" "sessionPresent cid ?w = Some sid"
    using add_subscription_step(1) [OF Cons.prems(1)] Cons.prems(2)
    by (simp_all add: sessionPresent_def add_subscription_sel)
  show ?case
  proof (cases "x = t")
    case True
    have "split (tp_topic t) \<in> set (reach (tp_topic t) (m_topicTree w))"
      using getNode_plain [OF Cons.prems(5)] by (simp add: reach_def)
    then have "\<exists>q < 3. look (m_topicTree ?w) (split (tp_topic t)) cid = Some \<lparr>sub_session = sid, sub_qos = q\<rparr>"
      using look_add_subscription [OF Cons.prems(1,2), of t "split (tp_topic t)" cid] True Cons.prems(4)
      by auto
    from fold_add_subscription_keeps [OF w this] show ?thesis by simp
  next
    case False
    then show ?thesis using Cons.IH [OF w _ Cons.prems(4,5)] Cons.prems(3) by simp
  qed
qed simp

lemma fold_add_subscription_others:
  assumes "world_inv w" and "sessionPresent cid w = Some sid" and "c \<noteq> cid"
  shows "look (m_topicTree (fold (add_subscription cid) ts w)) path c = look (m_topicTree w) path c"
  using assms
proof (induction ts arbitrary: w)
  case (Cons t ts)
  have "sessionPresent cid (add_subscription cid t w) = Some sid"
    using Cons.prems(2) by (simp add: sessionPresent_def add_subscription_sel)
  with Cons.IH [OF add_subscription_step(1) [OF Cons.prems(1)]] Cons.prems(3) show ?case
    using look_add_subscription [OF Cons.prems(1,2), of t path c] by simp
qed simp

text \<open>SUBSCRIBE grants what it stores. The SUBACK carries one return code per topic filter, the
  requested QoS or 0x80 for a QoS above 2; a registered client ends up as a subscriber at the node of
  every granted filter without wildcards, whatever filters follow it in the packet, and the
  subscriptions of other clients stay as they were.\<close>

lemma subscribe_grants:
  assumes "world_inv w" and "pkt p = VSubscribe s"
    and "sessionPresent (getClientId w tid) w = Some sid"
  shows "\<exists>w'. subscribeHandler C p [] w tid = Inr (MQTT_OK,
      build_suback C (sub_packet_id s) (map (\<lambda>t. if tp_qos t < 3 then tp_qos t else 0x80) (sub_payload s)) [], w') \<and>
    (\<forall>t \<in> set (sub_payload s). tp_qos t < 3 \<and> plain (split (tp_topic t)) \<longrightarrow>
      (\<exists>q < 3. look (m_topicTree w') (split (tp_topic t)) (getClientId w tid) =
        Some \<lparr>sub_session = sid, sub_qos = q\<rparr>)) \<and>
    (\<forall>path c. c \<noteq> getClientId w tid \<longrightarrow>
      look (m_topicTree w') path c = look (m_topicTree w) path c)"
proof -
  let ?c = "getClientId w tid"
  let ?u = "updateActivity ?c w"
  have u: "world_inv ?u" "sessionPresent ?c ?u = Some sid"
    using assms(1,3) by (auto intro: inv_intros)
  have g: "(\<lambda>t. if tp_qos t < 3 then tp_qos t else 0x80) = granted" by (simp add: granted_def fun_eq_iff)
  have t: "m_topicTree ?u = m_topicTree w" by (simp add: frame_simps)
  show ?thesis
    unfolding subscribeHandler_eq [OF assms(2)] g Let_def
    using fold_add_subscription [OF u] fold_add_subscription_others [OF u]
    by (auto simp: pushDataToSend_def t)
qed

end
