(* ===== verification/Transport.thy ===== *)
theory Transport
  imports Handler_Properties
begin

text \<open>
  \<open>MqttSession::parseData\<close> of \<open>mqtt/src/mqttsession.cpp\<close>: one decoding attempt on the receive buffer
  of a transport, the call of the packet's handler and what follows from its return code. The handler
  table holds functions to \<open>size_t\<close>; the code is converted back to \<open>int\<close>.
\<close>

definition upd_transport :: "nat \<Rightarrow> (MqttSession \<Rightarrow> MqttSession) \<Rightarrow> world \<Rightarrow> world" where
  "upd_transport tid f w = w\<lparr>transports := (transports w)(tid := f (transports w tid))\<rparr>"

definition call_handler :: "core \<Rightarrow> Packet \<Rightarrow> world \<Rightarrow> nat \<Rightarrow> handled" where
  "call_handler C packet w tid =
     (let i = unat (pt_code (hdr_type (header packet))) in
      if i \<ge> length (handlers C) then Inl OutOfBounds
      else case handlers C ! i of
        None \<Rightarrow> Inr (MQTT_OK, [], w)
      | Some handle \<Rightarrow>
          and_then (handle packet [] w tid) (\<lambda>(rc, send_buff, w).
          Inr (c_int (word_of_int rc), send_buff, w)))"

definition parseData :: "core \<Rightarrow> nat \<Rightarrow> world \<Rightarrow> fault + world" where
  "parseData C tid w =
     (let m_recvBuff = ms_recvBuff (transports w tid);
          available_bytes = buf_available C m_recvBuff
      in and_then (unpack C Packet_default (buf_data C m_recvBuff) 0 available_bytes) (\<lambda>(rc, packet, pos).
         if rc = MQTT_OK then
           let w = upd_transport tid (\<lambda>t. t\<lparr>ms_recvBuff := buf_erase C m_recvBuff (pkt_len packet)\<rparr>) w in
           and_then (call_handler C packet w tid) (\<lambda>(rc, send_buff, w).
           if rc = MQTT_CONNECTION_ACCEPTED then
             and_then (get_connect (pkt packet)) (\<lambda>cn.
             Inr (pushDataToSend tid send_buff
                    (upd_transport tid (\<lambda>t. t\<lparr>ms_client_id := cn_client_id cn\<rparr>) w)))
           else if rc = MQTT_UNACCEPTABLE_PROTOCOL_VERSION then
             Inr (forceDisconnect tid (pushDataToSend tid send_buff w))
           else Inr w)
         else if rc = MQTT_PARTIAL_PACKET then Inr w
         else
           and_then (deref (sessionPresent (getClientId w tid) w)) (\<lambda>cs.
           let w = (if cleansession (clients w cs) then removeFromRegistry (getClientId w tid) w else w)
           in Inr (forceDisconnect tid w))))"

subsection \<open>Every step keeps the invariant\<close>

lemma upd_transport_step:
  assumes "world_inv w" and "\<And>t. ms_fd (f t) = ms_fd t"
  shows "steps w (upd_transport tid f w)"
  using assms by (auto simp: steps_def evolves_def world_inv_def inv_defs upd_transport_def)

lemma upd_transport_sel [simp]:
  "next_tid (upd_transport tid f w) = next_tid w"
  "m_sessionRegistry (upd_transport tid f w) = m_sessionRegistry w"
  "clients (upd_transport tid f w) = clients w"
  "transports (upd_transport tid f w) = (transports w)(tid := f (transports w tid))"
  by (simp_all add: upd_transport_def)

lemma registered_upd_transport:
  "(\<And>t. ms_client_id (f t) = ms_client_id t) \<Longrightarrow>
     registered (upd_transport tid f w) a = registered w a"
  by (simp add: registered_def sessionPresent_def getClientId_def)

lemma forceDisconnect_step: "world_inv w \<Longrightarrow> steps w (forceDisconnect t w)"
  by (auto simp: steps_def intro: inv_intros evolves_steps)

lemma removeFromRegistry_step: "world_inv w \<Longrightarrow> steps w (removeFromRegistry c w)"
  by (auto simp: steps_def intro: inv_intros evolves_steps)

lemma unpacked_arrives:
  assumes "core_reads C" and "unpack C p mem 0 avail = Inr (MQTT_OK, p', pos)"
    and "world_inv w" and "tid < next_tid w"
  shows "arrives (hdr_type (header p')) p' tid w"
proof -
  have "variant_of (hdr_type (header p')) (pkt p')" "2 \<le> pkt_len p'"
    using unpack_ok_shape [OF assms(1,2)] by blast+
  with assms(3,4) show ?thesis by (simp add: arrives_def)
qed

lemma unpacked_type:
  assumes "core_reads C" and "unpack C p mem 0 avail = Inr (MQTT_OK, p', pos)"
  shows "hdr_type (header p') = pt_of (of_nat (unat (pt_code (hdr_type (header p')))))"
    and "unat (pt_code (hdr_type (header p'))) < length (handlers C)"
proof -
  have h: "header p' = header_unpack (mem ! 0)" and v: "variant_of (hdr_type (header p')) (pkt p')"
    using unpack_ok_shape [OF assms] by auto
  show "hdr_type (header p') = pt_of (of_nat (unat (pt_code (hdr_type (header p')))))"
    using hdr_type_unpack_code [of "mem ! 0"] h by simp
  show "unat (pt_code (hdr_type (header p'))) < length (handlers C)"
    using v by (cases "hdr_type (header p')") (simp_all add: handlers_def)
qed

lemma c_int_codes:
  "rc \<in> {- 1, 0, 6, 7} \<Longrightarrow> c_int (word_of_int rc) = rc"
  by (rule c_int_of_int) auto

text \<open>The code 6 comes from \<open>connectHandler\<close> only, so the \<open>get\<close> after it finds a CONNECT.\<close>

lemma call_handler_outcome:
  assumes "core_reads C" and "unpack C p mem 0 avail = Inr (MQTT_OK, p', pos)"
    and "world_inv w" and "tid < next_tid w"
  shows "(\<exists>rc buff' w'. call_handler C p' w tid = Inr (rc, buff', w') \<and> steps w w' \<and>
      (rc \<in> {MQTT_CONNECTION_ACCEPTED, MQTT_UNACCEPTABLE_PROTOCOL_VERSION} \<longrightarrow>
         (\<exists>cn. pkt p' = VConnect cn))) \<or>
    (call_handler C p' w tid = Inl NullDeref \<and> \<not> registered w tid)"
proof -
  let ?t = "hdr_type (header p')"
  let ?i = "unat (pt_code ?t)"
  note t = unpacked_type [OF assms(1,2)] and a = unpacked_arrives [OF assms]
  show ?thesis
  proof (cases "handlers C ! ?i")
    case None
    then show ?thesis using t(2) assms(3) by (auto simp: call_handler_def not_le steps_refl)
  next
    case (Some h)
    have h: "packet_handler ?t h" using handlers_contract [OF Some t(2)] t(1) by simp
    have eq: "call_handler C p' w tid =
        and_then (h p' [] w tid) (\<lambda>(rc, b, w). Inr (c_int (word_of_int rc), b, w))"
      using t(2) Some by (simp add: call_handler_def not_le)
    from packet_handler.outcome [OF h a, of "[]"] show ?thesis
    proof (elim disjE exE conjE)
      fix rc b w'
      assume r: "h p' [] w tid = Inr (rc, b, w')" "world_inv w'" "evolves w w'"
      note c = packet_handler.codes [OF h r(1)]
      then have "c_int (word_of_int rc) = rc" by (intro c_int_codes) auto
      moreover have "rc \<in> {6, 7} \<Longrightarrow> \<exists>cn. pkt p' = VConnect cn"
        using c a variant_ofE(1) by (auto simp: arrives_def)
      ultimately show ?thesis using r by (simp add: eq steps_def)
    qed (simp add: eq)
  qed
qed

text \<open>
  A call of \<open>parseData\<close> gives a state that keeps the invariant, or a fault of the decoder, or the use
  of the session of an unregistered client.
\<close>

lemma parseData_outcome:
  assumes C: "core_reads C" and inv: "world_inv w" and tid: "tid < next_tid w"
  shows "(\<exists>w'. parseData C tid w = Inr w' \<and> steps w w') \<or>
    (\<exists>e. parseData C tid w = Inl e \<and> (decode_fault e \<or> (e = NullDeref \<and> \<not> registered w tid)))"
proof -
  let ?b = "ms_recvBuff (transports w tid)"
  let ?r = "unpack C Packet_default (buf_data C ?b) 0 (buf_available C ?b)"
  show ?thesis
  proof (cases ?r)
    case (Inl e)
    then show ?thesis using unpack_faults_are [OF C Inl] by (simp add: parseData_def)
  next
    case (Inr r)
    obtain rc p pos where r: "r = (rc, p, pos)" by (cases r)
    consider "rc = MQTT_OK" | "rc = MQTT_PARTIAL_PACKET" | "rc \<noteq> MQTT_OK" "rc \<noteq> MQTT_PARTIAL_PACKET"
      by blast
    then show ?thesis
    proof cases
      case 1
      let ?w = "upd_transport tid (\<lambda>t. t\<lparr>ms_recvBuff := buf_erase C ?b (pkt_len p)\<rparr>) w"
      have w: "steps w ?w" "world_inv ?w" using upd_transport_step [OF inv] by (auto simp: steps_def)
      have reg: "registered ?w tid = registered w tid" by (rule registered_upd_transport) simp
      from call_handler_outcome [OF C Inr [unfolded r 1] w(2), of tid] tid reg
      consider rc' b w' where "call_handler C p ?w tid = Inr (rc', b, w')" "steps ?w w'"
          "rc' \<in> {6, 7} \<longrightarrow> (\<exists>cn. pkt p = VConnect cn)"
        | "call_handler C p ?w tid = Inl NullDeref" "\<not> registered w tid" by auto
      then show ?thesis
      proof cases
        case (1 rc' b w')
        have s: "steps w w'" "world_inv w'" using steps_trans [OF w(1) 1(2)] by (auto simp: steps_def)
        have "steps w' (pushDataToSend tid b (upd_transport tid (\<lambda>t. t\<lparr>ms_client_id := c\<rparr>) w'))" for c
          using steps_trans [OF upd_transport_step [OF s(2)] steps_push] upd_transport_step [OF s(2)]
          by (auto simp: steps_def)
        moreover have "steps w' (forceDisconnect tid (pushDataToSend tid b w'))"
          using steps_trans [OF steps_push [OF s(2)] forceDisconnect_step] steps_push [OF s(2)]
          by (auto simp: steps_def)
        ultimately show ?thesis
          using 1 Inr r \<open>rc = MQTT_OK\<close> s steps_trans [OF s(1)] by (auto simp: parseData_def Let_def)
      next
        case 2
        then show ?thesis using Inr r \<open>rc = MQTT_OK\<close> by (simp add: parseData_def Let_def)
      qed
    next
      case 2
      then show ?thesis using Inr r inv by (simp add: parseData_def steps_refl)
    next
      case 3
      have "steps w (forceDisconnect tid (removeFromRegistry c w))" for c
        using steps_trans [OF removeFromRegistry_step [OF inv] forceDisconnect_step]
          removeFromRegistry_step [OF inv] by (auto simp: steps_def)
      then show ?thesis
        using 3 Inr r forceDisconnect_step [OF inv]
        by (cases "sessionPresent (getClientId w tid) w")
          (simp_all add: parseData_def deref_def registered_def Let_def)
    qed
  qed
qed


subsection \<open>Whole packets\<close>

lemma call_handler_at:
  assumes "unat (pt_code (hdr_type (header p))) < length (handlers C)"
    and "handlers C ! unat (pt_code (hdr_type (header p))) = Some h"
  shows "call_handler C p w tid =
    and_then (h p [] w tid) (\<lambda>(rc, b, w). Inr (c_int (word_of_int rc), b, w))"
  using assms by (simp add: call_handler_def not_le)

text \<open>A complete packet at the front of the receive buffer reaches its handler and leaves the rest.\<close>

lemma parseData_wire:
  assumes "core_reads C" and "core_buffer C" and "header_wf h" and "packet_ok h v"
    and "length (body_of (hdr_qos h) v) < 128 ^ 3"
    and "ms_recvBuff (transports w tid) = wire h v @ rest"
  shows "parseData C tid w =
    and_then (call_handler C \<lparr>header = h, pkt_len = length (wire h v), pkt = v\<rparr>
        (upd_transport tid (\<lambda>t. t\<lparr>ms_recvBuff := rest\<rparr>) w) tid) (\<lambda>(rc, send_buff, w).
      if rc = MQTT_CONNECTION_ACCEPTED then
        and_then (get_connect v) (\<lambda>cn.
        Inr (pushDataToSend tid send_buff (upd_transport tid (\<lambda>t. t\<lparr>ms_client_id := cn_client_id cn\<rparr>) w)))
      else if rc = MQTT_UNACCEPTABLE_PROTOCOL_VERSION then
        Inr (forceDisconnect tid (pushDataToSend tid send_buff w))
      else Inr w)"
proof -
  let ?m = "wire h v @ rest"
  have "unpack C Packet_default ?m 0 (length ?m) =
      Inr (MQTT_OK, \<lparr>header = h, pkt_len = length (wire h v), pkt = v\<rparr>, length (wire h v))"
    using assms(1,3-5) bytes_at_prefix by (intro unpack_wire_ok) auto
  moreover have "buf_available C ?m = length ?m" "buf_data C ?m = ?m"
    "buf_erase C ?m (length (wire h v)) = rest"
    using assms(2) by (simp_all add: core_buffer_def)
  ultimately show ?thesis by (simp add: parseData_def assms(6) Let_def cong: if_cong)
qed

lemma upd_transport_lookup [simp]:
  "sessionPresent c (upd_transport tid f w) = sessionPresent c w"
  "next_sid (upd_transport tid f w) = next_sid w" "now_ms (upd_transport tid f w) = now_ms w"
  "sent (upd_transport tid f w) = sent w" "m_expiryHeap (upd_transport tid f w) = m_expiryHeap w"
  by (simp_all add: sessionPresent_def upd_transport_def)

lemma admit_transports:
  "transports (admit cn tid cs True w) = transports w" "sent (admit cn tid cs True w) = sent w"
  by (simp_all add: admit_def addToRegistry_def scheduleExpiry_def frame_simps Let_def)

text \<open>An accepted CONNECT: what the task leaves behind is what the handler left, but for the transport.\<close>

lemma parse_connect_wire:
  assumes "core_reads C" and "core_buffer C" and "header_wf h" and "packet_ok h (VConnect cn)"
    and "length (body_of (hdr_qos h) (VConnect cn)) < 128 ^ 3"
    and "ms_recvBuff (transports w tid) = wire h (VConnect cn) @ rest"
    and "connectHandler C \<lparr>header = h, pkt_len = length (wire h (VConnect cn)), pkt = VConnect cn\<rparr> []
      (upd_transport tid (\<lambda>t. t\<lparr>ms_recvBuff := rest\<rparr>) w) tid = Inr (MQTT_CONNECTION_ACCEPTED, buff, v)"
  shows "parseData C tid w = Inr (pushDataToSend tid buff
    (upd_transport tid (\<lambda>t. t\<lparr>ms_client_id := cn_client_id cn\<rparr>) v))"
proof -
  have t: "hdr_type h = CONNECT" using assms(4) by (cases "hdr_type h") auto
  have "c_int (word_of_int 6) = 6" by (rule c_int_codes) simp
  then show ?thesis
    unfolding parseData_wire [OF assms(1-6)]
    using call_handler_at [of "\<lparr>header = h, pkt_len = length (wire h (VConnect cn)), pkt = VConnect cn\<rparr>"
        C "connectHandler C"] t assms(7)
    by (simp add: handlers_def)
qed

subsection \<open>Properties\<close>

text \<open>C8: Whatever bytes a client sends, a parse task either gives a state that keeps the broker's invariant,
  in which sessions keep their ids, queues and output only grow and the clock has not gone back, or ends
  in one of the decoder's three faults or in the use of the null session of a client that is not
  registered. No handler throws, and no handler is called out of the table's bounds.\<close>

theorem parse_outcome:
  assumes "core_reads C" and "world_inv w" and "tid < next_tid w"
  shows "(\<exists>w'. parseData C tid w = Inr w' \<and> world_inv w' \<and> evolves w w') \<or>
    (\<exists>e \<in> {OutOfBounds, LengthError, RuntimeError ''Malformed Remaining Length!!''}. parseData C tid w = Inl e) \<or>
    (parseData C tid w = Inl NullDeref \<and> sessionPresent (getClientId w tid) w = None)"
proof -
  have "e \<in> {OutOfBounds, LengthError, RuntimeError ''Malformed Remaining Length!!''}" if "decode_fault e" for e
    using that by (cases e) auto
  then show ?thesis
    using parseData_outcome [OF assms] by (auto simp: registered_def steps_def)
qed

theorem parse_outcome_witness:
  "parseData ref_core 0 (as_client 0 ''c'' (sample_world True 1000)) \<noteq> Inl NullDeref \<and>
   (\<forall>s. parseData ref_core 0 (as_client 0 ''c'' (sample_world True 1000)) \<noteq> Inl (RuntimeError (''x'' @ s)))"
proof -
  let ?w = "as_client 0 ''c'' (sample_world True 1000)"
  have "0 < next_tid ?w" by (simp add: as_client_def)
  from parse_outcome [OF ref_core_ok(1) as_client_inv [OF sample_world_inv [of 1000 True]] this]
  show ?thesis by (auto simp: sessionPresent_def)
qed

text \<open>C11: A new client connects. A complete CONNECT for protocol level 4 with an unregistered client id at
  the front of a transport's receive buffer is consumed; the client gets a session of its own, registered,
  connected and attached to the transport, with its first keep-alive deadline in the expiry heap unless
  its keep-alive is 0; the transport takes the client's id, and no other session or registration changes.
  The bytes 20 02 00 are sent to it, which are one byte short of a CONNACK.\<close>

theorem connect_from_wire:
  assumes "core_reads C" and "core_buffer C" and "header_wf h" and "packet_ok h (VConnect cn)"
    and "length (body_of (hdr_qos h) (VConnect cn)) < 128 ^ 3"
    and "ms_recvBuff (transports w tid) = wire h (VConnect cn) @ rest"
    and "cn_level cn = 4" and "sessionPresent (cn_client_id cn) w = None"
  shows "\<exists>w'. parseData C tid w = Inr w' \<and>
    map_of (m_sessionRegistry w') = (map_of (m_sessionRegistry w))(cn_client_id cn \<mapsto> next_sid w) \<and>
    connected (clients w' (next_sid w)) \<and> cs_session (clients w' (next_sid w)) = Some tid \<and>
    m_expiryHeap w' = m_expiryHeap w @ (if cn_keep_alive cn = 0 then []
      else [\<lparr>ee_expiry_ms = now_ms w + uint (cn_keep_alive cn) * 1500, ee_session = next_sid w\<rparr>]) \<and>
    (\<forall>sid < next_sid w. clients w' sid = clients w sid) \<and>
    getClientId w' tid = cn_client_id cn \<and> ms_recvBuff (transports w' tid) = rest \<and>
    sent w' = sent w @ [(tid, [0x20, 2, 0])]"
proof -
  let ?w = "upd_transport tid (\<lambda>t. t\<lparr>ms_recvBuff := rest\<rparr>) w"
  let ?p = "\<lparr>header = h, pkt_len = length (wire h (VConnect cn)), pkt = VConnect cn\<rparr>"
  let ?v = "admit cn tid (next_sid ?w) True (snd (make_client ?w))"
  have "connectHandler C ?p [] ?w tid = Inr (MQTT_CONNECTION_ACCEPTED, [0x20, 2, 0], ?v)"
    using assms(7,8) by (intro connect_fresh_eq) simp_all
  note r = parse_connect_wire [OF assms(1-6) this]
  have "clients ?v sid = clients w sid" if "sid < next_sid w" for sid
    using that assms(7)
    by (simp add: admit_def addToRegistry_def scheduleExpiry_def make_client_sel frame_simps Let_def)
  with r show ?thesis
    using admit_added(1-3) [OF assms(7), of tid "next_sid ?w" "snd (make_client ?w)"]
    by (simp add: getClientId_def pushDataToSend_def admit_transports make_client_sel make_client_def
        upd_transport_def)
qed

theorem connect_from_wire_witness:
  "\<exists>w'. parseData ref_core 0 (upd_transport 0 (\<lambda>t. t\<lparr>ms_recvBuff :=
       [0x10, 13, 0, 4, 77, 81, 84, 84, 4, 2, 0, 10, 0, 1, 101] @ [0xC0]\<rparr>) (sample_world True 1000)) = Inr w' \<and>
     sessionPresent ''e'' w' = Some 2 \<and> ms_recvBuff (transports w' 0) = [0xC0] \<and>
     last (m_expiryHeap w') = \<lparr>ee_expiry_ms = 16000, ee_session = 2\<rparr>"
proof -
  let ?h = "\<lparr>hdr_type = CONNECT, hdr_dup = False, hdr_qos = 0, hdr_retain = False\<rparr>"
  let ?cn = "Connect_default\<lparr>cn_cf := ConnectFlags_default\<lparr>cf_cleansession := True\<rparr>, cn_keep_alive := 10,
    cn_client_id := ''e''\<rparr>"
  let ?m = "[0x10, 13, 0, 4, 77, 81, 84, 84, 4, 2, 0, 10, 0, 1, 101] :: u8 list"
  let ?w = "upd_transport 0 (\<lambda>t. t\<lparr>ms_recvBuff := ?m @ [0xC0]\<rparr>) (sample_world True 1000)"
  have f: "connect_flags_pack (ConnectFlags_default\<lparr>cf_cleansession := True\<rparr>) = 2"
    by (simp add: connect_flags_pack_def ConnectFlags_default_def)
  have b: "body_of (hdr_qos ?h) (VConnect ?cn) = [0, 4, 77, 81, 84, 84, 4, 2, 0, 10, 0, 1, 101]"
    using f by (simp add: connect_body_def str16_def be16_def bytes_of_def byte_of_char_def
      Connect_default_def ConnectFlags_default_def drop_bit_eq_div)
  have w: "wire ?h (VConnect ?cn) = ?m"
    unfolding wire_def b by (simp add: header_pack_def vbi_small)
  have ok: "header_wf ?h" "packet_ok ?h (VConnect ?cn)"
    by (simp_all add: header_wf_def connect_ok_def connect_flags_wf_def str_ok_def Connect_default_def
        ConnectFlags_default_def)
  have l: "length (body_of (hdr_qos ?h) (VConnect ?cn)) < 128 ^ 3" unfolding b by simp
  have m: "ms_recvBuff (transports ?w 0) = wire ?h (VConnect ?cn) @ [0xC0]" unfolding w by simp
  have n: "cn_level ?cn = 4" "sessionPresent (cn_client_id ?cn) ?w = None"
    by (simp_all add: sessionPresent_def Connect_default_def)
  have k: "cn_keep_alive ?cn = 10" "cn_client_id ?cn = ''e''" by simp_all
  from connect_from_wire [OF ref_core_ok(1,3) ok l m n] show ?thesis
    unfolding k by (auto simp: sessionPresent_def)
qed

text \<open>C35: UNSUBSCRIBE is ignored. A complete UNSUBSCRIBE is taken off the receive buffer and nothing else
  happens: the state after the task is the state before it with the rest in the transport's buffer. No
  subscription is removed, no UNSUBACK is sent and the client does not count as active, since the
  handler first tests the variant for the acknowledgement alternative.\<close>

theorem unsubscribe_ignored:
  assumes "core_reads C" and "core_buffer C" and "header_wf h" and "packet_ok h (VUnsubscribe un)"
    and "length (body_of (hdr_qos h) (VUnsubscribe un)) < 128 ^ 3"
    and "ms_recvBuff (transports w tid) = wire h (VUnsubscribe un) @ rest"
  shows "parseData C tid w =
    Inr (w\<lparr>transports := (transports w)(tid := (transports w tid)\<lparr>ms_recvBuff := rest\<rparr>)\<rparr>)"
proof -
  let ?w = "upd_transport tid (\<lambda>t. t\<lparr>ms_recvBuff := rest\<rparr>) w"
  let ?p = "\<lparr>header = h, pkt_len = length (wire h (VUnsubscribe un)), pkt = VUnsubscribe un\<rparr>"
  have t: "hdr_type h = UNSUBSCRIBE" using assms(4) by (cases "hdr_type h") auto
  have "unsubscribeHandler C ?p [] ?w tid = Inr (- MQTT_ERR, [], ?w)"
    by (simp add: unsubscribeHandler_def)
  moreover have "c_int (word_of_int (- 1)) = - 1" by (rule c_int_codes) simp
  ultimately have "call_handler C ?p ?w tid = Inr (- 1, [], ?w)"
    using call_handler_at [of ?p C "unsubscribeHandler C"] t by (simp add: handlers_def)
  then have "parseData C tid w = Inr ?w"
    using parseData_wire [OF assms(1-6)] by simp
  then show ?thesis by (simp add: upd_transport_def)
qed

theorem unsubscribe_ignored_witness:
  "\<exists>w'. parseData ref_core 0 (upd_transport 0 (\<lambda>t. t\<lparr>ms_recvBuff :=
       [0xA2, 6, 0, 5, 0, 2, 47, 97] @ []\<rparr>) (as_client 0 ''c'' (sample_world True 1000))) = Inr w' \<and>
     m_topicTree w' = sample_topics \<and> ms_recvBuff (transports w' 0) = []"
proof -
  let ?h = "\<lparr>hdr_type = UNSUBSCRIBE, hdr_dup = False, hdr_qos = 1, hdr_retain = False\<rparr>"
  let ?v = "VUnsubscribe \<lparr>unsub_packet_id = 5, unsub_topics = [''/a'']\<rparr>"
  let ?m = "[0xA2, 6, 0, 5, 0, 2, 47, 97] :: u8 list"
  let ?w = "upd_transport 0 (\<lambda>t. t\<lparr>ms_recvBuff := ?m @ []\<rparr>) (as_client 0 ''c'' (sample_world True 1000))"
  have b: "body_of (hdr_qos ?h) ?v = [0, 5, 0, 2, 47, 97]"
    by (simp add: str16_def be16_def bytes_of_def byte_of_char_def)
  have w: "wire ?h ?v = ?m"
    unfolding wire_def b by (simp add: header_pack_def vbi_small)
  have ok: "header_wf ?h" "packet_ok ?h ?v" by (simp_all add: header_wf_def str_ok_def)
  have l: "length (body_of (hdr_qos ?h) ?v) < 128 ^ 3" unfolding b by simp
  have m: "ms_recvBuff (transports ?w 0) = wire ?h ?v @ []" unfolding w by simp
  from unsubscribe_ignored [OF ref_core_ok(1,3) ok l m] show ?thesis by (auto simp: upd_transport_def)
qed

text \<open>C34: A packet the decoder has no entry for. With a type of 11 or more in the first byte, PINGREQ and
  DISCONNECT among them, the jump table is read out of bounds. With the types 0, 2 and 9 the broker
  uses the null session of a client that is not registered; a registered client is disconnected and
  only a clean session is removed: a persistent one stays registered and marked connected.\<close>

theorem undecodable_packet:
  assumes "core_reads C" and "core_buffer C" and "ms_recvBuff (transports w tid) = b # bs"
    and "t = pt_code (hdr_type (header_unpack b))"
  shows "(11 \<le> t \<longrightarrow> parseData C tid w = Inl OutOfBounds) \<and>
    (t \<in> {0, 2, 9} \<longrightarrow> (case sessionPresent (getClientId w tid) w of
        None \<Rightarrow> parseData C tid w = Inl NullDeref
      | Some sid \<Rightarrow> \<exists>w'. parseData C tid w = Inr w' \<and> clients w' = clients w \<and>
          m_sessions w' = um_erase (ms_fd (transports w tid)) (m_sessions w) \<and>
          sessionPresent (getClientId w tid) w' =
            (if cleansession (clients w sid) then None else Some sid)))"
proof -
  have b: "buf_available C (b # bs) = length (b # bs)" "buf_data C (b # bs) = b # bs"
    using assms(2) by (simp_all add: core_buffer_def)
  note u = unpack_beyond_table [OF assms(1), of "b # bs" Packet_default "length (b # bs)"]
  show ?thesis
  proof (intro conjI impI)
    assume "11 \<le> t"
    then show "parseData C tid w = Inl OutOfBounds"
      using u assms(4) by (simp add: parseData_def assms(3) b Let_def)
  next
    assume "t \<in> {0, 2, 9}"
    then have "unpack C Packet_default (b # bs) 0 (length (b # bs)) =
        Inr (- MQTT_ERR, Packet_default\<lparr>header := header_unpack b\<rparr>, 1)"
      using u assms(4) by (auto simp: Let_def)
    then show "case sessionPresent (getClientId w tid) w of
        None \<Rightarrow> parseData C tid w = Inl NullDeref
      | Some sid \<Rightarrow> \<exists>w'. parseData C tid w = Inr w' \<and> clients w' = clients w \<and>
          m_sessions w' = um_erase (ms_fd (transports w tid)) (m_sessions w) \<and>
          sessionPresent (getClientId w tid) w' =
            (if cleansession (clients w sid) then None else Some sid)"
      by (auto simp: parseData_def assms(3) b deref_def forceDisconnect_def removeSession_def
          removeFromRegistry_def sessionPresent_def Let_def split: option.split)
  qed
qed

theorem undecodable_packet_witness:
  "parseData ref_core 0 (upd_transport 0 (\<lambda>t. t\<lparr>ms_recvBuff := [0xC0, 0]\<rparr>) (sample_world True 1000)) =
     Inl OutOfBounds \<and>
   parseData ref_core 0 (upd_transport 0 (\<lambda>t. t\<lparr>ms_recvBuff := [0x90, 0]\<rparr>) (sample_world True 1000)) =
     Inl NullDeref"
proof -
  let ?w = "\<lambda>b. upd_transport 0 (\<lambda>t. t\<lparr>ms_recvBuff := [b, 0]\<rparr>) (sample_world True 1000)"
  have t: "pt_code (hdr_type (header_unpack 0xC0)) = 12" "pt_code (hdr_type (header_unpack 0x90)) = 9"
    by (simp_all add: header_unpack_def and_masks take_bit_eq_mod pt_of_def drop_bit_eq_div)
  have m: "ms_recvBuff (transports (?w b) 0) = [b, 0]" for b by simp
  have "sessionPresent (getClientId (?w 0x90) 0) (?w 0x90) = None"
    by (simp add: sessionPresent_def getClientId_def)
  then show ?thesis
    using undecodable_packet [OF ref_core_ok(1,3) m [of "0xC0"] t(1) [symmetric]]
      undecodable_packet [OF ref_core_ok(1,3) m [of "0x90"] t(2) [symmetric]]
    by simp
qed

end
