(* ===== verification/Broker.thy ===== *)
theory Broker
  imports Transport
begin

text \<open>
  The broker as a whole: the event loop of \<open>mqtt/include/broker.h\<close> and the step relation of the
  running program. The poller and the TCP server belong to the core library, so the loop takes them as
  a parameter (\<open>server\<close>); each of its operations may throw. The step relation interleaves what the core may do to the broker's state (open
  and close transports, deliver bytes, run a parse task, let time pass) with the two maintenance
  operations of the loop, each of them atomic.
\<close>

subsection \<open>The event loop\<close>

record event =
  ev_events :: "32 word"
  ev_fd :: int

record server =
  srv_poll :: "int \<Rightarrow> world \<Rightarrow> fault + event list \<times> world"
  srv_getServerFd :: int
  srv_closeConnection :: "int \<Rightarrow> world \<Rightarrow> fault + world"
  srv_newConnection :: "world \<Rightarrow> fault + world"
  srv_SessionEvent :: "int \<Rightarrow> world \<Rightarrow> fault + world"

text \<open>The event bits of \<open>epoll\<close>.\<close>

abbreviation (input) EPOLLIN :: "32 word" where "EPOLLIN \<equiv> 0x001"
abbreviation (input) EPOLLERR :: "32 word" where "EPOLLERR \<equiv> 0x008"
abbreviation (input) EPOLLHUP :: "32 word" where "EPOLLHUP \<equiv> 0x010"
abbreviation (input) EPOLLRDHUP :: "32 word" where "EPOLLRDHUP \<equiv> 0x2000"

definition handle_event :: "server \<Rightarrow> event \<Rightarrow> world \<Rightarrow> fault + world" where
  "handle_event S ev w =
     (if ev_events ev AND (EPOLLHUP OR EPOLLERR OR EPOLLRDHUP) \<noteq> 0 then srv_closeConnection S (ev_fd ev) w
      else if ev_fd ev = srv_getServerFd S then srv_newConnection S w
      else if ev_events ev AND EPOLLIN \<noteq> 0 then srv_SessionEvent S (ev_fd ev) w
      else Inr w)"

primrec handle_events :: "server \<Rightarrow> event list \<Rightarrow> world \<Rightarrow> fault + world" where
  "handle_events S [] = Inr"
| "handle_events S (ev # evs) = (\<lambda>w. and_then (handle_event S ev w) (handle_events S evs))"

text \<open>One round of \<open>Broker::run\<close>; \<open>None\<close> when it does not come to its end.\<close>

definition run_iteration :: "core \<Rightarrow> server \<Rightarrow> world \<Rightarrow> (fault + world) option" where
  "run_iteration C S w =
     (let timeout = getNextTimeoutMs w
      in case and_then (srv_poll S timeout w) (\<lambda>(events, w). handle_events S events w) of
           Inl e \<Rightarrow> Some (Inl e)
         | Inr w \<Rightarrow>
             (case processExpiredSessions w of
                None \<Rightarrow> None
              | Some w \<Rightarrow> processRetransmissions C w))"

text \<open>What \<open>catch (const std::exception&)\<close> stops; undefined behaviour is no exception.\<close>

fun is_exception :: "fault \<Rightarrow> bool" where
  "is_exception BadVariantAccess = True"
| "is_exception LengthError = True"
| "is_exception (RuntimeError s) = True"
| "is_exception e = False"

text \<open>
  What the loop relies on: an operation of the core throws an exception, or it changes the state by steps
  that keep the invariant.
\<close>

definition throws_or_steps :: "world \<Rightarrow> fault + world \<Rightarrow> bool" where
  "throws_or_steps w r \<longleftrightarrow> (case r of Inl e \<Rightarrow> is_exception e | Inr w' \<Rightarrow> steps w w')"

definition server_ok :: "server \<Rightarrow> bool" where
  "server_ok S \<longleftrightarrow>
     (\<forall>t w. world_inv w \<longrightarrow> throws_or_steps w (map_sum id snd (srv_poll S t w))) \<and>
     (\<forall>fd w. world_inv w \<longrightarrow> throws_or_steps w (srv_closeConnection S fd w)) \<and>
     (\<forall>w. world_inv w \<longrightarrow> throws_or_steps w (srv_newConnection S w)) \<and>
     (\<forall>fd w. world_inv w \<longrightarrow> throws_or_steps w (srv_SessionEvent S fd w))"

lemma steps_inv: "steps w w' \<Longrightarrow> world_inv w'"
  by (simp add: steps_def)

lemma throws_or_steps_simps [simp]:
  "throws_or_steps w (Inl e) = is_exception e" "throws_or_steps w (Inr w') = steps w w'"
  by (simp_all add: throws_or_steps_def)

lemma throws_or_steps_trans:
  "steps w u \<Longrightarrow> throws_or_steps u r \<Longrightarrow> throws_or_steps w r"
  using steps_trans by (auto simp: throws_or_steps_def split: sum.splits)

lemma handle_event_steps: "server_ok S \<Longrightarrow> world_inv w \<Longrightarrow> throws_or_steps w (handle_event S ev w)"
  by (simp add: handle_event_def server_ok_def steps_refl)

lemma handle_events_steps:
  "server_ok S \<Longrightarrow> world_inv w \<Longrightarrow> throws_or_steps w (handle_events S evs w)"
proof (induction evs arbitrary: w)
  case (Cons ev evs)
  show ?case
  proof (cases "handle_event S ev w")
    case (Inl e)
    then show ?thesis using handle_event_steps [OF Cons.prems, of ev] by simp
  next
    case (Inr u)
    then have "steps w u" using handle_event_steps [OF Cons.prems, of ev] by simp
    then show ?thesis using Inr throws_or_steps_trans Cons.IH [OF Cons.prems(1) steps_inv] by simp
  qed
qed (simp add: steps_refl)

lemma loop_events_steps:
  assumes "server_ok S" and "world_inv w"
  shows "throws_or_steps w (and_then (srv_poll S t w) (\<lambda>(events, w). handle_events S events w))"
proof -
  have p: "throws_or_steps w (map_sum id snd (srv_poll S t w))" using assms by (simp add: server_ok_def)
  show ?thesis
  proof (cases "srv_poll S t w")
    case (Inl e)
    then show ?thesis using p by simp
  next
    case (Inr q)
    then have "steps w (snd q)" using p by simp
    then show ?thesis
      using Inr throws_or_steps_trans handle_events_steps [OF assms(1) steps_inv] by (simp add: case_prod_unfold)
  qed
qed

lemma processExpired_steps:
  "world_inv w \<Longrightarrow> processExpiredSessions w = Some w' \<Longrightarrow> steps w w'"
  by (simp add: steps_def world_inv_processExpiredSessions evolves_only_removes
      processExpiredSessions_only_removes)

lemma processRetransmissions_steps:
  "world_inv w \<Longrightarrow> \<exists>w'. processRetransmissions C w = Some (Inr w') \<and> steps w w'"
  using processRetransmissions_ok evolves_keeps unfolding steps_def by blast

subsection \<open>The step relation\<close>

definition recv_append :: "nat \<Rightarrow> u8 list \<Rightarrow> world \<Rightarrow> world" where
  "recv_append tid data = upd_transport tid (\<lambda>t. t\<lparr>ms_recvBuff := ms_recvBuff t @ data\<rparr>)"

definition hold :: "nat \<Rightarrow> world \<Rightarrow> world" where
  "hold tid w = w\<lparr>held := tid # held w\<rparr>"

definition release :: "nat \<Rightarrow> world \<Rightarrow> world" where
  "release tid w = w\<lparr>held := remove1 tid (held w)\<rparr>"

inductive broker_step :: "core \<Rightarrow> world \<Rightarrow> world \<Rightarrow> bool" for C :: core where
  accept: "broker_step C w (addSession fd w)"
| close: "broker_step C w (removeSession fd w)"
| receive: "broker_step C w (recv_append tid data w)"
| task: "transport_alive w tid \<Longrightarrow> parseData C tid (hold tid w) = Inr w' \<Longrightarrow>
    broker_step C w (release tid w')"
| tick: "0 \<le> d \<Longrightarrow> broker_step C w (w\<lparr>now_ms := now_ms w + d\<rparr>)"
| expire: "processExpiredSessions w = Some w' \<Longrightarrow> broker_step C w w'"
| retransmit: "processRetransmissions C w = Some (Inr w') \<Longrightarrow> broker_step C w w'"

inductive reachable :: "core \<Rightarrow> world \<Rightarrow> bool" for C :: core where
  init: "0 \<le> now \<Longrightarrow> reachable C (world_init now)"
| step: "reachable C w \<Longrightarrow> broker_step C w w' \<Longrightarrow> reachable C w'"

lemma held_step:
  assumes "world_inv w" and "\<forall>t \<in> set h. t < next_tid w" shows "steps w (w\<lparr>held := h\<rparr>)"
  using assms by (simp add: steps_def evolves_def world_inv_def inv_defs)

lemma transport_alive_less: "world_inv w \<Longrightarrow> transport_alive w tid \<Longrightarrow> tid < next_tid w"
  by (auto simp: transport_alive_def world_inv_def transports_inv_def)

lemma hold_step: "world_inv w \<Longrightarrow> transport_alive w tid \<Longrightarrow> steps w (hold tid w)"
proof -
  assume inv: "world_inv w" and a: "transport_alive w tid"
  then have "\<forall>t \<in> set (held w). t < next_tid w" by (simp add: world_inv_def transports_inv_def)
  with transport_alive_less [OF inv a] have "\<forall>t \<in> set (tid # held w). t < next_tid w" by simp
  with inv show "steps w (hold tid w)" unfolding hold_def by (rule held_step)
qed

lemma release_step: "world_inv w \<Longrightarrow> steps w (release tid w)"
proof -
  assume inv: "world_inv w"
  then have "\<forall>t \<in> set (held w). t < next_tid w" by (simp add: world_inv_def transports_inv_def)
  then have "\<forall>t \<in> set (remove1 tid (held w)). t < next_tid w"
    using set_remove1_subset [of tid "held w"] by blast
  with inv show "steps w (release tid w)" unfolding release_def by (rule held_step)
qed

lemma tick_step: "world_inv w \<Longrightarrow> 0 \<le> d \<Longrightarrow> steps w (w\<lparr>now_ms := now_ms w + d\<rparr>)"
proof -
  assume inv: "world_inv w" and d: "0 \<le> d"
  let ?w = "w\<lparr>now_ms := now_ms w + d\<rparr>"
  have "registry_inv ?w" "tree_inv ?w" "transports_inv ?w"
    using inv by (simp_all add: world_inv_def registry_inv_def tree_inv_def transports_inv_def)
  moreover have "clients_inv ?w" using inv d by (fastforce simp: world_inv_def clients_inv_def)
  moreover have "heaps_inv ?w" using inv d by (fastforce simp: world_inv_def heaps_inv_def)
  ultimately show "steps w ?w" using d by (simp add: steps_def evolves_def world_invI)
qed

lemma parseData_steps:
  assumes "core_reads C" and "world_inv w" and "tid < next_tid w" and "parseData C tid w = Inr w'"
  shows "steps w w'"
  using parseData_outcome [OF assms(1-3)] assms(4) by auto

lemma broker_step_steps:
  assumes C: "core_reads C" and "broker_step C w w'" and inv: "world_inv w"
  shows "steps w w'"
  using assms(2)
proof (cases rule: broker_step.cases)
  case (accept fd)
  then show ?thesis
    using inv world_inv_addSession by (auto simp: steps_def evolves_def addSession_def)
next
  case (close fd)
  then show ?thesis
    using inv world_inv_removeSession by (auto simp: steps_def evolves_def removeSession_def)
next
  case (receive tid data)
  then show ?thesis using upd_transport_step [OF inv] by (simp add: recv_append_def)
next
  case (task tid w1)
  have h: "steps w (hold tid w)" using hold_step [OF inv task(2)] .
  have "tid < next_tid (hold tid w)"
    using transport_alive_less [OF inv task(2)] by (simp add: hold_def)
  from parseData_steps [OF C steps_inv [OF h] this task(3)] have "steps (hold tid w) w1" .
  then show ?thesis
    using steps_trans [OF h] steps_trans release_step [OF steps_inv] task(1) by blast
next
  case (tick d)
  then show ?thesis using tick_step [OF inv] by simp
next
  case expire
  then show ?thesis using processExpired_steps [OF inv] by simp
next
  case retransmit
  then show ?thesis using processRetransmissions_steps [OF inv, of C] by auto
qed

lemma reachable_inv:
  assumes "core_reads C" and "reachable C w" shows "world_inv w"
  using assms(2)
proof (induction rule: reachable.induct)
  case (step w w')
  then show ?case using broker_step_steps [OF assms(1)] steps_inv by blast
qed (rule world_inv_init)

lemma run_evolves:
  assumes "core_reads C" and "(broker_step C)\<^sup>*\<^sup>* w w'" and "world_inv w"
  shows "steps w w'"
  using assms(2)
proof (induction rule: rtranclp_induct)
  case (step u v)
  then show ?case using broker_step_steps [OF assms(1)] steps_trans steps_inv by blast
qed (rule steps_refl [OF assms(3)])

subsection \<open>Runs with a CONNECT\<close>

lemma hold_sel [simp]:
  "transports (hold tid w) = transports w" "sessionPresent c (hold tid w) = sessionPresent c w"
  "m_expiryHeap (hold tid w) = m_expiryHeap w" "next_tid (hold tid w) = next_tid w"
  "next_sid (hold tid w) = next_sid w" "now_ms (hold tid w) = now_ms w"
  "m_sessions (hold tid w) = m_sessions w"
  by (simp_all add: hold_def sessionPresent_def)

lemma release_sel [simp]:
  "transports (release tid w) = transports w" "sessionPresent c (release tid w) = sessionPresent c w"
  "m_expiryHeap (release tid w) = m_expiryHeap w" "client_alive (release tid w) sid = client_alive w sid"
  "m_sessions (release tid w) = m_sessions w" "now_ms (release tid w) = now_ms w"
  by (simp_all add: release_def sessionPresent_def client_alive_def)

lemma pushDataToSend_sel [simp]:
  "transports (pushDataToSend t d w) = transports w"
  "sessionPresent c (pushDataToSend t d w) = sessionPresent c w"
  "m_expiryHeap (pushDataToSend t d w) = m_expiryHeap w"
  "client_alive (pushDataToSend t d w) sid = client_alive w sid"
  "m_sessions (pushDataToSend t d w) = m_sessions w" "now_ms (pushDataToSend t d w) = now_ms w"
  by (simp_all add: pushDataToSend_def sessionPresent_def client_alive_def)

text \<open>A parse task that accepts a CONNECT, as one step of the program.\<close>

definition after_connect :: "nat \<Rightarrow> string \<Rightarrow> u8 list \<Rightarrow> world \<Rightarrow> world" where
  "after_connect tid c buff w =
     release tid (pushDataToSend tid buff (upd_transport tid (\<lambda>t. t\<lparr>ms_client_id := c\<rparr>) w))"

lemma after_connect_sel [simp]:
  "sessionPresent d (after_connect tid c buff w) = sessionPresent d w"
  "m_expiryHeap (after_connect tid c buff w) = m_expiryHeap w"
  "client_alive (after_connect tid c buff w) sid = client_alive w sid"
  "m_sessions (after_connect tid c buff w) = m_sessions w"
  "ms_recvBuff (transports (after_connect tid c buff w) tid) = ms_recvBuff (transports w tid)"
  by (simp_all add: after_connect_def, simp_all add: upd_transport_def client_alive_def)

lemma reachable_connect:
  assumes "core_reads C" and "core_buffer C" and "header_wf h" and "packet_ok h (VConnect cn)"
    and "length (body_of (hdr_qos h) (VConnect cn)) < 128 ^ 3"
    and "reachable C w" and "transport_alive w tid"
    and "ms_recvBuff (transports w tid) = wire h (VConnect cn) @ rest"
    and "connectHandler C \<lparr>header = h, pkt_len = length (wire h (VConnect cn)), pkt = VConnect cn\<rparr> []
      (upd_transport tid (\<lambda>t. t\<lparr>ms_recvBuff := rest\<rparr>) (hold tid w)) tid = Inr (MQTT_CONNECTION_ACCEPTED, buff, v)"
  shows "reachable C (after_connect tid (cn_client_id cn) buff v)"
proof -
  have "ms_recvBuff (transports (hold tid w) tid) = wire h (VConnect cn) @ rest" using assms(8) by simp
  note p = parse_connect_wire [OF assms(1-5) this assms(9)]
  show ?thesis
    unfolding after_connect_def by (rule reachable.step [OF assms(6) broker_step.task [OF assms(7) p]])
qed

text \<open>The two CONNECT packets of a client that connects twice, both times with a clean session.\<close>

definition twice :: Connect where
  "twice = Connect_default\<lparr>cn_cf := ConnectFlags_default\<lparr>cf_cleansession := True\<rparr>,
     cn_keep_alive := 10, cn_client_id := ''e''\<rparr>"

lemma twice_sel:
  "cn_level twice = 4" "cn_keep_alive twice = 10" "cn_client_id twice = ''e''"
  "cf_cleansession (cn_cf twice)" "packet_ok Header_default (VConnect twice)"
  "header_wf Header_default" "hdr_type Header_default = CONNECT"
  by (simp_all add: twice_def Connect_default_def ConnectFlags_default_def connect_ok_def
      connect_flags_wf_def str_ok_def Header_default_def header_wf_def)

lemma twice_short: "length (body_of (hdr_qos Header_default) (VConnect twice)) < 128 ^ 3"
  by (simp add: connect_body_def twice_def Connect_default_def ConnectFlags_default_def)

lemma reachable_dead_entry:
  assumes C: "core_reads C" "core_buffer C"
  shows "\<exists>w e. reachable C w \<and> e \<in> set (m_expiryHeap w) \<and> \<not> client_alive w (ee_session e)"
proof -
  let ?m = "wire Header_default (VConnect twice)"
  let ?p = "\<lparr>header = Header_default, pkt_len = length ?m, pkt = VConnect twice\<rparr>"
  let ?e = "\<lparr>ee_expiry_ms = 15000, ee_session = 0\<rparr>"
  define w1 where "w1 = recv_append 0 (?m @ ?m) (addSession 5 (world_init 0))"
  have init: "reachable C (addSession 5 (world_init 0))"
    by (intro reachable.step [OF reachable.init broker_step.accept]) simp
  have w1: "reachable C w1"
    unfolding w1_def by (rule reachable.step [OF init broker_step.receive])
  have s1: "ms_recvBuff (transports w1 0) = ?m @ ?m" "m_sessions w1 = [(5, 0)]" "next_sid w1 = 0"
    "now_ms w1 = 0" "m_expiryHeap w1 = []" "sessionPresent c w1 = None" for c
    by (simp_all add: w1_def recv_append_def upd_transport_def addSession_def world_init_def sessionPresent_def)
  have a1: "transport_alive w1 0" by (simp add: transport_alive_def s1)
  define u1 where "u1 = upd_transport 0 (\<lambda>t. t\<lparr>ms_recvBuff := ?m\<rparr>) (hold 0 w1)"
  define v1 where "v1 = admit twice 0 (next_sid u1) True (snd (make_client u1))"
  have u1: "next_sid u1 = 0" "now_ms u1 = 0" "m_expiryHeap u1 = []" "m_sessions u1 = [(5, 0)]"
    "ms_recvBuff (transports u1 0) = ?m" "sessionPresent c u1 = None" for c
    using s1 by (simp_all add: u1_def) (simp_all add: upd_transport_def)
  have r1: "connectHandler C ?p [] u1 0 = Inr (MQTT_CONNECTION_ACCEPTED, [0x20, 2, 0], v1)"
    unfolding v1_def by (rule connect_fresh_eq) (simp_all add: twice_sel u1)
  define w2 where "w2 = after_connect 0 ''e'' [0x20, 2, 0] v1"
  have w2: "reachable C w2"
    using reachable_connect [OF C twice_sel(6,5) twice_short w1 a1 s1(1) r1 [unfolded u1_def]]
    by (simp add: w2_def twice_sel)
  note ad = admit_added [OF twice_sel(1), of 0 "next_sid u1" "snd (make_client u1)", folded v1_def]
  have tr: "transports v1 = transports u1"
    unfolding v1_def admit_transports by (simp add: make_client_def)
  have s2: "ms_recvBuff (transports w2 0) = ?m @ []" "m_sessions w2 = [(5, 0)]"
    "sessionPresent ''e'' w2 = Some 0" "m_expiryHeap w2 = [?e]"
    using ad u1 tr by (simp_all add: w2_def make_client_sel twice_sel) (simp add: sessionPresent_def twice_sel)
  have a2: "transport_alive w2 0" by (simp add: transport_alive_def s2)
  define u2 where "u2 = upd_transport 0 (\<lambda>t. t\<lparr>ms_recvBuff := []\<rparr>) (hold 0 w2)"
  have h2: "steps w2 (hold 0 w2)" using hold_step [OF reachable_inv [OF C(1) w2] a2] .
  have i2: "world_inv u2" unfolding u2_def
    by (rule steps_inv [OF upd_transport_step [OF steps_inv [OF h2]]]) simp
  have t2: "0 < next_tid u2"
    using transport_alive_less [OF reachable_inv [OF C(1) w2] a2] by (simp add: u2_def)
  have "sessionPresent (cn_client_id twice) u2 = Some 0" "?e \<in> set (m_expiryHeap u2)"
    using s2 by (simp_all add: u2_def twice_sel)
  from clean_reconnect [OF i2 t2 _ _ _ twice_sel(1,4) this, of ?p C] obtain buff v2 where
    v2: "connectHandler C ?p [] u2 0 = Inr (MQTT_CONNECTION_ACCEPTED, buff, v2)"
      "?e \<in> set (m_expiryHeap v2)" "\<not> client_alive v2 0"
    by (auto simp: twice_sel wire_def)
  have "reachable C (after_connect 0 (cn_client_id twice) buff v2)"
    by (rule reachable_connect [OF C twice_sel(6,5) twice_short w2 a2 s2(1) v2(1) [unfolded u2_def]])
  moreover have "?e \<in> set (m_expiryHeap (after_connect 0 (cn_client_id twice) buff v2))"
    "\<not> client_alive (after_connect 0 (cn_client_id twice) buff v2) (ee_session ?e)"
    using v2(2,3) by simp_all
  ultimately show ?thesis by blast
qed

lemma reachable_hang:
  assumes "core_reads C" and "core_buffer C"
  shows "\<exists>w. reachable C w \<and> processExpiredSessions w = None"
proof -
  obtain w e where w: "reachable C w" "e \<in> set (m_expiryHeap w)" "\<not> client_alive w (ee_session e)"
    using reachable_dead_entry [OF assms] by blast
  let ?d = "max 0 (ee_expiry_ms e - now_ms w)"
  let ?w = "w\<lparr>now_ms := now_ms w + ?d\<rparr>"
  have "reachable C ?w" by (rule reachable.step [OF w(1) broker_step.tick]) simp
  moreover have "client_alive ?w s = client_alive w s" for s by (simp add: client_alive_def)
  then have "processExpiredSessions ?w = None"
    using processExpiredSessions_returns [of ?w] w(2,3) by (auto simp: due_def)
  ultimately show ?thesis by blast
qed

end
