(* ===== verification/End_To_End.thy ===== *)
theory End_To_End
  imports Broker
begin

text \<open>
  From the bytes of one client to the bytes sent to another: the decoder, the handlers, the topic tree,
  routing and the serialisers together, as \<open>parseData\<close> runs them.
\<close>

subsection \<open>A PUBLISH from the wire\<close>

lemma updateActivity_keeps:
  "client_alive (updateActivity c w) sid = client_alive w sid"
  "connected (clients (updateActivity c w) sid) = connected (clients w sid)"
  "cs_session (clients (updateActivity c w) sid) = cs_session (clients w sid)"
  "message_queue (clients (updateActivity c w) sid) = message_queue (clients w sid)"
  "inflight (clients (updateActivity c w) sid) = inflight (clients w sid)"
  "lock_transport (updateActivity c w) t = lock_transport w t"
  "m_topicTree (updateActivity c w) = m_topicTree w" "sent (updateActivity c w) = sent w"
  "transports (updateActivity c w) = transports w"
  "m_retransmitHeap (updateActivity c w) = m_retransmitHeap w"
  "m_sessionRegistry (updateActivity c w) = m_sessionRegistry w"
  "m_sessions (updateActivity c w) = m_sessions w" "held (updateActivity c w) = held w"
  by (auto simp: updateActivity_def upd_client_def client_alive_def lock_transport_def transport_alive_def
      split: option.split)

lemma upd_transport_keeps:
  "client_alive (upd_transport tid f w) sid = client_alive w sid"
  "lock_transport (upd_transport tid f w) t = lock_transport w t"
  "m_topicTree (upd_transport tid f w) = m_topicTree w"
  "m_retransmitHeap (upd_transport tid f w) = m_retransmitHeap w"
  "m_sessions (upd_transport tid f w) = m_sessions w" "held (upd_transport tid f w) = held w"
  by (auto simp: upd_transport_def client_alive_def lock_transport_def transport_alive_def split: option.split)

lemma getClientId_recv [simp]:
  "getClientId (upd_transport tid (\<lambda>t. t\<lparr>ms_recvBuff := b\<rparr>) w) a = getClientId w a"
  by (simp add: getClientId_def)

text \<open>A forwarded PUBLISH of QoS 0 has the bytes it arrived with.\<close>

lemma publish_bytes_wire:
  assumes "core_writes C" and "pkt p = VPublish pub" and "packet_ok (header p) (VPublish pub)"
    and "hdr_qos (header p) = 0" and "length (body_of 0 (VPublish pub)) < 128 ^ 3"
  shows "publish_bytes C p = wire (header p) (VPublish pub)"
proof -
  have "length (pub_topic pub) + length (pub_payload pub) < 2 ^ 31 - 4"
    using assms(5) by (simp add: publish_body_def str16_def be16_def bytes_of_def)
  moreover have "pub\<lparr>pub_packet_id := 0\<rparr> = pub" using assms(3,4) by simp
  ultimately show ?thesis
    using build_publish_wire [OF assms(1,2), of 0 "[]"] by (simp add: publish_bytes_def)
qed

definition received :: "nat \<Rightarrow> u8 list \<Rightarrow> world \<Rightarrow> world" where
  "received tid rest w = updateActivity (getClientId w tid) (upd_transport tid (\<lambda>t. t\<lparr>ms_recvBuff := rest\<rparr>) w)"

lemma received_keeps [simp]:
  "client_alive (received tid rest w) sid = client_alive w sid"
  "connected (clients (received tid rest w) sid) = connected (clients w sid)"
  "cs_session (clients (received tid rest w) sid) = cs_session (clients w sid)"
  "message_queue (clients (received tid rest w) sid) = message_queue (clients w sid)"
  "inflight (clients (received tid rest w) sid) = inflight (clients w sid)"
  "lock_transport (received tid rest w) t = lock_transport w t"
  "m_topicTree (received tid rest w) = m_topicTree w" "sent (received tid rest w) = sent w"
  "ms_recvBuff (transports (received tid rest w) a) = (if a = tid then rest else ms_recvBuff (transports w a))"
  "m_retransmitHeap (received tid rest w) = m_retransmitHeap w"
  "m_sessionRegistry (received tid rest w) = m_sessionRegistry w"
  "m_sessions (received tid rest w) = m_sessions w" "held (received tid rest w) = held w"
  by (simp_all add: received_def updateActivity_keeps upd_transport_keeps)

lemma parse_publish_wire:
  assumes "core_reads C" and "core_buffer C" and "header_wf h" and "packet_ok h (VPublish pub)"
    and "hdr_qos h = 0" and "length (body_of 0 (VPublish pub)) < 128 ^ 3"
    and "ms_recvBuff (transports w tid) = wire h (VPublish pub) @ rest"
    and "p = \<lparr>header = h, pkt_len = length (wire h (VPublish pub)), pkt = VPublish pub\<rparr>"
    and "tree_match (pub_topic pub) (m_topicTree w) = (tree, subs)"
  shows "parseData C tid w = Inr ((received tid rest w)\<lparr>m_topicTree := tree,
    sent := sent w @ qos0_output C p ((received tid rest w)\<lparr>m_topicTree := tree\<rparr>) subs\<rparr>)"
proof -
  let ?w = "upd_transport tid (\<lambda>t. t\<lparr>ms_recvBuff := rest\<rparr>) w"
  have p: "pub_ok p" "the_pub p = pub" "hdr_qos (header p) = 0" "hdr_type (header p) = PUBLISH"
    "pkt p = VPublish pub"
    using assms(4,5) by (simp_all add: assms(8) pub_ok_def the_pub_def wire_def)
  have "routePacket C p None (received tid rest w) =
      Inr (p, (received tid rest w)\<lparr>m_topicTree := tree,
        sent := sent w @ qos0_output C p ((received tid rest w)\<lparr>m_topicTree := tree\<rparr>) subs\<rparr>)"
    using fold_route_qos0 [OF p(3), of C subs "(received tid rest w)\<lparr>m_topicTree := tree\<rparr>"]
    by (simp add: routePacket_fold [OF p(1)] p(2) assms(9))
  then have "publishHandler C p [] ?w tid = Inr (MQTT_OK, [], (received tid rest w)\<lparr>m_topicTree := tree,
      sent := sent w @ qos0_output C p ((received tid rest w)\<lparr>m_topicTree := tree\<rparr>) subs\<rparr>)"
    by (simp add: publishHandler_def p Let_def received_def)
  moreover have "c_int (word_of_int 0) = 0" by (rule c_int_codes) simp
  moreover have "call_handler C p ?w tid =
      and_then (publishHandler C p [] ?w tid) (\<lambda>(rc, b, w). Inr (c_int (word_of_int rc), b, w))"
    by (rule call_handler_at) (simp_all add: p handlers_def)
  ultimately show ?thesis
    using parseData_wire [OF assms(1-4) _ assms(7)] assms(5,6) by (simp add: assms(8) [symmetric])
qed

subsection \<open>A SUBSCRIBE from the wire\<close>

lemma fold_add_subscription_frame:
  "m_sessionRegistry (fold (add_subscription c) ts w) = m_sessionRegistry w"
  "clients (fold (add_subscription c) ts w) = clients w"
  "transports (fold (add_subscription c) ts w) = transports w"
  "m_sessions (fold (add_subscription c) ts w) = m_sessions w"
  "held (fold (add_subscription c) ts w) = held w" "sent (fold (add_subscription c) ts w) = sent w"
  by (induction ts arbitrary: w)
    (auto simp: add_subscription_def createSubscription_def split: option.split)

lemma parse_subscribe_wire:
  assumes "core_reads C" and "core_buffer C" and "header_wf h" and "packet_ok h (VSubscribe s)"
    and "length (body_of (hdr_qos h) (VSubscribe s)) < 128 ^ 3"
    and "ms_recvBuff (transports w tid) = wire h (VSubscribe s) @ rest"
  shows "parseData C tid w = Inr (pushDataToSend tid
      (build_suback C (sub_packet_id s) (map granted (sub_payload s)) [])
      (fold (add_subscription (getClientId w tid)) (sub_payload s) (received tid rest w)))"
proof -
  let ?w = "upd_transport tid (\<lambda>t. t\<lparr>ms_recvBuff := rest\<rparr>) w"
  let ?p = "\<lparr>header = h, pkt_len = length (wire h (VSubscribe s)), pkt = VSubscribe s\<rparr>"
  have t: "hdr_type h = SUBSCRIBE" using assms(4) by simp
  have "c_int (word_of_int 0) = 0" by (rule c_int_codes) simp
  moreover have "call_handler C ?p ?w tid =
      and_then (subscribeHandler C ?p [] ?w tid) (\<lambda>(rc, b, w). Inr (c_int (word_of_int rc), b, w))"
    by (rule call_handler_at) (simp_all add: t handlers_def)
  ultimately show ?thesis
    using parseData_wire [OF assms] subscribeHandler_eq [of ?p s C "[]" ?w tid]
    by (simp add: Let_def received_def)
qed

subsection \<open>Properties\<close>

text \<open>C5: A PUBLISH of QoS 0 from end to end. When a complete QoS 0 PUBLISH stands at the front of a
  transport's receive buffer, its parse task consumes it and every subscription the topic tree finds
  whose session is registered, connected and has a transport is sent exactly the bytes the publisher
  sent, in the order \<open>match\<close> gives; nothing else is sent, queued, kept in flight or scheduled.\<close>

theorem publish_end_to_end:
  assumes "core_reads C" and "core_writes C" and "core_buffer C" and "header_wf h"
    and "packet_ok h (VPublish pub)" and "hdr_qos h = 0" and "length (body_of 0 (VPublish pub)) < 128 ^ 3"
    and "ms_recvBuff (transports w tid) = wire h (VPublish pub) @ rest"
    and "tree_match (pub_topic pub) (m_topicTree w) = (tree, subs)"
  shows "\<exists>w'. parseData C tid w = Inr w' \<and> ms_recvBuff (transports w' tid) = rest \<and>
    sent w' = sent w @ concat (map (\<lambda>s.
      if client_alive w (sub_session s) \<and> connected (clients w (sub_session s))
      then case lock_transport w (cs_session (clients w (sub_session s))) of
             Some t \<Rightarrow> [(t, wire h (VPublish pub))] | None \<Rightarrow> []
      else []) subs) \<and>
    m_topicTree w' = tree \<and> m_retransmitHeap w' = m_retransmitHeap w \<and>
    (\<forall>sid. message_queue (clients w' sid) = message_queue (clients w sid) \<and>
       inflight (clients w' sid) = inflight (clients w sid))"
proof -
  let ?p = "\<lparr>header = h, pkt_len = length (wire h (VPublish pub)), pkt = VPublish pub\<rparr>"
  let ?u = "(received tid rest w)\<lparr>m_topicTree := tree\<rparr>"
  have b: "publish_bytes C ?p = wire h (VPublish pub)"
    using publish_bytes_wire [OF assms(2), of ?p pub] assms(5-7) by simp
  have l: "lock_transport ?u t = lock_transport w t" "live ?u sid = live w sid" for t sid
    using lock_transport_cong [of ?u "received tid rest w" t]
    by (simp_all add: live_def client_alive_def [of ?u] client_alive_def [of w])
  show ?thesis
    unfolding parse_publish_wire [OF assms(1,3-8) refl assms(9)]
    by (simp add: qos0_output_def b l cong: if_cong option.case_cong) (simp add: live_def)
qed

text \<open>The bytes 30 05 00 02 2f 61 07: a QoS 0 PUBLISH of one byte on the topic \<open>/a\<close>.\<close>

definition sample_pub :: Publish where
  "sample_pub = \<lparr>pub_topic = ''/a'', pub_packet_id = 0, pub_payload = [7]\<rparr>"

definition qos0_header :: Header where
  "qos0_header = \<lparr>hdr_type = PUBLISH, hdr_dup = False, hdr_qos = 0, hdr_retain = False\<rparr>"

lemma sample_pub_wire:
  "wire qos0_header (VPublish sample_pub) = [0x30, 5, 0, 2, 0x2F, 0x61, 7]"
  "header_wf qos0_header" "packet_ok qos0_header (VPublish sample_pub)" "hdr_qos qos0_header = 0"
  "length (body_of 0 (VPublish sample_pub)) < 128 ^ 3" "pub_topic sample_pub = ''/a''"
  by (simp_all add: wire_def qos0_header_def sample_pub_def publish_body_def str16_def be16_def bytes_of_def
      byte_of_char_def header_pack_def vbi_small header_wf_def str_ok_def)

theorem publish_end_to_end_witness:
  "\<exists>w'. parseData ref_core 1 (upd_transport 1 (\<lambda>t. t\<lparr>ms_recvBuff := [0x30, 5, 0, 2, 0x2F, 0x61, 7]\<rparr>)
      (sample_world True 1000)) = Inr w' \<and>
    sent w' = [(0, [0x30, 5, 0, 2, 0x2F, 0x61, 7]), (1, [0x30, 5, 0, 2, 0x2F, 0x61, 7])]"
proof -
  let ?w = "upd_transport 1 (\<lambda>t. t\<lparr>ms_recvBuff := [0x30, 5, 0, 2, 0x2F, 0x61, 7]\<rparr>) (sample_world True 1000)"
  have m: "tree_match (pub_topic sample_pub) (m_topicTree ?w) =
      (sample_topics, [\<lparr>sub_session = 0, sub_qos = 1\<rparr>, \<lparr>sub_session = 1, sub_qos = 2\<rparr>])"
    by (simp add: upd_transport_keeps sample_pub_wire(6) match_sample_topics)
  from publish_end_to_end [OF ref_core_ok(1,2,3) sample_pub_wire(2-5) _ m, of 1 "[]"]
  show ?thesis
    by (auto simp: sample_pub_wire(1) upd_transport_keeps(5,6) client_alive_def lock_transport_def transport_alive_def)
qed

text \<open>A subscription that \<open>match\<close> finds is served.\<close>

lemma served:
  assumes "core_writes C" and "packet_ok h (VPublish pub)" and "hdr_qos h = 0"
    and "length (body_of 0 (VPublish pub)) < 128 ^ 3" and "s \<in> set subs" and "live w (sub_session s)"
    and "lock_transport w (cs_session (clients w (sub_session s))) = Some t"
  shows "(t, wire h (VPublish pub)) \<in> set (qos0_output C \<lparr>header = h, pkt_len = n, pkt = VPublish pub\<rparr> w subs)"
proof -
  have "publish_bytes C \<lparr>header = h, pkt_len = n, pkt = VPublish pub\<rparr> = wire h (VPublish pub)"
    using publish_bytes_wire [OF assms(1), of "\<lparr>header = h, pkt_len = n, pkt = VPublish pub\<rparr>" pub] assms(2-4) by simp
  with assms(5-7) show ?thesis by (force simp: qos0_output_def)
qed

text \<open>After the task of a SUBSCRIBE, \<open>match\<close> on a granted topic finds the client.\<close>

lemma subscribed_found:
  assumes "world_inv w" and "sessionPresent (getClientId w a) w = Some sid"
    and "f \<in> set ts" and "tp_qos f < 3" and "plain (split (tp_topic f))"
    and "v = fold (add_subscription (getClientId w a)) ts (received a rest w)"
    and "tree_match (tp_topic f) (m_topicTree v) = (tree, subs)"
  shows "\<exists>q. \<lparr>sub_session = sid, sub_qos = q\<rparr> \<in> set subs"
proof -
  let ?c = "getClientId w a" and ?u = "received a rest w"
  have inv: "world_inv ?u"
    using upd_transport_step [OF assms(1), of "\<lambda>t. t\<lparr>ms_recvBuff := rest\<rparr>" a] world_inv_updateActivity
    by (simp add: received_def steps_def)
  have present: "sessionPresent ?c ?u = Some sid" using assms(2) by (simp add: sessionPresent_def)
  from fold_add_subscription [OF inv present assms(3-5)] obtain q where
    q: "look (m_topicTree v) (split (tp_topic f)) ?c = Some \<lparr>sub_session = sid, sub_qos = q\<rparr>"
    unfolding assms(6) by blast
  have "world_inv v" unfolding assms(6) by (rule fold_world_inv [OF add_subscription_step(1) inv])
  moreover have "split (tp_topic f) \<in> set (reach (tp_topic f) (m_topicTree v))"
    using getNode_plain [OF assms(5)] by (simp add: reach_def)
  ultimately have "\<lparr>sub_session = sid, sub_qos = q\<rparr> \<in> set subs"
    using in_match [of "m_topicTree v" _ "tp_topic f"] q assms(7) by (auto simp: world_inv_def tree_inv_def)
  then show ?thesis by blast
qed

text \<open>C20: Subscribing works. Client A, registered, connected and with its transport, sends a SUBSCRIBE that
  grants a filter without wildcards; then client B publishes to that topic with QoS 0. Both parse tasks
  end without a fault, A is sent a SUBACK first, and among what the second task sends is, to A's
  transport, the PUBLISH with the bytes B sent.\<close>

theorem subscribe_then_publish:
  assumes "core_reads C" and "core_writes C" and "core_buffer C" and "world_inv w" and "a \<noteq> b"
    and "header_wf h" and "packet_ok h (VSubscribe s)" and "length (body_of (hdr_qos h) (VSubscribe s)) < 128 ^ 3"
    and "ms_recvBuff (transports w a) = wire h (VSubscribe s) @ rest"
    and "sessionPresent (getClientId w a) w = Some sid" and "connected (clients w sid)"
    and "lock_transport w (cs_session (clients w sid)) = Some t"
    and "f \<in> set (sub_payload s)" and "tp_qos f < 3" and "plain (split (tp_topic f))"
    and "header_wf h'" and "packet_ok h' (VPublish pub)" and "hdr_qos h' = 0"
    and "length (body_of 0 (VPublish pub)) < 128 ^ 3" and "pub_topic pub = tp_topic f"
    and "ms_recvBuff (transports w b) = wire h' (VPublish pub) @ rest'"
  shows "\<exists>w1 w2 out. parseData C a w = Inr w1 \<and> parseData C b w1 = Inr w2 \<and>
    sent w1 = sent w @ [(a, build_suback C (sub_packet_id s)
      (map (\<lambda>t. if tp_qos t < 3 then tp_qos t else 0x80) (sub_payload s)) [])] \<and>
    sent w2 = sent w1 @ out \<and> (t, wire h' (VPublish pub)) \<in> set out"
proof -
  let ?v = "fold (add_subscription (getClientId w a)) (sub_payload s) (received a rest w)"
  let ?w1 = "pushDataToSend a (build_suback C (sub_packet_id s) (map granted (sub_payload s)) []) ?v"
  have w1: "parseData C a w = Inr ?w1" by (rule parse_subscribe_wire [OF assms(1,3,6-9)])
  have t1: "m_topicTree ?w1 = m_topicTree ?v" by (simp add: pushDataToSend_def)
  obtain tree subs where m: "tree_match (pub_topic pub) (m_topicTree ?w1) = (tree, subs)" by fastforce
  from subscribed_found [OF assms(4,10,13-15) refl m [unfolded assms(20) t1]] obtain q where
    sub: "\<lparr>sub_session = sid, sub_qos = q\<rparr> \<in> set subs" by blast
  let ?r = "(received b rest' ?w1)\<lparr>m_topicTree := tree\<rparr>"
  have recv: "ms_recvBuff (transports ?w1 b) = wire h' (VPublish pub) @ rest'"
    using assms(5,21) by (simp add: pushDataToSend_def fold_add_subscription_frame)
  note w2 = parse_publish_wire [OF assms(1,3,16-19) recv refl m]
  have frame: "m_sessionRegistry ?w1 = m_sessionRegistry w" "cs_session (clients ?w1 sid) = cs_session (clients w sid)"
    "connected (clients ?w1 sid) = connected (clients w sid)"
    "m_sessions ?r = m_sessions w" "held ?r = held w"
    by (simp_all add: pushDataToSend_def fold_add_subscription_frame)
  have "live ?r sid"
    using assms(10,11)
    by (auto simp: live_def client_alive_def sessionPresent_def frame(1-3) intro: rev_image_eqI dest: map_of_SomeD)
  moreover have "lock_transport ?r (cs_session (clients ?r sid)) = Some t"
    using assms(12) lock_transport_cong [OF frame(4,5)] by (simp add: frame(2))
  ultimately have "(t, wire h' (VPublish pub)) \<in>
      set (qos0_output C \<lparr>header = h', pkt_len = length (wire h' (VPublish pub)), pkt = VPublish pub\<rparr> ?r subs)"
    using served [OF assms(2,17-19) sub] by simp
  then show ?thesis
    using w1 w2 by (simp add: pushDataToSend_def fold_add_subscription_frame granted_def [abs_def])
qed

text \<open>SUBSCRIBE 82 07 00 05 00 02 2f 62 01 of client \<open>c\<close>, then PUBLISH 30 05 00 02 2f 62 07 of client \<open>d\<close>.\<close>

definition sample_sub :: Subscribe where
  "sample_sub = \<lparr>sub_packet_id = 5, sub_payload = [\<lparr>tp_topic = ''/b'', tp_qos = 1\<rparr>]\<rparr>"

definition sub_header :: Header where
  "sub_header = \<lparr>hdr_type = SUBSCRIBE, hdr_dup = False, hdr_qos = 1, hdr_retain = False\<rparr>"

definition other_pub :: Publish where
  "other_pub = \<lparr>pub_topic = ''/b'', pub_packet_id = 0, pub_payload = [7]\<rparr>"

lemma sample_sub_wire:
  "wire sub_header (VSubscribe sample_sub) = [0x82, 7, 0, 5, 0, 2, 0x2F, 0x62, 1]"
  "header_wf sub_header" "packet_ok sub_header (VSubscribe sample_sub)"
  "length (body_of (hdr_qos sub_header) (VSubscribe sample_sub)) < 128 ^ 3"
  "wire qos0_header (VPublish other_pub) = [0x30, 5, 0, 2, 0x2F, 0x62, 7]"
  "packet_ok qos0_header (VPublish other_pub)" "length (body_of 0 (VPublish other_pub)) < 128 ^ 3"
  by (simp_all add: wire_def sub_header_def sample_sub_def qos0_header_def other_pub_def publish_body_def
      str16_def be16_def bytes_of_def byte_of_char_def header_pack_def vbi_small header_wf_def str_ok_def)

definition two_clients :: world where
  "two_clients =
     upd_transport 0 (\<lambda>t. t\<lparr>ms_recvBuff := [0x82, 7, 0, 5, 0, 2, 0x2F, 0x62, 1]\<rparr>)
       (upd_transport 1 (\<lambda>t. t\<lparr>ms_recvBuff := [0x30, 5, 0, 2, 0x2F, 0x62, 7]\<rparr>)
         (as_client 0 ''c'' (sample_world True 1000)))"

lemma two_clients_sel:
  "world_inv two_clients" "ms_recvBuff (transports two_clients 0) = wire sub_header (VSubscribe sample_sub) @ []"
  "ms_recvBuff (transports two_clients 1) = wire qos0_header (VPublish other_pub) @ []"
  "sessionPresent (getClientId two_clients 0) two_clients = Some 0"
  "connected (clients two_clients 0)"
  "lock_transport two_clients (cs_session (clients two_clients 0)) = Some 0"
proof -
  show "world_inv two_clients"
    unfolding two_clients_def
    by (auto intro!: steps_inv [OF upd_transport_step] as_client_inv sample_world_inv)
qed (simp_all add: two_clients_def sample_sub_wire as_client_def getClientId_def sessionPresent_def
    lock_transport_def transport_alive_def upd_transport_keeps(5,6))

theorem subscribe_then_publish_witness:
  "\<exists>w1 w2. parseData ref_core 0 two_clients = Inr w1 \<and> parseData ref_core 1 w1 = Inr w2 \<and>
    (0, [0x30, 5, 0, 2, 0x2F, 0x62, 7]) \<in> set (sent w2)"
proof -
  have f: "\<lparr>tp_topic = ''/b'', tp_qos = 1\<rparr> \<in> set (sub_payload sample_sub)" "pub_topic other_pub = ''/b''"
    by (simp_all add: sample_sub_def other_pub_def)
  have "plain (split ''/b'')" by simp
  with subscribe_then_publish [OF ref_core_ok(1,2,3) two_clients_sel(1) zero_neq_one sample_sub_wire(2-4)
      two_clients_sel(2,4-6) f(1) _ _ sample_pub_wire(2) sample_sub_wire(6) sample_pub_wire(4) sample_sub_wire(7) _
      two_clients_sel(3)] f(2)
  show ?thesis by (fastforce simp: sample_sub_wire(5))
qed

end
