(* ===== verification/Service.thy ===== *)
theory Service
  imports End_To_End
begin

text \<open>
  What the broker promises, without trees, heaps and buffers: who is a client, who is subscribed to which
  topic, which session can be reached over which transport, and what has been sent, in no order. The
  simulation says that a parse task which meets a CONNECT of a new client, a SUBSCRIBE to topics without
  wildcards or a PUBLISH of QoS 0 does to the broker's state what the promise says.
\<close>

subsection \<open>The specification\<close>

record service =
  sv_members :: "string \<Rightarrow> nat option"
  sv_client :: "nat \<Rightarrow> string"
  sv_subscribed :: "path \<Rightarrow> string \<Rightarrow> Subscription option"
  sv_transport :: "nat \<Rightarrow> nat option"
  sv_sent :: "(nat \<times> u8 list) multiset"

text \<open>The transports of the sessions subscribed at a topic, as often as they are subscribed.\<close>

definition receivers :: "service \<Rightarrow> path \<Rightarrow> nat multiset" where
  "receivers s p =
     image_mset the (filter_mset (\<lambda>t. t \<noteq> None)
       (image_mset (\<lambda>c. sv_transport s (sub_session (the (sv_subscribed s p c))))
          (mset_set {c. sv_subscribed s p c \<noteq> None})))"

definition spec_send :: "nat \<Rightarrow> u8 list \<Rightarrow> service \<Rightarrow> service" where
  "spec_send tid bytes s = s\<lparr>sv_sent := add_mset (tid, bytes) (sv_sent s)\<rparr>"

definition spec_connect :: "nat \<Rightarrow> nat \<Rightarrow> Connect \<Rightarrow> service \<Rightarrow> service" where
  "spec_connect tid new cn s =
     spec_send tid [0x20, 2, 0]
       (s\<lparr>sv_members := (sv_members s)(cn_client_id cn \<mapsto> new),
          sv_client := (sv_client s)(tid := cn_client_id cn),
          sv_transport := (sv_transport s)(new \<mapsto> tid)\<rparr>)"

definition spec_grant :: "string \<Rightarrow> nat \<Rightarrow> topic_tuple \<Rightarrow> service \<Rightarrow> service" where
  "spec_grant c sid t s =
     (if tp_qos t < 3
      then s\<lparr>sv_subscribed := (\<lambda>p d. if p = split (tp_topic t) \<and> d = c
               then Some \<lparr>sub_session = sid, sub_qos = tp_qos t\<rparr> else sv_subscribed s p d)\<rparr>
      else s)"

definition spec_subscribe :: "core \<Rightarrow> nat \<Rightarrow> Subscribe \<Rightarrow> service \<Rightarrow> service" where
  "spec_subscribe C tid sub s =
     (case sv_members s (sv_client s tid) of
        None \<Rightarrow> s
      | Some sid \<Rightarrow>
          spec_send tid (build_suback C (sub_packet_id sub)
              (map (\<lambda>t. if tp_qos t < 3 then tp_qos t else 0x80) (sub_payload sub)) [])
            (fold (spec_grant (sv_client s tid) sid) (sub_payload sub) s))"

definition spec_publish :: "Header \<Rightarrow> Publish \<Rightarrow> service \<Rightarrow> service" where
  "spec_publish h pub s =
     s\<lparr>sv_sent := sv_sent s +
         image_mset (\<lambda>t. (t, wire h (VPublish pub))) (receivers s (split (pub_topic pub)))\<rparr>"

text \<open>The answer to a packet on transport \<open>tid\<close>; \<open>new\<close> is the session a new client gets.\<close>

fun serve :: "core \<Rightarrow> nat \<Rightarrow> nat \<Rightarrow> Header \<Rightarrow> variant \<Rightarrow> service \<Rightarrow> service" where
  "serve C tid new h (VConnect cn) s = spec_connect tid new cn s"
| "serve C tid new h (VSubscribe sub) s = spec_subscribe C tid sub s"
| "serve C tid new h (VPublish pub) s = spec_publish h pub s"
| "serve C tid new h v s = s"

text \<open>The packets the promise is about.\<close>

fun promised :: "service \<Rightarrow> nat \<Rightarrow> Header \<Rightarrow> variant \<Rightarrow> bool" where
  "promised s tid h (VConnect cn) \<longleftrightarrow> cn_level cn = 4 \<and> sv_members s (cn_client_id cn) = None"
| "promised s tid h (VSubscribe sub) \<longleftrightarrow> sv_members s (sv_client s tid) \<noteq> None \<and>
     list_all (\<lambda>t. plain (split (tp_topic t))) (sub_payload sub)"
| "promised s tid h (VPublish pub) \<longleftrightarrow> hdr_qos h = 0 \<and> plain (split (pub_topic pub))"
| "promised s tid h v \<longleftrightarrow> False"

subsection \<open>The abstraction\<close>

definition reached :: "world \<Rightarrow> nat \<Rightarrow> nat option" where
  "reached w sid = (if live w sid then lock_transport w (cs_session (clients w sid)) else None)"

definition service_of :: "world \<Rightarrow> service" where
  "service_of w =
     \<lparr>sv_members = (\<lambda>c. sessionPresent c w), sv_client = getClientId w, sv_subscribed = look (m_topicTree w),
      sv_transport = reached w, sv_sent = mset (sent w)\<rparr>"

lemma reached_cong:
  assumes "m_sessionRegistry w' = m_sessionRegistry w" and "m_sessions w' = m_sessions w" and "held w' = held w"
    and "connected (clients w' sid) = connected (clients w sid)"
    and "cs_session (clients w' sid) = cs_session (clients w sid)"
  shows "reached w' sid = reached w sid"
  using lock_transport_cong [OF assms(2,3)] assms(1,4,5) by (simp add: reached_def live_def client_alive_def)

lemma mset_of_alist:
  "um_ok m \<Longrightarrow> mset (map snd m) = image_mset (\<lambda>c. the (map_of m c)) (mset_set {c. map_of m c \<noteq> None})"
proof -
  assume ok: "um_ok m"
  have "{c. map_of m c \<noteq> None} = set (map fst m)" by (auto simp: map_of_eq_None_iff simp del: not_None_eq)
  then have "mset_set {c. map_of m c \<noteq> None} = mset (map fst m)" using mset_set_set [OF ok] by simp
  moreover have "map (\<lambda>c. the (map_of m c)) (map fst m) = map snd m"
    using ok by (auto simp: map_of_is_SomeI)
  ultimately show ?thesis by (metis mset_map)
qed

lemma qos0_output_receivers:
  assumes "mset subs = image_mset (\<lambda>c. the (f c)) D"
  shows "mset (qos0_output C p w subs) = image_mset (\<lambda>t. (t, publish_bytes C p))
    (image_mset the (filter_mset (\<lambda>t. t \<noteq> None) (image_mset (\<lambda>c. reached w (sub_session (the (f c)))) D)))"
proof -
  have "mset (qos0_output C p w subs) = image_mset (\<lambda>t. (t, publish_bytes C p))
      (image_mset the (filter_mset (\<lambda>t. t \<noteq> None) (image_mset (\<lambda>s. reached w (sub_session s)) (mset subs))))"
    unfolding qos0_output_def by (induction subs) (auto simp: reached_def split: option.split)
  then show ?thesis by (simp add: assms multiset.map_comp comp_def)
qed

lemma match_plain:
  assumes "node_wf n" and "plain (split topic)"
  shows "mset (snd (tree_match topic n)) =
    image_mset (\<lambda>c. the (look n (split topic) c)) (mset_set {c. look n (split topic) c \<noteq> None})"
proof -
  have "reach topic n = [split topic]" using getNode_plain [OF assms(2)] by (simp add: reach_def)
  then have "snd (tree_match topic n) = map snd (subs_at n (split topic))" by (simp add: match_result)
  then show ?thesis
    using mset_of_alist [OF um_ok_subs_at [OF assms(1)], of "split topic"] by (simp only: look_def [abs_def])
qed

subsection \<open>The three packets\<close>

lemma service_received:
  "service_of (received tid rest w) = service_of w"
proof -
  have "getClientId (received tid rest w) = getClientId w"
    by (auto simp: fun_eq_iff getClientId_def received_def updateActivity_keeps)
  moreover have "reached (received tid rest w) sid = reached w sid" for sid by (rule reached_cong) simp_all
  ultimately show ?thesis by (simp add: service_of_def sessionPresent_def fun_eq_iff)
qed

lemma service_push: "service_of (pushDataToSend tid bytes w) = spec_send tid bytes (service_of w)"
proof -
  have "reached (pushDataToSend tid bytes w) sid = reached w sid" for sid
    by (rule reached_cong) (simp_all add: pushDataToSend_def)
  then show ?thesis
    by (simp add: service_of_def spec_send_def fun_eq_iff getClientId_def) (simp add: pushDataToSend_def)
qed

lemma service_publish:
  assumes "core_writes C" and "world_inv w" and "plain (split (pub_topic pub))"
    and "packet_ok h (VPublish pub)" and "hdr_qos h = 0" and "length (body_of 0 (VPublish pub)) < 128 ^ 3"
    and "p = \<lparr>header = h, pkt_len = n, pkt = VPublish pub\<rparr>"
    and "tree_match (pub_topic pub) (m_topicTree w) = (tree, subs)"
  shows "service_of (w\<lparr>m_topicTree := tree, sent := sent w @ qos0_output C p (w\<lparr>m_topicTree := tree\<rparr>) subs\<rparr>) =
    spec_publish h pub (service_of w)"
proof -
  let ?w = "w\<lparr>m_topicTree := tree\<rparr>"
  have b: "publish_bytes C p = wire h (VPublish pub)"
    using publish_bytes_wire [OF assms(1), of p pub] assms(4-7) by simp
  have wf: "node_wf (m_topicTree w)" using assms(2) by (simp add: world_inv_def tree_inv_def)
  have r: "reached ?w sid = reached w sid" for sid by (rule reached_cong) simp_all
  have "mset (qos0_output C p ?w subs) =
      image_mset (\<lambda>t. (t, wire h (VPublish pub))) (receivers (service_of w) (split (pub_topic pub)))"
    using qos0_output_receivers [OF match_plain [OF wf assms(3), unfolded assms(8) snd_conv], of C p ?w]
    by (simp add: receivers_def service_of_def b r)
  moreover have "look tree = look (m_topicTree w)"
    using look_grown [of "pub_topic pub" "m_topicTree w"] tree_ops(3) [of "pub_topic pub" "m_topicTree w"] assms(8)
    by simp
  moreover have "reached (?w\<lparr>sent := l\<rparr>) sid = reached w sid" for l sid by (rule reached_cong) simp_all
  moreover have "getClientId (?w\<lparr>sent := l\<rparr>) = getClientId w" for l by (simp add: fun_eq_iff getClientId_def)
  ultimately show ?thesis
    by (simp add: service_of_def spec_publish_def sessionPresent_def fun_eq_iff)
qed

lemma service_add_subscription:
  assumes "world_inv w" and "sessionPresent c w = Some sid" and "plain (split (tp_topic t))"
  shows "service_of (add_subscription c t w) = spec_grant c sid t (service_of w)"
proof -
  have "reach (tp_topic t) (m_topicTree w) = [split (tp_topic t)]"
    using getNode_plain [OF assms(3)] by (simp add: reach_def)
  then have "look (m_topicTree (add_subscription c t w)) =
      (\<lambda>p d. if tp_qos t < 3 \<and> p = split (tp_topic t) \<and> d = c
        then Some \<lparr>sub_session = sid, sub_qos = tp_qos t\<rparr> else look (m_topicTree w) p d)"
    using look_add_subscription [OF assms(1,2), of t] by (auto simp: fun_eq_iff)
  moreover have f: "m_sessions (add_subscription c t w) = m_sessions w" "held (add_subscription c t w) = held w"
    "sent (add_subscription c t w) = sent w" "transports (add_subscription c t w) = transports w"
    by (auto simp: add_subscription_def createSubscription_def split: option.split)
  moreover have "reached (add_subscription c t w) s = reached w s" for s
    by (rule reached_cong) (simp_all add: f add_subscription_sel)
  ultimately show ?thesis
    by (auto simp: service_of_def spec_grant_def sessionPresent_def add_subscription_sel getClientId_def fun_eq_iff)
qed

lemma service_fold_subscriptions:
  assumes "world_inv w" and "sessionPresent c w = Some sid" and "list_all (\<lambda>t. plain (split (tp_topic t))) ts"
  shows "service_of (fold (add_subscription c) ts w) = fold (spec_grant c sid) ts (service_of w)"
  using assms
proof (induction ts arbitrary: w)
  case (Cons t ts)
  have "sessionPresent c (add_subscription c t w) = Some sid"
    using Cons.prems(2) by (simp add: sessionPresent_def add_subscription_sel)
  with Cons show ?case
    using add_subscription_step(1) [OF Cons.prems(1)] service_add_subscription [OF Cons.prems(1,2)] by simp
qed simp

lemma service_admit:
  assumes "world_inv w" and "cn_level cn = 4" and "sessionPresent (cn_client_id cn) w = None"
    and "transport_alive w tid"
  shows "service_of (pushDataToSend tid [0x20, 2, 0] (upd_transport tid (\<lambda>t. t\<lparr>ms_client_id := cn_client_id cn\<rparr>)
      (admit cn tid (next_sid w) True (snd (make_client w))))) = spec_connect tid (next_sid w) cn (service_of w)"
proof -
  let ?v = "admit cn tid (next_sid w) True (snd (make_client w))"
  let ?u = "upd_transport tid (\<lambda>t. t\<lparr>ms_client_id := cn_client_id cn\<rparr>) ?v"
  note ad = admit_added [OF assms(2), of tid "next_sid w" "snd (make_client w)"]
  have old: "clients ?v sid = clients w sid" if "sid \<noteq> next_sid w" for sid
    using that assms(2)
    by (simp add: admit_def addToRegistry_def scheduleExpiry_def make_client_sel frame_simps Let_def)
  have same: "m_topicTree ?v = m_topicTree w" "held ?v = held w" "m_sessions ?v = m_sessions w"
    "transports ?v = transports w" "sent ?v = sent w"
    using ad(4) by (simp_all add: admit_def addToRegistry_def scheduleExpiry_def make_client_def frame_simps Let_def assms(2))
  have reg: "map_of (m_sessionRegistry ?v) = (map_of (m_sessionRegistry w))(cn_client_id cn \<mapsto> next_sid w)"
    using ad(2) by (simp add: make_client_def)
  have lt: "lock_transport ?u t = lock_transport w t" for t
    by (rule lock_transport_cong) (simp_all add: upd_transport_keeps same)
  have alive: "client_alive ?u sid \<longleftrightarrow> sid = next_sid w \<or> client_alive w sid" for sid
  proof -
    have "client_alive x sid \<longleftrightarrow> (\<exists>c. map_of (m_sessionRegistry x) c = Some sid)" if "um_ok (m_sessionRegistry x)" for x
      using that by (force simp: client_alive_def)
    moreover have "um_ok (m_sessionRegistry w)" using assms(1) by (simp add: world_inv_def registry_inv_def)
    moreover then have "um_ok (m_sessionRegistry ?v)"
      using assms(2) by (simp add: admit_def addToRegistry_def scheduleExpiry_def make_client_def frame_simps Let_def)
    moreover have "client_alive ?u sid = client_alive ?v sid" by (simp add: upd_transport_keeps)
    moreover have "(\<exists>c. map_of (m_sessionRegistry ?v) c = Some sid) \<longleftrightarrow>
        sid = next_sid w \<or> (\<exists>c. map_of (m_sessionRegistry w) c = Some sid)"
      unfolding reg using assms(3) [unfolded sessionPresent_def] by (metis fun_upd_apply option.distinct(1) option.inject)
    ultimately show ?thesis by blast
  qed
  have nextd: "\<not> client_alive w (next_sid w)" using client_alive_less [OF world_invD(1) [OF assms(1)]] by blast
  have here: "lock_transport w (Some tid) = Some tid" using assms(4) by (simp add: lock_transport_def)
  have "reached ?u = (reached w)(next_sid w \<mapsto> tid)"
  proof
    fix sid
    show "reached ?u sid = ((reached w)(next_sid w \<mapsto> tid)) sid"
      using ad(1) old [of sid] here
      by (cases "sid = next_sid w") (simp_all add: reached_def live_def alive lt)
  qed
  then show ?thesis
    unfolding service_push
    by (simp add: service_of_def spec_connect_def spec_send_def fun_eq_iff same upd_transport_keeps)
      (simp add: sessionPresent_def reg getClientId_def same)
qed

text \<open>What the three cases share: a complete packet at the front of a live transport's buffer.\<close>

definition packet_waits :: "core \<Rightarrow> nat \<Rightarrow> Header \<Rightarrow> variant \<Rightarrow> u8 list \<Rightarrow> world \<Rightarrow> bool" where
  "packet_waits C tid h v rest w \<longleftrightarrow>
     core_reads C \<and> core_writes C \<and> core_buffer C \<and> world_inv w \<and> transport_alive w tid \<and>
     header_wf h \<and> packet_ok h v \<and> length (body_of (hdr_qos h) v) < 128 ^ 3 \<and>
     ms_recvBuff (transports w tid) = wire h v @ rest"

lemma upd_transport_inv: "world_inv w \<Longrightarrow> world_inv (upd_transport tid (\<lambda>t. t\<lparr>ms_recvBuff := b\<rparr>) w)"
  using upd_transport_step [of w "\<lambda>t. t\<lparr>ms_recvBuff := b\<rparr>" tid] by (simp add: steps_def)

lemma serve_connect:
  assumes "packet_waits C tid h (VConnect cn) rest w" and "promised (service_of w) tid h (VConnect cn)"
  shows "\<exists>w'. parseData C tid w = Inr w' \<and> ms_recvBuff (transports w' tid) = rest \<and>
    service_of w' = serve C tid (next_sid w) h (VConnect cn) (service_of w)"
proof -
  let ?w = "upd_transport tid (\<lambda>t. t\<lparr>ms_recvBuff := rest\<rparr>) w"
  have a: "core_reads C" "core_buffer C" "header_wf h" "packet_ok h (VConnect cn)"
    "length (body_of (hdr_qos h) (VConnect cn)) < 128 ^ 3"
    "ms_recvBuff (transports w tid) = wire h (VConnect cn) @ rest" "world_inv w" "transport_alive w tid"
    using assms(1) by (simp_all add: packet_waits_def)
  have cn: "cn_level cn = 4" "sessionPresent (cn_client_id cn) w = None"
    using assms(2) by (simp_all add: service_of_def)
  have "connectHandler C \<lparr>header = h, pkt_len = length (wire h (VConnect cn)), pkt = VConnect cn\<rparr> [] ?w tid =
      Inr (MQTT_CONNECTION_ACCEPTED, [0x20, 2, 0], admit cn tid (next_sid ?w) True (snd (make_client ?w)))"
    by (rule connect_fresh_eq) (simp_all add: cn)
  note r = parse_connect_wire [OF a(1-6) this]
  have "reached ?w sid = reached w sid" for sid by (rule reached_cong) (simp_all add: upd_transport_keeps)
  then have "service_of ?w = service_of w" by (simp add: service_of_def fun_eq_iff upd_transport_keeps)
  moreover have "transport_alive ?w tid" using a(8) by (simp add: transport_alive_def upd_transport_keeps)
  ultimately show ?thesis
    using r service_admit [OF upd_transport_inv [OF a(7), of tid rest] cn(1), of tid] cn(2)
    by (simp add: admit_transports make_client_def)
qed

lemma serve_subscribe:
  assumes "packet_waits C tid h (VSubscribe sub) rest w" and "promised (service_of w) tid h (VSubscribe sub)"
  shows "\<exists>w'. parseData C tid w = Inr w' \<and> ms_recvBuff (transports w' tid) = rest \<and>
    service_of w' = serve C tid (next_sid w) h (VSubscribe sub) (service_of w)"
proof -
  have a: "core_reads C" "core_buffer C" "header_wf h" "packet_ok h (VSubscribe sub)"
    "length (body_of (hdr_qos h) (VSubscribe sub)) < 128 ^ 3"
    "ms_recvBuff (transports w tid) = wire h (VSubscribe sub) @ rest" "world_inv w"
    using assms(1) by (simp_all add: packet_waits_def)
  obtain sid where sid: "sessionPresent (getClientId w tid) w = Some sid"
    and pl: "list_all (\<lambda>t. plain (split (tp_topic t))) (sub_payload sub)"
    using assms(2) by (auto simp: service_of_def)
  have "world_inv (received tid rest w)"
    using world_inv_updateActivity [OF upd_transport_inv [OF a(7)]] by (simp add: received_def)
  moreover have "sessionPresent (getClientId w tid) (received tid rest w) = Some sid"
    using sid by (simp add: sessionPresent_def)
  ultimately show ?thesis
    using parse_subscribe_wire [OF a(1-6)] service_fold_subscriptions [OF _ _ pl] sid
    by (simp add: service_push spec_subscribe_def service_received granted_def [abs_def]
        fold_add_subscription_frame service_of_def [of w])
qed

lemma serve_publish:
  assumes "packet_waits C tid h (VPublish pub) rest w" and "promised (service_of w) tid h (VPublish pub)"
  shows "\<exists>w'. parseData C tid w = Inr w' \<and> ms_recvBuff (transports w' tid) = rest \<and>
    service_of w' = serve C tid (next_sid w) h (VPublish pub) (service_of w)"
proof -
  have q: "hdr_qos h = 0" "plain (split (pub_topic pub))" using assms(2) by simp_all
  have a: "core_reads C" "core_buffer C" "header_wf h" "packet_ok h (VPublish pub)" "core_writes C"
    "ms_recvBuff (transports w tid) = wire h (VPublish pub) @ rest" "world_inv w"
    "length (body_of 0 (VPublish pub)) < 128 ^ 3"
    using assms(1) q(1) by (simp_all add: packet_waits_def)
  have inv: "world_inv (received tid rest w)"
    using world_inv_updateActivity [OF upd_transport_inv [OF a(7)]] by (simp add: received_def)
  obtain tree subs where m: "tree_match (pub_topic pub) (m_topicTree w) = (tree, subs)" by fastforce
  then have "tree_match (pub_topic pub) (m_topicTree (received tid rest w)) = (tree, subs)" by simp
  from parse_publish_wire [OF a(1-4) q(1) a(8,6) refl m] service_publish [OF a(5) inv q(2) a(4) q(1) a(8) refl this]
  show ?thesis by (simp add: service_received)
qed

subsection \<open>Properties\<close>

text \<open>C4: The broker implements a publish/subscribe service. When a complete CONNECT of a new client, a
  SUBSCRIBE of a registered client to topics without wildcards, or a QoS 0 PUBLISH to such a topic stands
  at the front of a live transport's receive buffer, the parse task consumes exactly that packet, ends
  without a fault, and changes the members, the subscriptions, the reachable sessions and what has been
  sent as the specification \<open>serve\<close> says: abstracting after the task is serving after abstracting.\<close>

theorem broker_refines_service:
  assumes "core_reads C" and "core_writes C" and "core_buffer C" and "world_inv w" and "transport_alive w tid"
    and "header_wf h" and "packet_ok h v" and "length (body_of (hdr_qos h) v) < 128 ^ 3"
    and "ms_recvBuff (transports w tid) = wire h v @ rest"
    and "promised (service_of w) tid h v"
  shows "\<exists>w'. parseData C tid w = Inr w' \<and> world_inv w' \<and> ms_recvBuff (transports w' tid) = rest \<and>
    service_of w' = serve C tid (next_sid w) h v (service_of w)"
proof -
  have w: "packet_waits C tid h v rest w" using assms(1-9) by (simp add: packet_waits_def)
  have "world_inv w'" if "parseData C tid w = Inr w'" for w'
    using parseData_outcome [OF assms(1,4) transport_alive_less [OF assms(4,5)]] that steps_inv by auto
  moreover have "\<exists>w'. parseData C tid w = Inr w' \<and> ms_recvBuff (transports w' tid) = rest \<and>
      service_of w' = serve C tid (next_sid w) h v (service_of w)"
  proof (cases v)
    case (VConnect cn)
    then show ?thesis using serve_connect w assms(10) by blast
  next
    case (VPublish pub)
    then show ?thesis using serve_publish w assms(10) by blast
  next
    case (VSubscribe sub)
    then show ?thesis using serve_subscribe w assms(10) by blast
  qed (use assms(10) in simp_all)
  ultimately show ?thesis by blast
qed

theorem broker_refines_service_witness:
  "\<exists>w'. parseData ref_core 1 (upd_transport 1 (\<lambda>t. t\<lparr>ms_recvBuff := [0x30, 5, 0, 2, 0x2F, 0x61, 7]\<rparr>)
      (sample_world True 1000)) = Inr w' \<and>
    service_of w' = spec_publish qos0_header sample_pub
      (service_of (upd_transport 1 (\<lambda>t. t\<lparr>ms_recvBuff := [0x30, 5, 0, 2, 0x2F, 0x61, 7]\<rparr>) (sample_world True 1000)))"
proof -
  let ?w = "upd_transport 1 (\<lambda>t. t\<lparr>ms_recvBuff := [0x30, 5, 0, 2, 0x2F, 0x61, 7]\<rparr>) (sample_world True 1000)"
  have "world_inv ?w" by (rule steps_inv [OF upd_transport_step]) (simp_all add: sample_world_inv)
  moreover have "transport_alive ?w 1" by (simp add: transport_alive_def upd_transport_keeps)
  moreover have "promised (service_of ?w) 1 qos0_header (VPublish sample_pub)"
    by (simp add: sample_pub_wire)
  ultimately show ?thesis
    using broker_refines_service [OF ref_core_ok(1,2,3) _ _ sample_pub_wire(2,3), of ?w 1 "[]"] sample_pub_wire(1,4,5)
    by auto
qed

end
