(* ===== verification/Isolation.thy ===== *)
theory Isolation
  imports Transport
begin

text \<open>
  Whom a parse task can affect. The bytes of one transport act for the client the transport belongs to
  and, in a CONNECT, for the client id the packet names. The theory states what such a task leaves alone:
  the registrations, subscriptions and sessions of all other clients, their transports and connections,
  and the entries of the two timer heaps. The contract of a handler is extended by it, and every handler
  of the table is shown to keep it.
\<close>

subsection \<open>What is left alone\<close>

text \<open>
  From \<open>w\<close> to \<open>w'\<close> only the clients of \<open>S\<close> are signed in or out, renamed or resubscribed, and only the
  connections of \<open>F\<close> are closed. The other sessions can only receive.
\<close>

definition confined :: "string set \<Rightarrow> int set \<Rightarrow> nat \<Rightarrow> world \<Rightarrow> world \<Rightarrow> bool" where
  "confined S F tid w w' \<longleftrightarrow>
     next_sid w \<le> next_sid w' \<and> now_ms w' = now_ms w \<and>
     (\<forall>c. c \<notin> S \<longrightarrow> sessionPresent c w' = sessionPresent c w) \<and>
     (\<forall>path c. c \<notin> S \<longrightarrow> look (m_topicTree w') path c = look (m_topicTree w) path c) \<and>
     (\<forall>sid < next_sid w. client_id (clients w sid) \<notin> S \<longrightarrow> client_grows (clients w sid) (clients w' sid)) \<and>
     (\<forall>fd. fd \<notin> F \<longrightarrow> map_of (m_sessions w') fd = map_of (m_sessions w) fd) \<and>
     (\<forall>t. ms_fd (transports w' t) = ms_fd (transports w t)) \<and>
     (\<forall>t. t \<noteq> tid \<longrightarrow> transports w' t = transports w t) \<and>
     prefix (m_expiryHeap w) (m_expiryHeap w') \<and> prefix (m_retransmitHeap w) (m_retransmitHeap w')"

lemma confined_refl [simp]: "confined S F tid w w"
  by (simp add: confined_def)

lemma confined_trans:
  assumes "confined S F tid a b" and "confined S F tid b c" shows "confined S F tid a c"
proof -
  have "client_grows (clients a sid) (clients c sid)"
    if "sid < next_sid a" "client_id (clients a sid) \<notin> S" for sid
  proof -
    have g: "client_grows (clients a sid) (clients b sid)" "sid < next_sid b"
      using assms(1) that by (simp_all add: confined_def)
    then have "client_id (clients b sid) \<notin> S" using that(2) by (simp add: client_grows_def)
    then have "client_grows (clients b sid) (clients c sid)" using assms(2) g(2) by (simp add: confined_def)
    with g(1) show ?thesis by (rule client_grows_trans)
  qed
  moreover have "prefix (m_expiryHeap a) (m_expiryHeap c)" "prefix (m_retransmitHeap a) (m_retransmitHeap c)"
    using assms prefix_order.trans unfolding confined_def by blast+
  ultimately show ?thesis using assms by (simp add: confined_def)
qed

text \<open>The operations, each as a step after what has already been done.\<close>

lemma confined_delivers:
  assumes "confined S F tid w v" and "delivers v v'" shows "confined S F tid w v'"
proof (rule confined_trans [OF assms(1)])
  show "confined S F tid v v'"
    using assms(2) by (auto simp: confined_def delivers_def keeps_def sessionPresent_def)
qed

lemma confined_push: "confined S F tid w v \<Longrightarrow> confined S F tid w (pushDataToSend t d v)"
  by (simp add: confined_def pushDataToSend_def sessionPresent_def)

lemma confined_sent: "confined S F tid w v \<Longrightarrow> confined S F tid w (v\<lparr>sent := out\<rparr>)"
  by (simp add: confined_def sessionPresent_def)

lemma confined_upd:
  assumes "confined S F tid w v" and "next_sid w \<le> sid \<or> client_id (clients v sid) \<in> S"
  shows "confined S F tid w (upd_client sid f v)"
proof -
  have "s \<noteq> sid" if "s < next_sid w" "client_id (clients w s) \<notin> S" for s
    using assms that by (auto simp: confined_def client_grows_def)
  with assms(1) show ?thesis by (auto simp: confined_def sessionPresent_def frame_simps)
qed

lemma confined_forceDisconnect:
  assumes "confined S F tid w v" and "ms_fd (transports v t) \<in> F"
  shows "confined S F tid w (forceDisconnect t v)"
  using assms by (auto simp: confined_def forceDisconnect_def removeSession_def sessionPresent_def map_of_um_erase)

lemma confined_removeFromRegistry:
  "confined S F tid w v \<Longrightarrow> c \<in> S \<Longrightarrow> confined S F tid w (removeFromRegistry c v)"
  by (auto simp: confined_def removeFromRegistry_def sessionPresent_def map_of_um_erase)

lemma confined_make_client:
  assumes "confined S F tid w v" shows "confined S F tid w (snd (make_client v))"
proof -
  have "next_sid w \<le> next_sid v" using assms by (simp add: confined_def)
  with assms show ?thesis by (auto simp: confined_def make_client_def sessionPresent_def)
qed

lemma confined_addToRegistry:
  "confined S F tid w v \<Longrightarrow> client_id (clients v sid) \<in> S \<Longrightarrow> confined S F tid w (addToRegistry sid v)"
  by (auto simp: confined_def addToRegistry_def sessionPresent_def)

lemma confined_scheduleExpiry:
  assumes "confined S F tid w v" and "next_sid w \<le> sid \<or> client_id (clients v sid) \<in> S"
  shows "confined S F tid w (scheduleExpiry sid v)"
proof -
  have "confined S F tid w (u\<lparr>m_expiryHeap := pq_push e (m_expiryHeap u)\<rparr>)" if "confined S F tid w u" for u e
    using that by (simp add: confined_def pq_push_def sessionPresent_def)
  with confined_upd [OF assms] assms(1) show ?thesis by (simp add: scheduleExpiry_def Let_def)
qed

lemma confined_updateActivity:
  assumes "confined S F tid w v" and "world_inv v" and "c \<in> S"
  shows "confined S F tid w (updateActivity c v)"
  using assms confined_upd [OF assms(1)] sessionPresent_less [OF assms(2)]
  by (auto simp: updateActivity_def split: option.split)

lemma confined_add_subscription:
  assumes "confined S F tid w v" and "world_inv v" and "c \<in> S"
  shows "confined S F tid w (add_subscription c t v)"
proof -
  have wf: "node_wf (m_topicTree v)" using assms(2) by (simp add: world_inv_def tree_inv_def)
  have "client_id (clients v sid) = c" if "sessionPresent c v = Some sid" for sid
    using sessionPresent_less [OF assms(2) that] by blast
  then show ?thesis
    using assms(1,3)
    by (auto simp: add_subscription_def createSubscription_def confined_def look_subscribe [OF wf]
        sessionPresent_def split: option.split)
qed

lemma confined_upd_transport:
  "confined S F tid w v \<Longrightarrow> (\<And>t. ms_fd (f t) = ms_fd t) \<Longrightarrow> confined S F tid w (upd_transport tid f v)"
  by (simp add: confined_def upd_transport_def sessionPresent_def)

lemma confined_route:
  assumes "confined S F tid w v" and "world_inv v" and "pub_ok p"
    and "routePacket C p None v = Inr (p', v')"
  shows "confined S F tid w v'"
  using routePacket_ok [OF assms(2,3), of C None] confined_delivers [OF assms(1)] assms(4) by auto

subsection \<open>The contract of a handler, with confinement\<close>

text \<open>The client ids a packet acts for, and the sockets that it may close.\<close>

definition acting :: "Packet \<Rightarrow> nat \<Rightarrow> world \<Rightarrow> string list" where
  "acting p tid w =
     getClientId w tid # (case pkt p of VConnect cn \<Rightarrow> [cn_client_id cn] | _ \<Rightarrow> [])"

definition attached_fds :: "world \<Rightarrow> string \<Rightarrow> int list" where
  "attached_fds w c =
     (case sessionPresent c w of
        None \<Rightarrow> []
      | Some sid \<Rightarrow> (case cs_session (clients w sid) of None \<Rightarrow> [] | Some t \<Rightarrow> [ms_fd (transports w t)]))"

definition closable :: "nat \<Rightarrow> string list \<Rightarrow> world \<Rightarrow> int list" where
  "closable tid cs w = ms_fd (transports w tid) # concat (map (attached_fds w) cs)"

locale isolated_handler = packet_handler +
  assumes isolated: "arrives type p tid w \<Longrightarrow> handle p buff w tid = Inr (rc, buff', w') \<Longrightarrow>
    set (acting p tid w) \<subseteq> S \<Longrightarrow> set (closable tid (acting p tid w) w) \<subseteq> F \<Longrightarrow> confined S F tid w w'"

lemma acting_own: "set (acting p tid w) \<subseteq> S \<Longrightarrow> getClientId w tid \<in> S"
  by (simp add: acting_def)

text \<open>What the handlers of a registered client begin with, and a write to its session.\<close>

lemma confined_active:
  assumes "arrives t p tid w" and "set (acting p tid w) \<subseteq> S"
  shows "confined S F tid w (updateActivity (getClientId w tid) w)"
  using assms(1) acting_own [OF assms(2)]
  by (intro confined_updateActivity) (simp_all add: arrives_def)

lemma confined_own:
  assumes "arrives t p tid w" and "set (acting p tid w) \<subseteq> S"
    and "sessionPresent (getClientId w tid) w = Some sid"
  shows "confined S F tid w (upd_client sid f (updateActivity (getClientId w tid) w))"
proof (rule confined_upd [OF confined_active [OF assms(1,2)]])
  have "sessionPresent (getClientId w tid) (updateActivity (getClientId w tid) w) = Some sid"
    using assms(3) by simp
  from sessionPresent_less [OF arrives_active(1) [OF assms(1)] this] acting_own [OF assms(2)]
  show "next_sid w \<le> sid \<or> client_id (clients (updateActivity (getClientId w tid) w) sid) \<in> S" by simp
qed

interpretation puback_isolated: isolated_handler PUBACK "pubackHandler C" for C
proof unfold_locales
  fix p tid w buff rc buff' w' S F
  assume "arrives PUBACK p tid w" "pubackHandler C p buff w tid = Inr (rc, buff', w')"
    "set (acting p tid w) \<subseteq> S" "set (closable tid (acting p tid w) w) \<subseteq> F"
  then show "confined S F tid w w'"
    using confined_own [of PUBACK p tid w S]
    by (auto simp: pubackHandler_def Let_def and_then_eq_Inr deref_def case_prod_unfold
        split: variant.splits)
qed

interpretation pubcomp_isolated: isolated_handler PUBCOMP "pubcompHandler C" for C
proof unfold_locales
  fix p tid w buff rc buff' w' S F
  assume "arrives PUBCOMP p tid w" "pubcompHandler C p buff w tid = Inr (rc, buff', w')"
    "set (acting p tid w) \<subseteq> S" "set (closable tid (acting p tid w) w) \<subseteq> F"
  then show "confined S F tid w w'"
    using confined_own [of PUBCOMP p tid w S]
    by (auto simp: pubcompHandler_def Let_def and_then_eq_Inr deref_def case_prod_unfold
        split: variant.splits)
qed

interpretation pubrec_isolated: isolated_handler PUBREC "pubrecHandler C" for C
proof unfold_locales
  fix p tid w buff rc buff' w' S F
  assume "arrives PUBREC p tid w" "pubrecHandler C p buff w tid = Inr (rc, buff', w')"
    "set (acting p tid w) \<subseteq> S" "set (closable tid (acting p tid w) w) \<subseteq> F"
  then show "confined S F tid w w'"
    using confined_push [OF confined_own [of PUBREC p tid w S]]
    by (auto simp: pubrecHandler_def Let_def and_then_eq_Inr deref_def case_prod_unfold
        split: variant.splits)
qed

interpretation subscribe_isolated: isolated_handler SUBSCRIBE "subscribeHandler C" for C
proof unfold_locales
  fix p tid w buff rc buff' w' S F
  assume a: "arrives SUBSCRIBE p tid w" "subscribeHandler C p buff w tid = Inr (rc, buff', w')"
    "set (acting p tid w) \<subseteq> S" "set (closable tid (acting p tid w) w) \<subseteq> F"
  obtain s where v: "pkt p = VSubscribe s"
    using a(1) by (auto simp: arrives_def split: variant.splits)
  let ?c = "getClientId w tid"
  have fold: "confined S F tid w (fold (add_subscription ?c) ts v)"
    if "confined S F tid w v" "world_inv v" for ts v
    using that
  proof (induction ts arbitrary: v)
    case (Cons t ts)
    show ?case
      using Cons.IH [OF confined_add_subscription [OF Cons.prems acting_own [OF a(3)]]
          add_subscription_step(1) [OF Cons.prems(2)]] by simp
  qed simp
  from confined_push [OF fold [OF confined_active [OF a(1,3)] arrives_active(1) [OF a(1)]]] a(2)
  show "confined S F tid w w'" by (auto simp: subscribeHandler_eq [OF v] Let_def)
qed

interpretation unsubscribe_isolated: isolated_handler UNSUBSCRIBE "unsubscribeHandler C" for C
  by unfold_locales (auto simp: arrives_def unsubscribeHandler_def split: variant.splits)

interpretation pingreq_isolated: isolated_handler PINGREQ "pingreqHandler C" for C
  by unfold_locales (auto simp: pingreqHandler_def Let_def intro!: confined_push confined_active)

interpretation disconnect_isolated: isolated_handler DISCONNECT "disconnectHandler C" for C
  by unfold_locales (auto simp: disconnectHandler_def)

interpretation publish_isolated: isolated_handler PUBLISH "publishHandler C" for C
proof unfold_locales
  fix p tid w buff rc buff' w' S F
  assume a: "arrives PUBLISH p tid w" and r: "publishHandler C p buff w tid = Inr (rc, buff', w')"
    and s: "set (acting p tid w) \<subseteq> S" "set (closable tid (acting p tid w) w) \<subseteq> F"
  obtain pub where v: "pkt p = VPublish pub" using a by (auto simp: arrives_def split: variant.splits)
  have pub: "pub_ok p" using a v by (simp add: arrives_def pub_ok_def)
  note u = confined_active [OF a s(1), where F = F]
  note route = confined_route [OF u arrives_active(1) [OF a] pub]
  show "confined S F tid w w'"
    using r v u route confined_push [OF route] confined_push [OF u]
      confined_push [OF confined_own [OF a s(1), where F = F]]
    by (auto simp: publishHandler_def Let_def and_then_eq_Inr deref_def split: if_splits)
qed

interpretation pubrel_isolated: isolated_handler PUBREL "pubrelHandler C" for C
proof unfold_locales
  fix p tid w buff rc buff' w' S F
  assume a: "arrives PUBREL p tid w" and r: "pubrelHandler C p buff w tid = Inr (rc, buff', w')"
    and s: "set (acting p tid w) \<subseteq> S" "set (closable tid (acting p tid w) w) \<subseteq> F"
  obtain ack where v: "pkt p = VAck ack" using a by (auto simp: arrives_def split: variant.splits)
  let ?w = "updateActivity (getClientId w tid) w" and ?k = "ack_packet_id ack"
  obtain sid where sid: "sessionPresent (getClientId w tid) w = Some sid"
    using r v by (auto simp: pubrelHandler_def Let_def and_then_eq_Inr deref_def)
  let ?c = "removeFromInflight ?k (clients ?w sid)"
  let ?v = "upd_client sid (\<lambda>_. snd ?c) ?w"
  have c: "confined S F tid w ?v" by (rule confined_own [OF a s(1) sid])
  have i: "world_inv ?v"
    by (rule conjunct1 [OF upd_client_step [OF arrives_active(1) [OF a]]])
      (simp_all add: remove_keeps session_wf_remove world_wf [OF arrives_active(1) [OF a]])
  have p: "pub_ok (fst ?c)" if "hdr_type (header (fst ?c)) = PUBLISH"
    using inflight_pub_ok [OF world_wf [OF arrives_active(1) [OF a]] refl that] .
  show "confined S F tid w w'"
    using r v sid confined_push [OF c] confined_push [OF confined_route [OF c i p]]
    by (auto simp: pubrelHandler_def Let_def and_then_eq_Inr deref_def case_prod_unfold
        split: if_split_asm)
qed

subsection \<open>CONNECT\<close>

lemma confined_disconnect_old:
  assumes "world_inv w" and "sessionPresent c w = Some sid" and "c \<in> S" and "set (attached_fds w c) \<subseteq> F"
  shows "confined S F tid w (disconnect_old sid w)"
proof -
  have id: "client_id (clients w sid) = c" using sessionPresent_less [OF assms(1,2)] by blast
  have u: "confined S F tid w (upd_client sid f v) \<and> client_id (clients v sid) = c"
    if "confined S F tid w v" "clients v = clients w" for f v
    using confined_upd [OF that(1), of sid f] that(2) assms(3) id by simp
  have d: "confined S F tid w (forceDisconnect t w)" if "cs_session (clients w sid) = Some t" for t
    using assms(2,4) that by (intro confined_forceDisconnect) (simp_all add: attached_fds_def)
  have k: "clients (forceDisconnect t w) = clients w" for t
    by (simp add: forceDisconnect_def removeSession_def)
  show ?thesis
    using u [OF confined_refl refl] u [OF d k]
    by (auto simp: disconnect_old_def lock_transport_def split: option.splits)
qed

text \<open>The session a CONNECT works on is new, or a session of the client it names.\<close>

lemma confined_select:
  assumes "world_inv w" and "cn_client_id cn \<in> S" and "set (attached_fds w (cn_client_id cn)) \<subseteq> F"
    and "select_session C cn w = Inr (cs, sp, add, v)"
  shows "confined S F tid w v \<and> (next_sid w \<le> cs \<or> client_id (clients v cs) \<in> S)"
proof -
  obtain cs' sp' add' v' where "select_session C cn w = Inr (cs', sp', add', v')"
    "picked w (cn_client_id cn) cs' add' v'"
    using select_session_ok [OF assms(1)] by blast
  then have p: "next_sid w \<le> cs \<or> client_id (clients v cs) \<in> S"
    using assms(2,4) by (auto simp: picked_def split: if_splits)
  have "confined S F tid w v"
  proof (cases "sessionPresent (cn_client_id cn) w")
    case None
    then show ?thesis
      using assms(4) confined_make_client [OF confined_refl]
      by (auto simp: select_session_fresh)
  next
    case (Some sid)
    note d = confined_disconnect_old [OF assms(1) Some assms(2,3), of tid]
    show ?thesis
    proof (cases "cf_cleansession (cn_cf cn)")
      case True
      then show ?thesis
        using select_session_clean [OF Some] assms(4)
          confined_make_client [OF confined_removeFromRegistry [OF d assms(2)]]
        by (auto simp: Let_def)
    next
      case False
      obtain out where "select_session C cn w =
          Inr (sid, 1, False, (disconnect_old sid w)\<lparr>sent := sent w @ out\<rparr>)"
        using select_session_resume [OF assms(1) Some False] by blast
      then show ?thesis using assms(4) confined_sent [OF d] by auto
    qed
  qed
  with p show ?thesis by blast
qed

lemma confined_admit:
  assumes "confined S F tid w v" and "next_sid w \<le> cs \<or> client_id (clients v cs) \<in> S"
    and "cn_client_id cn \<in> S"
  shows "confined S F tid w (admit cn t cs add v)"
proof -
  let ?u = "upd_client cs (connect_fields cn) v"
  have u: "confined S F tid w ?u" by (rule confined_upd [OF assms(1,2)])
  have id: "client_id (clients ?u cs) \<in> S" using assms(3) by (simp add: connect_fields_def frame_simps)
  have k: "confined S F tid w (upd_client cs f ?u)" for f using confined_upd [OF u] id by blast
  let ?x = "upd_client cs (\<lambda>c. c\<lparr>connected := True, cs_session := Some t, last_activity := now_ms ?u\<rparr>) ?u"
  have x: "client_id (clients ?x cs) \<in> S" using id by (simp add: frame_simps)
  have "confined S F tid w (scheduleExpiry cs (addToRegistry cs ?x))"
    using x by (intro confined_scheduleExpiry confined_addToRegistry [OF k x]) (simp add: addToRegistry_def)
  with u k show ?thesis by (simp add: admit_def Let_def)
qed

interpretation connect_isolated: isolated_handler CONNECT "connectHandler C" for C
proof unfold_locales
  fix p tid w buff rc buff' w' S F
  assume a: "arrives CONNECT p tid w" and r: "connectHandler C p buff w tid = Inr (rc, buff', w')"
    and s: "set (acting p tid w) \<subseteq> S" "set (closable tid (acting p tid w) w) \<subseteq> F"
  obtain cn where v: "pkt p = VConnect cn" using a by (auto simp: arrives_def split: variant.splits)
  have c: "cn_client_id cn \<in> S" "set (attached_fds w (cn_client_id cn)) \<subseteq> F" "world_inv w"
    using s a by (simp_all add: acting_def closable_def v arrives_def)
  obtain cs sp add u where u: "select_session C cn w = Inr (cs, sp, add, u)"
    "w' = admit cn tid cs add u"
    using r by (auto simp: connectHandler_eq [OF v] and_then_eq_Inr)
  from confined_select [OF c(3,1,2) u(1), of tid] confined_admit [OF _ _ c(1)] u(2)
  show "confined S F tid w w'" by blast
qed

subsection \<open>Every entry of the table\<close>

lemma handlers_isolated:
  assumes "handlers C ! i = Some h" and "i < length (handlers C)"
  shows "isolated_handler (pt_of (of_nat i)) h"
proof -
  have "i \<in> {0, 1, 2, 3, 4, 5, 6, 7, 8, 9, 10, 11, 12, 13, 14}"
    using assms(2) unfolding insert_iff empty_iff by (simp add: handlers_def) arith
  with assms(1) show ?thesis
    by (auto simp: handlers_def pt_of_def connect_isolated.isolated_handler_axioms
        publish_isolated.isolated_handler_axioms puback_isolated.isolated_handler_axioms
        pubrec_isolated.isolated_handler_axioms pubrel_isolated.isolated_handler_axioms
        pubcomp_isolated.isolated_handler_axioms subscribe_isolated.isolated_handler_axioms
        unsubscribe_isolated.isolated_handler_axioms pingreq_isolated.isolated_handler_axioms
        disconnect_isolated.isolated_handler_axioms)
qed

subsection \<open>A parse task\<close>

definition acts_for :: "core \<Rightarrow> nat \<Rightarrow> world \<Rightarrow> string list" where
  "acts_for C tid w =
     (case unpack C Packet_default (buf_data C (ms_recvBuff (transports w tid))) 0
         (buf_available C (ms_recvBuff (transports w tid))) of
        Inr (rc, p, pos) \<Rightarrow> if rc = MQTT_OK then acting p tid w else [getClientId w tid]
      | Inl e \<Rightarrow> [getClientId w tid])"

lemma confined_call_handler:
  assumes "core_reads C" and "unpack C p mem 0 avail = Inr (MQTT_OK, p', pos)"
    and "world_inv w" and "tid < next_tid w" and "call_handler C p' w tid = Inr (rc, b, w')"
    and "set (acting p' tid w) \<subseteq> S" and "set (closable tid (acting p' tid w) w) \<subseteq> F"
  shows "confined S F tid w w'"
proof -
  let ?i = "unat (pt_code (hdr_type (header p')))"
  note t = unpacked_type [OF assms(1,2)] and a = unpacked_arrives [OF assms(1-4)]
  show ?thesis
  proof (cases "handlers C ! ?i")
    case None
    then show ?thesis using t(2) assms(5) by (simp add: call_handler_def not_le)
  next
    case (Some h)
    have h: "isolated_handler (hdr_type (header p')) h" using handlers_isolated [OF Some t(2)] t(1) by simp
    obtain rc' where "h p' [] w tid = Inr (rc', b, w')"
      using assms(5) t(2) Some by (auto simp: call_handler_def not_le and_then_eq_Inr)
    from isolated_handler.isolated [OF h a this assms(6,7)] show ?thesis .
  qed
qed

lemma confined_parse:
  assumes C: "core_reads C" and inv: "world_inv w" and tid: "tid < next_tid w"
    and r: "parseData C tid w = Inr w'"
    and S: "S = set (acts_for C tid w)" and F: "F = set (closable tid (acts_for C tid w) w)"
  shows "confined S F tid w w'"
proof -
  let ?b = "ms_recvBuff (transports w tid)"
  let ?u = "unpack C Packet_default (buf_data C ?b) 0 (buf_available C ?b)"
  obtain rc p pos where u: "?u = Inr (rc, p, pos)"
    using r by (cases ?u) (auto simp: parseData_def)
  have own: "getClientId w tid \<in> S" "ms_fd (transports w tid) \<in> F"
    unfolding S F by (simp_all add: acts_for_def acting_def closable_def split: sum.split)
  have close: "confined S F tid w (forceDisconnect tid v)" if "confined S F tid w v" for v
    using that own(2) by (intro confined_forceDisconnect) (simp_all add: confined_def)
  show ?thesis
  proof (cases "rc = MQTT_OK")
    case True
    let ?w = "upd_transport tid (\<lambda>t. t\<lparr>ms_recvBuff := buf_erase C ?b (pkt_len p)\<rparr>) w"
    have w: "confined S F tid w ?w" "world_inv ?w" "tid < next_tid ?w"
      using upd_transport_step [OF inv] tid confined_upd_transport [OF confined_refl]
      by (auto simp: steps_def)
    have id: "getClientId ?w tid = getClientId w tid" by (simp add: getClientId_def)
    have act: "acting p tid ?w = acts_for C tid w" by (simp add: acts_for_def u True acting_def id)
    have fds: "closable tid cs ?w = closable tid cs w" for cs
      by (simp add: closable_def attached_fds_def)
        (intro arg_cong [where f = concat] map_cong refl, simp add: attached_fds_def split: option.split)
    obtain rc' b v where v: "call_handler C p ?w tid = Inr (rc', b, v)"
      using r u True by (auto simp: parseData_def Let_def and_then_eq_Inr)
    have "confined S F tid ?w v"
      by (rule confined_call_handler [OF C u [unfolded True] w(2,3) v]) (simp_all add: act fds S F)
    then have c: "confined S F tid w v" by (rule confined_trans [OF w(1)])
    have "confined S F tid w (pushDataToSend tid b (upd_transport tid (\<lambda>t. t\<lparr>ms_client_id := i\<rparr>) v))" for i
      by (intro confined_push confined_upd_transport [OF c]) simp
    then show ?thesis
      using r u True v c close [OF confined_push [OF c]]
      by (auto simp: parseData_def Let_def and_then_eq_Inr split: if_split_asm)
  next
    case False
    have c: "confined S F tid w (removeFromRegistry (getClientId w tid) w)"
      by (rule confined_removeFromRegistry [OF confined_refl own(1)])
    then show ?thesis
      using r u False close [OF c] close [OF confined_refl]
      by (auto simp: parseData_def Let_def and_then_eq_Inr split: if_split_asm)
  qed
qed

subsection \<open>Properties\<close>

text \<open>C9: Clients are isolated from each other. Whatever bytes a transport delivers, a parse task that does
  not act for client \<open>c\<close>, because the transport is not \<open>c\<close>'s and the packet is not a CONNECT naming
  \<open>c\<close>, leaves \<open>c\<close> registered as it was, with every subscription, and its session with the same
  settings, connection state, acknowledgements, stored packets and queued messages, to which routing can
  only add. No transport but its own is written, no connection but its own and that of a client named in a
  CONNECT is closed, and no entry of either timer heap is lost.\<close>

theorem parse_isolated:
  assumes "core_reads C" and "world_inv w" and "tid < next_tid w" and "parseData C tid w = Inr w'"
    and "c \<notin> set (acts_for C tid w)"
  shows "sessionPresent c w' = sessionPresent c w \<and>
    (\<forall>path. look (m_topicTree w') path c = look (m_topicTree w) path c) \<and>
    (\<forall>sid < next_sid w. client_id (clients w sid) = c \<longrightarrow> client_grows (clients w sid) (clients w' sid)) \<and>
    (\<forall>t. t \<noteq> tid \<longrightarrow> transports w' t = transports w t) \<and>
    (\<forall>fd. fd \<notin> set (closable tid (acts_for C tid w) w) \<longrightarrow>
       map_of (m_sessions w') fd = map_of (m_sessions w) fd) \<and>
    prefix (m_expiryHeap w) (m_expiryHeap w') \<and> prefix (m_retransmitHeap w) (m_retransmitHeap w')"
  using confined_parse [OF assms(1-4) refl refl] assms(5) by (simp add: confined_def)

theorem parse_isolated_witness:
  "\<exists>w'. parseData ref_core 0 (upd_transport 0 (\<lambda>t. t\<lparr>ms_recvBuff := [0x90, 0]\<rparr>)
       (as_client 0 ''c'' (sample_world True 1000))) = Inr w' \<and>
     sessionPresent ''c'' w' = None \<and> sessionPresent ''d'' w' = Some 1 \<and>
     map_of (m_sessions w') 5 = None \<and> map_of (m_sessions w') 6 = Some 1"
proof -
  let ?v = "as_client 0 ''c'' (sample_world True 1000)"
  let ?w = "upd_transport 0 (\<lambda>t. t\<lparr>ms_recvBuff := [0x90, 0]\<rparr>) ?v"
  have i: "world_inv ?w"
    using upd_transport_step [OF as_client_inv [OF sample_world_inv [of 1000 True]],
        where f = "\<lambda>t. t\<lparr>ms_recvBuff := [0x90, 0]\<rparr>"] by (simp add: steps_def)
  have l: "0 < next_tid ?w" by (simp add: as_client_def)
  have t: "pt_code (hdr_type (header_unpack 0x90)) = 9"
    by (simp add: header_unpack_def and_masks take_bit_eq_mod pt_of_def drop_bit_eq_div)
  have u: "unpack ref_core Packet_default [0x90, 0] 0 (Suc (Suc 0)) =
      Inr (- MQTT_ERR, Packet_default\<lparr>header := header_unpack 0x90\<rparr>, 1)"
    using unpack_beyond_table [OF ref_core_ok(1), of "[0x90, 0]" Packet_default "Suc (Suc 0)"] t by (simp add: Let_def)
  have b: "buf_available ref_core m = length m" "buf_data ref_core m = m" for m
    using ref_core_ok(3) by (simp_all add: core_buffer_def)
  have id: "getClientId ?w 0 = ''c''" by (simp add: getClientId_def as_client_def upd_transport_def)
  have p: "parseData ref_core 0 ?w = Inr (forceDisconnect 0 (removeFromRegistry ''c'' ?w))"
    unfolding parseData_def by (simp add: b u id deref_def sessionPresent_def Let_def)
  have a: "acts_for ref_core 0 ?w = [''c'']"
    unfolding acts_for_def by (simp add: b u id)
  have f: "6 \<notin> set (closable 0 [''c''] ?w)"
    by (simp add: closable_def attached_fds_def sessionPresent_def as_client_def)
  have n: "''d'' \<notin> set (acts_for ref_core 0 ?w)" by (simp add: a)
  have m: "m_sessions ?w = [(5, 0), (6, 1)]" "ms_fd (transports ?v 0) = 5"
    by (simp_all add: as_client_def upd_transport_def)
  from parse_isolated [OF ref_core_ok(1) i l p n, unfolded a] f p show ?thesis
    by (simp add: forceDisconnect_def removeSession_def removeFromRegistry_def sessionPresent_def m
        map_of_um_erase)
qed

end
