(* ===== verification/Segments.thy ===== *)
theory Segments
  imports Broker
begin

text \<open>
  Packets that arrive in pieces. The core appends what it reads from a socket to the receive buffer and
  has the transport's \<open>parseData\<close> run after each read, so a packet is offered to the decoder again each
  time it has grown. Cut anywhere but within its remaining length, a packet is handled as if it had
  arrived at once; cut there, the decoder reads behind the received bytes.
\<close>

text \<open>A read from the socket and the task after it, for each piece.\<close>

fun arrive :: "core \<Rightarrow> nat \<Rightarrow> u8 list list \<Rightarrow> world \<Rightarrow> fault + world" where
  "arrive C tid [] w = Inr w"
| "arrive C tid (d # ds) w = and_then (parseData C tid (recv_append tid d w)) (arrive C tid ds)"

abbreviation with_buffer :: "nat \<Rightarrow> u8 list \<Rightarrow> world \<Rightarrow> world" where
  "with_buffer tid bs w \<equiv> upd_transport tid (\<lambda>t. t\<lparr>ms_recvBuff := bs\<rparr>) w"

lemma recv_with_buffer: "recv_append tid d (with_buffer tid bs w) = with_buffer tid (bs @ d) w"
  by (simp add: recv_append_def upd_transport_def)

lemma recv_empty: "ms_recvBuff (transports w tid) = [] \<Longrightarrow> recv_append tid d w = with_buffer tid d w"
  by (simp add: recv_append_def upd_transport_def)

lemma decode_loop_cut:
  assumes "j < length (vbi n)" and "br + j < avail" and "k + j \<le> 3"
  shows "decode_loop (pre @ take j (vbi n)) avail (length pre) br len (128 ^ k) = Inl OutOfBounds"
  using assms
proof (induction n arbitrary: pre br len k j rule: vbi.induct)
  case (1 n)
  show ?case
  proof (cases j)
    case 0
    with "1.prems"(2) show ?thesis by (subst decode_loop.simps) simp
  next
    case (Suc i)
    let ?c = "of_nat (n mod 128 + 128) :: u8"
    have n: "\<not> n < 128" using "1.prems"(1) Suc by (auto simp: vbi_small)
    have mem: "pre @ take j (vbi n) = (pre @ [?c]) @ take i (vbi (n div 128))" "\<not> avail \<le> br"
      using n Suc "1.prems"(2) by (simp_all add: vbi_large)
    have hi: "?c AND 128 \<noteq> 0" by (rule digit_high) simp
    have mult: "\<not> (128::int) ^ k * 128 > 128 * 128 * 128"
      using "1.prems"(3) Suc power_increasing [of "Suc k" 3 "128::int"] by (simp add: not_less mult.commute)
    have "decode_loop ((pre @ [?c]) @ take i (vbi (n div 128))) avail (length (pre @ [?c])) (Suc br) l (128 ^ Suc k) =
        Inl OutOfBounds" for l
      by (rule "1.IH" [OF n]) (use "1.prems" Suc n in \<open>simp_all add: vbi_large\<close>)
    then show ?thesis
      unfolding mem(1) using hi mult mem(2)
      by (subst decode_loop.simps) (simp add: Let_def nth_append mult.commute del: of_nat_add of_nat_mod)
  qed
qed

lemma length_vbi_3: "n < 128 ^ 3 \<Longrightarrow> length (vbi n) \<le> 3"
  using length_vbi_le [of n 2] by simp

lemma unpack_cut_length:
  assumes C: "core_reads C" and h: "header_wf h" and ok: "packet_ok h v"
    and short: "length (body_of (hdr_qos h) v) < 128 ^ 3"
    and k: "1 < k" "k \<le> length (vbi (length (body_of (hdr_qos h) v)))"
  shows "unpack C p (take k (wire h v)) 0 k = Inl OutOfBounds"
proof -
  let ?n = "length (body_of (hdr_qos h) v)"
  have m: "take k (wire h v) = [header_pack h] @ take (k - 1) (vbi ?n)"
    using k by (cases k) (simp_all add: wire_def)
  have "decode_length (take k (wire h v)) 1 k = Inl OutOfBounds"
    using decode_loop_cut [of "k - 1" ?n 0 k 0 "[header_pack h]" 0] k length_vbi_3 [OF short]
    by (simp add: decode_length_def m)
  then have "is_partial (take k (wire h v)) k 1 0 = Inl OutOfBounds"
    using k(1) by (simp add: is_partial_def)
  then show ?thesis
    using unpack_first_byte [OF C _ h _ ok, of "take k (wire h v)"] decoder_fault [OF _ ok] by (simp add: m)
qed

text \<open>One task, on the first \<open>k\<close> bytes of a packet.\<close>

lemma parse_prefix:
  assumes C: "core_reads C" "core_buffer C" and h: "header_wf h" and ok: "packet_ok h v"
    and short: "length (body_of (hdr_qos h) v) < 128 ^ 3" and k: "0 < k" "k < length (wire h v)"
  shows "parseData C tid (with_buffer tid (take k (wire h v)) w) =
    (if 1 < k \<and> k \<le> length (vbi (length (body_of (hdr_qos h) v))) then Inl OutOfBounds
     else Inr (with_buffer tid (take k (wire h v)) w))"
proof -
  let ?m = "take k (wire h v)"
  have b: "buf_available C ?m = k" "buf_data C ?m = ?m" using C(2) k by (simp_all add: core_buffer_def)
  have eq: "parseData C tid (with_buffer tid ?m w) =
      (case unpack C Packet_default ?m 0 k of
         Inl e \<Rightarrow> Inl e
       | Inr (rc, p, pos) \<Rightarrow> parseData C tid (with_buffer tid ?m w))"
    by (auto simp: parseData_def b Let_def split: sum.split)
  consider "k = 1" | "1 < k" "k \<le> length (vbi (length (body_of (hdr_qos h) v)))"
    | "1 + length (vbi (length (body_of (hdr_qos h) v))) \<le> k" using k(1) by linarith
  then show ?thesis
  proof cases
    case 1
    have m: "?m = [header_pack h]" by (simp add: 1 wire_def)
    have "unpack C Packet_default ?m 0 k = Inr (MQTT_PARTIAL_PACKET, Packet_default\<lparr>header := h\<rparr>, 1)"
      unfolding m using unpack_one_byte [OF C(1) h ok] by (simp add: 1)
    moreover have "\<not> 1 < k" by (simp add: 1)
    ultimately show ?thesis by (simp add: parseData_def b Let_def)
  next
    case 2
    then show ?thesis using eq unpack_cut_length [OF C(1) h ok short] by simp
  next
    case 3
    from unpack_prefix_partial [OF C(1) h ok short 3 k(2)] 3 show ?thesis
      by (simp add: parseData_def b Let_def)
  qed
qed

text \<open>How many bytes of a packet have arrived when each of its pieces but the last has.\<close>

fun cuts :: "nat \<Rightarrow> u8 list list \<Rightarrow> nat list" where
  "cuts k [] = []"
| "cuts k (d # ds) = (k + length d) # cuts (k + length d) ds"

lemma arrive_pieces:
  assumes C: "core_reads C" "core_buffer C" and h: "header_wf h" and ok: "packet_ok h v"
    and short: "length (body_of (hdr_qos h) v) < 128 ^ 3"
    and pieces: "bs @ concat ds @ d = wire h v @ rest" "length (bs @ concat ds) < length (wire h v)"
    and first: "0 \<notin> set (cuts (length bs) ds)"
  shows "arrive C tid (ds @ [d]) (with_buffer tid bs w) =
    (if \<exists>k \<in> set (cuts (length bs) ds). 1 < k \<and> k \<le> length (vbi (length (body_of (hdr_qos h) v)))
     then Inl OutOfBounds else parseData C tid (with_buffer tid (wire h v @ rest) w))"
  using pieces first
proof (induction ds arbitrary: bs)
  case Nil
  have "and_then x Inr = x" for x :: "fault + world" by (cases x) simp_all
  moreover have "arrive C tid [] = Inr" by (simp add: fun_eq_iff)
  ultimately show ?case using Nil.prems by (simp add: recv_with_buffer)
next
  case (Cons c ds)
  let ?k = "length (bs @ c)"
  have m: "bs @ c = take ?k (wire h v)"
  proof -
    have "take ?k (bs @ concat (c # ds) @ d) = take ?k (wire h v @ rest)" using Cons.prems(1) by simp
    then show ?thesis using Cons.prems(2) by simp
  qed
  have k: "0 < ?k" "?k < length (wire h v)" using Cons.prems(2,3) by auto
  note one = parse_prefix [OF C h ok short k, folded m, of tid w]
  have IH: "arrive C tid (ds @ [d]) (with_buffer tid (bs @ c) w) =
    (if \<exists>k \<in> set (cuts ?k ds). 1 < k \<and> k \<le> length (vbi (length (body_of (hdr_qos h) v)))
     then Inl OutOfBounds else parseData C tid (with_buffer tid (wire h v @ rest) w))"
    by (rule Cons.IH) (use Cons.prems in simp_all)
  show ?case using one IH by (auto simp: recv_with_buffer)
qed

subsection \<open>Properties\<close>

text \<open>C10: A packet may arrive in pieces. For every way of cutting a packet, whose last piece may bring the
  beginning of the next: when no piece but the last ends within the remaining length, the tasks that
  run after each piece do together exactly what one task does when the packet arrives at once. When one
  does end there, after the header and at least one byte of the length but not all of it, the decoder reads
  behind the bytes received.\<close>

theorem packet_in_pieces:
  assumes "core_reads C" and "core_buffer C" and "header_wf h" and "packet_ok h v"
    and "length (body_of (hdr_qos h) v) < 128 ^ 3" and "ms_recvBuff (transports w tid) = []"
    and "concat ds @ d = wire h v @ rest" and "length (concat ds) < length (wire h v)"
    and "0 \<notin> set (cuts 0 ds)"
  shows "arrive C tid (ds @ [d]) w =
    (if \<exists>k \<in> set (cuts 0 ds). 1 < k \<and> k \<le> length (vbi (length (body_of (hdr_qos h) v)))
     then Inl OutOfBounds else arrive C tid [wire h v @ rest] w)"
proof -
  have "(transports w tid)\<lparr>ms_recvBuff := []\<rparr> = transports w tid" using assms(6) by (cases "transports w tid") simp
  then have w: "with_buffer tid [] w = w" by (simp add: upd_transport_def)
  have "and_then x Inr = x" for x :: "fault + world" by (cases x) simp_all
  moreover have "arrive C tid [] = Inr" by (simp add: fun_eq_iff)
  ultimately have one: "arrive C tid [wire h v @ rest] w = parseData C tid (with_buffer tid (wire h v @ rest) w)"
    using assms(6) by (simp add: recv_empty)
  show ?thesis
    using arrive_pieces [OF assms(1-5), of "[]" ds d rest tid w] assms(7-9)
    by (simp only: w one append_Nil list.size simp_thms)
qed

theorem packet_in_pieces_witness:
  "arrive ref_core 0 [[0x82], [6, 0], [7, 0, 1, 97, 1, 0xC0]] (sample_world True 1000) =
     arrive ref_core 0 [[0x82, 6, 0, 7, 0, 1, 97, 1, 0xC0]] (sample_world True 1000) \<and>
   arrive ref_core 0 [[0x32, 0x80], [1, 0, 1, 97, 0, 5] @ replicate 123 7] (sample_world True 1000) = Inl OutOfBounds"
proof -
  have e: "ms_recvBuff (transports (sample_world True 1000) 0) = []"
    by (simp add: sample_world_def addSession_def world_init_def)
  let ?h = "\<lparr>hdr_type = SUBSCRIBE, hdr_dup = False, hdr_qos = 1, hdr_retain = False\<rparr>"
  let ?v = "VSubscribe \<lparr>sub_packet_id = 7, sub_payload = [\<lparr>tp_topic = ''a'', tp_qos = 1\<rparr>]\<rparr>"
  have b: "body_of (hdr_qos ?h) ?v = [0, 7, 0, 1, 97, 1]"
    by (simp add: str16_def be16_def bytes_of_def byte_of_char_def)
  have w: "wire ?h ?v = [0x82, 6, 0, 7, 0, 1, 97, 1]"
    unfolding wire_def b by (simp add: header_pack_def vbi_small)
  have ok: "header_wf ?h" "packet_ok ?h ?v" by (simp_all add: header_wf_def str_ok_def)
  let ?h2 = "\<lparr>hdr_type = PUBLISH, hdr_dup = False, hdr_qos = 1, hdr_retain = False\<rparr>"
  let ?v2 = "VPublish \<lparr>pub_topic = ''a'', pub_packet_id = 5, pub_payload = replicate 123 7\<rparr>"
  have b2: "body_of (hdr_qos ?h2) ?v2 = [0, 1, 97, 0, 5] @ replicate 123 7"
    by (simp add: publish_body_def str16_def be16_def bytes_of_def byte_of_char_def)
  have l2: "length ([0, 1, 97, 0, 5] @ replicate 123 (7 :: u8)) = 128" by simp
  have w2: "wire ?h2 ?v2 = [0x32, 0x80, 1, 0, 1, 97, 0, 5] @ replicate 123 7"
    unfolding wire_def b2 l2 by (simp add: header_pack_def vbi_small vbi_large)
  have ok2: "header_wf ?h2" "packet_ok ?h2 ?v2" by (simp_all add: header_wf_def str_ok_def)
  have one: "arrive ref_core 0 ([[0x82], [6, 0]] @ [[7, 0, 1, 97, 1, 0xC0]]) (sample_world True 1000) =
      arrive ref_core 0 [[0x82, 6, 0, 7, 0, 1, 97, 1, 0xC0]] (sample_world True 1000)"
    using packet_in_pieces [OF ref_core_ok(1,3) ok _ e, of "[[0x82], [6, 0]]" "[7, 0, 1, 97, 1, 0xC0]" "[0xC0]"]
    unfolding b w by (simp add: vbi_small)
  have two: "arrive ref_core 0 ([[0x32, 0x80]] @ [[1, 0, 1, 97, 0, 5] @ replicate 123 7]) (sample_world True 1000) =
      Inl OutOfBounds"
    using packet_in_pieces [OF ref_core_ok(1,3) ok2 _ e, of "[[0x32, 0x80]]" "[1, 0, 1, 97, 0, 5] @ replicate 123 7" "[]"]
    unfolding b2 w2 l2 by (simp add: vbi_small vbi_large)
  from one two show ?thesis by simp
qed
end
