(* ===== verification/Queue_Independence.thy ===== *)
theory Queue_Independence
  imports Broker
begin

text \<open>
  The offline queues have no influence on what the broker does: every operation, run on the same state
  with more messages at the front of the queues, gives the same result with these messages still there.
\<close>

subsection \<open>A state with more messages waiting\<close>

definition queue_before :: "Packet list \<Rightarrow> ClientSession \<Rightarrow> ClientSession" where
  "queue_before q c = c\<lparr>message_queue := q @ message_queue c\<rparr>"

definition stored_before :: "(nat \<Rightarrow> Packet list) \<Rightarrow> world \<Rightarrow> world" where
  "stored_before Q w = w\<lparr>clients := \<lambda>sid. queue_before (Q sid) (clients w sid)\<rparr>"

named_theorems queue_simps

lemma queue_before_sel [queue_simps]:
  "client_id (queue_before q c) = client_id c" "keep_alive (queue_before q c) = keep_alive c"
  "cleansession (queue_before q c) = cleansession c" "connected (queue_before q c) = connected c"
  "cs_session (queue_before q c) = cs_session c" "expiry_ms (queue_before q c) = expiry_ms c"
  "last_activity (queue_before q c) = last_activity c" "inflight (queue_before q c) = inflight c"
  "inflight_ack (queue_before q c) = inflight_ack c" "next_packet_id (queue_before q c) = next_packet_id c"
  "deadline (queue_before q c) = deadline c" "getPacket i t (queue_before q c) = getPacket i t c"
  by (simp_all add: queue_before_def deadline_def getPacket_def)

lemma stored_before_sel [queue_simps]:
  "clients (stored_before Q w) sid = queue_before (Q sid) (clients w sid)"
  "next_sid (stored_before Q w) = next_sid w" "transports (stored_before Q w) = transports w"
  "next_tid (stored_before Q w) = next_tid w" "m_sessions (stored_before Q w) = m_sessions w"
  "held (stored_before Q w) = held w" "m_sessionRegistry (stored_before Q w) = m_sessionRegistry w"
  "m_topicTree (stored_before Q w) = m_topicTree w" "m_expiryHeap (stored_before Q w) = m_expiryHeap w"
  "m_retransmitHeap (stored_before Q w) = m_retransmitHeap w" "now_ms (stored_before Q w) = now_ms w"
  "sent (stored_before Q w) = sent w"
  "client_alive (stored_before Q w) sid = client_alive w sid"
  "transport_alive (stored_before Q w) tid = transport_alive w tid"
  "lock_transport (stored_before Q w) t = lock_transport w t"
  "sessionPresent c (stored_before Q w) = sessionPresent c w"
  "getClientId (stored_before Q w) tid = getClientId w tid"
  "getNextTimeoutMs (stored_before Q w) = getNextTimeoutMs w"
  by (simp_all add: stored_before_def client_alive_def transport_alive_def lock_transport_def [abs_def]
      sessionPresent_def getClientId_def getNextTimeoutMs_def Let_def cong: option.case_cong)

subsection \<open>Single updates\<close>

lemma allocate_queue_before [queue_simps]:
  "allocatePacketId (queue_before q c) = apsnd (queue_before q) (allocatePacketId c)"
  by (simp add: allocatePacketId_def queue_before_def Let_def)

lemma storeMessage_queue_before [queue_simps]:
  "storeMessage p (queue_before q c) = queue_before q (storeMessage p c)"
  by (simp add: storeMessage_def queue_before_def)

lemma storeInflight_queue_before [queue_simps]:
  "storeInflight p (queue_before q c) = map_sum id (queue_before q) (storeInflight p c)"
  by (cases "get_publish (pkt p)") (simp_all add: storeInflight_def queue_before_def)

lemma storeInflightAck_queue_before [queue_simps]:
  "storeInflightAcknowlegement p (queue_before q c) = map_sum id (queue_before q) (storeInflightAcknowlegement p c)"
  by (cases "get_ack (pkt p)") (simp_all add: storeInflightAcknowlegement_def queue_before_def)

lemma remove_queue_before [queue_simps]:
  "removeFromInflight i (queue_before q c) = apsnd (queue_before q) (removeFromInflight i c)"
  "removeFromInflightAcknowlegement i (queue_before q c) =
     apsnd (queue_before q) (removeFromInflightAcknowlegement i c)"
  by (simp_all add: removeFromInflight_def removeFromInflightAcknowlegement_def queue_before_def split: option.split)

lemma upd_client_stored_before:
  "(\<And>c. f (queue_before (Q sid) c) = queue_before (Q sid) (f c)) \<Longrightarrow>
     upd_client sid f (stored_before Q w) = stored_before Q (upd_client sid f w)"
  by (auto simp: upd_client_def stored_before_def intro!: world.equality)

lemma upd_client_const_stored_before [queue_simps]:
  "upd_client sid (\<lambda>_. queue_before (Q sid) c) (stored_before Q w) = stored_before Q (upd_client sid (\<lambda>_. c) w)"
  by (auto simp: upd_client_def stored_before_def intro!: world.equality)

lemma upd_field_stored_before [queue_simps]:
  "upd_client sid (\<lambda>c. c\<lparr>connected := b\<rparr>) (stored_before Q w) = stored_before Q (upd_client sid (\<lambda>c. c\<lparr>connected := b\<rparr>) w)"
  "upd_client sid (\<lambda>c. c\<lparr>expiry_ms := i\<rparr>) (stored_before Q w) = stored_before Q (upd_client sid (\<lambda>c. c\<lparr>expiry_ms := i\<rparr>) w)"
  "upd_client sid (\<lambda>c. c\<lparr>last_activity := i\<rparr>) (stored_before Q w) =
     stored_before Q (upd_client sid (\<lambda>c. c\<lparr>last_activity := i\<rparr>) w)"
  "upd_client sid (\<lambda>c. c\<lparr>connected := b, cs_session := s, last_activity := i\<rparr>) (stored_before Q w) =
     stored_before Q (upd_client sid (\<lambda>c. c\<lparr>connected := b, cs_session := s, last_activity := i\<rparr>) w)"
  "upd_client sid (connect_fields cn) (stored_before Q w) = stored_before Q (upd_client sid (connect_fields cn) w)"
  "upd_client sid (storeMessage p) (stored_before Q w) = stored_before Q (upd_client sid (storeMessage p) w)"
  by (intro upd_client_stored_before; simp add: queue_before_def connect_fields_def storeMessage_def)+

lemma world_op_stored_before [queue_simps]:
  "pushDataToSend t d (stored_before Q w) = stored_before Q (pushDataToSend t d w)"
  "addSession fd (stored_before Q w) = stored_before Q (addSession fd w)"
  "removeSession fd (stored_before Q w) = stored_before Q (removeSession fd w)"
  "forceDisconnect t (stored_before Q w) = stored_before Q (forceDisconnect t w)"
  "removeFromRegistry c (stored_before Q w) = stored_before Q (removeFromRegistry c w)"
  "addToRegistry sid (stored_before Q w) = stored_before Q (addToRegistry sid w)"
  "scheduleRetransmission i ty sid (stored_before Q w) = stored_before Q (scheduleRetransmission i ty sid w)"
  "createSubscription topic qos c (stored_before Q w) = stored_before Q (createSubscription topic qos c w)"
  "removeSubscription topic c (stored_before Q w) = stored_before Q (removeSubscription topic c w)"
  "upd_transport t f (stored_before Q w) = stored_before Q (upd_transport t f w)"
  "hold t (stored_before Q w) = stored_before Q (hold t w)"
  "release t (stored_before Q w) = stored_before Q (release t w)"
  "recv_append t d (stored_before Q w) = stored_before Q (recv_append t d w)"
  "(stored_before Q w)\<lparr>now_ms := ms\<rparr> = stored_before Q (w\<lparr>now_ms := ms\<rparr>)"
  "(stored_before Q w)\<lparr>m_expiryHeap := h\<rparr> = stored_before Q (w\<lparr>m_expiryHeap := h\<rparr>)"
  "(stored_before Q w)\<lparr>m_retransmitHeap := h'\<rparr> = stored_before Q (w\<lparr>m_retransmitHeap := h'\<rparr>)"
  "(stored_before Q w)\<lparr>m_topicTree := tr\<rparr> = stored_before Q (w\<lparr>m_topicTree := tr\<rparr>)"
  by (simp_all add: stored_before_def pushDataToSend_def addSession_def removeSession_def forceDisconnect_def
      removeFromRegistry_def addToRegistry_def queue_before_sel scheduleRetransmission_def Let_def
      createSubscription_def removeSubscription_def sessionPresent_def upd_transport_def hold_def release_def
      recv_append_def split: option.split)

lemma updateActivity_stored_before [queue_simps]:
  "updateActivity c (stored_before Q w) = stored_before Q (updateActivity c w)"
  by (simp add: updateActivity_def queue_simps split: option.split)

lemma scheduleExpiry_stored_before [queue_simps]:
  "scheduleExpiry cs (stored_before Q w) = stored_before Q (scheduleExpiry cs w)"
  by (simp add: scheduleExpiry_def Let_def queue_simps)

lemma make_client_stored_before:
  "Q (next_sid w) = [] \<Longrightarrow> make_client (stored_before Q w) = apsnd (stored_before Q) (make_client w)"
  by (auto simp: make_client_def stored_before_def queue_before_def intro!: world.equality)

text \<open>Operations in sequence.\<close>

lemma and_then_map [queue_simps]:
  "\<And>m f g. and_then (map_sum id f m) g = and_then m (\<lambda>x. g (f x))"
  "\<And>m f h. map_sum id f (and_then m h) = and_then m (\<lambda>x. map_sum id f (h x))"
  "\<And>m h k. and_then (and_then m h) k = and_then m (\<lambda>x. and_then (h x) k)"
  subgoal for m by (cases m) simp_all
  subgoal for m by (cases m) simp_all
  subgoal for m by (cases m) simp_all
  done

lemma and_then_if [queue_simps]:
  "and_then (if b then m else n) k = (if b then and_then m k else and_then n k)"
  "\<And>m n f. map_sum id f (if b then m else n) = (if b then map_sum id f m else map_sum id f n)"
  by simp_all

lemma fold_stored_before:
  "(\<And>x w. f x (stored_before Q w) = stored_before Q (f x w)) \<Longrightarrow>
     fold f xs (stored_before Q w) = stored_before Q (fold f xs w)"
  by (induction xs arbitrary: w) simp_all

lemma fold_r_map:
  "(\<And>x s. f x (g s) = map_sum id g (f x s)) \<Longrightarrow> fold_r f xs (g s) = map_sum id g (fold_r f xs s)"
proof (induction xs arbitrary: s)
  case (Cons x xs)
  then show ?case by (cases "f x s") simp_all
qed simp


subsection \<open>Sending and routing\<close>

lemma sendToClient_stored_before [queue_simps]:
  "sendToClient C session p (stored_before Q w) = map_sum id (stored_before Q) (sendToClient C session p w)"
proof -
  show ?thesis
    by (cases session; cases "hdr_type (header p) = PUBLISH"; cases "0 < hdr_qos (header p)")
      (simp_all add: sendToClient_def queue_simps deref_def Let_def case_prod_unfold
        option.case_distrib [where h = "stored_before Q"] cong: option.case_cong)
qed

lemma route_to_stored_before:
  "route_to C sub (apsnd (stored_before Q) s) = map_sum id (apsnd (stored_before Q)) (route_to C sub s)"
  by (cases s) (simp add: route_to_def queue_simps Let_def)

lemma routePacket_stored_before [queue_simps]:
  "routePacket C p cs (stored_before Q w) = map_sum id (apsnd (stored_before Q)) (routePacket C p cs w)"
proof -
  have "fold_r (route_to C) subs (p, stored_before Q w) =
      map_sum id (apsnd (stored_before Q)) (fold_r (route_to C) subs (p, w))" for p subs w
    using fold_r_map [of "route_to C" "apsnd (stored_before Q)" subs "(p, w)", OF route_to_stored_before] by simp
  then show ?thesis by (simp add: routePacket_def queue_simps case_prod_unfold Let_def)
qed

subsection \<open>The timers\<close>

lemma expiry_step_stored_before: "expiry_step (stored_before Q w) s = expiry_step w s"
  by (cases s) (simp add: queue_simps Let_def cong: if_cong option.case_cong)

lemma disconnect_expired_stored_before:
  "disconnect_expired cs (stored_before Q w) = stored_before Q (disconnect_expired cs w)"
  by (simp add: disconnect_expired_def queue_simps Let_def split: option.split)

lemma processExpiredSessions_stored_before [queue_simps]:
  "processExpiredSessions (stored_before Q w) = map_option (stored_before Q) (processExpiredSessions w)"
proof -
  have "expiry_scan (stored_before Q w) = expiry_scan w"
    by (simp add: expiry_scan_def queue_simps expiry_step_stored_before [abs_def])
  then show ?thesis
    by (simp add: processExpiredSessions_def queue_simps fold_stored_before disconnect_expired_stored_before
        scheduleExpiry_stored_before split: option.split)
qed

lemma retransmit_entry_stored_before:
  "retransmit_entry C e (stored_before Q w) = map_sum id (stored_before Q) (retransmit_entry C e w)"
  by (simp add: retransmit_entry_def queue_simps Let_def case_prod_unfold split: option.split)

lemma processRetransmissions_stored_before [queue_simps]:
  "processRetransmissions C (stored_before Q w) =
     map_option (map_sum id (stored_before Q)) (processRetransmissions C w)"
proof -
  let ?f = "map_sum id (stored_before Q)"
  have r: "retransmit_ready t (stored_before Q u) = retransmit_ready t u" for t u
    by (simp add: retransmit_ready_def queue_simps cong: option.case_cong)
  have "retransmit_guard t s = retransmit_guard t (?f s)" for t s
    by (cases s) (simp_all add: r)
  moreover have "?f (retransmit_step C t s) = retransmit_step C t (?f s)" for t s
    by (cases s) (simp_all add: retransmit_step_def r retransmit_entry_stored_before split: option.split)
  ultimately have "map_option ?f (while_option (retransmit_guard t) (retransmit_step C t) s) =
      while_option (retransmit_guard t) (retransmit_step C t) (?f s)" for t s
    by (rule while_option_commute)
  then show ?thesis by (simp add: processRetransmissions_def queue_simps)
qed


subsection \<open>The handlers\<close>

definition handled_before :: "(nat \<Rightarrow> Packet list) \<Rightarrow> handled \<Rightarrow> handled" where
  "handled_before Q = map_sum id (apsnd (apsnd (stored_before Q)))"

lemma handled_before_simps [queue_simps]:
  "handled_before Q (Inl e) = Inl e" "handled_before Q (Inr (rc, buff, w)) = Inr (rc, buff, stored_before Q w)"
  "handled_before Q (and_then m f) = and_then m (\<lambda>x. handled_before Q (f x))"
  "handled_before Q (if b then r else r') = (if b then handled_before Q r else handled_before Q r')"
  by (simp_all add: handled_before_def queue_simps)

lemma resendMessages_stored_before [queue_simps]:
  "resendMessages C p i t (stored_before Q w) = map_sum id (stored_before Q) (resendMessages C p i t w)"
  by (simp add: resendMessages_def queue_simps Let_def)

lemma resume_session_stored_before [queue_simps]:
  "resume_session C cs (stored_before Q w) = map_sum id (stored_before Q) (resume_session C cs w)"
proof -
  have "fold_r (\<lambda>(k, p). resendMessages C p k t) xs (stored_before Q u) =
      map_sum id (stored_before Q) (fold_r (\<lambda>(k, p). resendMessages C p k t) xs u)" for t xs u
    by (rule fold_r_map) (simp add: queue_simps split: prod.split)
  then show ?thesis by (simp add: resume_session_def queue_simps split: option.split)
qed

lemma disconnect_old_stored_before [queue_simps]:
  "disconnect_old cs (stored_before Q w) = stored_before Q (disconnect_old cs w)"
  by (simp add: disconnect_old_def queue_simps split: option.split)

lemma select_session_stored_before:
  assumes "Q (next_sid w) = []"
  shows "select_session C cn (stored_before Q w) =
    map_sum id (apsnd (apsnd (apsnd (stored_before Q)))) (select_session C cn w)"
proof -
  have "next_sid (removeFromRegistry c (disconnect_old cs w)) = next_sid w" for c cs
    by (simp add: disconnect_old_sel removeFromRegistry_def)
  with assms show ?thesis
    by (simp add: select_session_def queue_simps make_client_stored_before Let_def case_prod_unfold
        split: option.split)
qed

lemma admit_stored_before [queue_simps]:
  "admit cn t cs add (stored_before Q w) = stored_before Q (admit cn t cs add w)"
  by (simp add: admit_def queue_simps Let_def)

lemma connectHandler_stored_before:
  assumes "Q (next_sid w) = []"
  shows "connectHandler C p buff (stored_before Q w) t = handled_before Q (connectHandler C p buff w t)"
proof (cases "pkt p")
  case (VConnect cn)
  show ?thesis
    by (simp add: connectHandler_eq [OF VConnect] select_session_stored_before [of Q w, OF assms] queue_simps
        case_prod_unfold)
qed (simp_all add: connectHandler_def queue_simps)

lemma publishHandler_stored_before:
  "publishHandler C p buff (stored_before Q w) t = handled_before Q (publishHandler C p buff w t)"
  by (cases "pkt p") (simp_all add: publishHandler_def queue_simps Let_def case_prod_unfold cong: if_cong)

lemma ack_handlers_stored_before:
  "pubackHandler C p buff (stored_before Q w) t = handled_before Q (pubackHandler C p buff w t)"
  "pubrecHandler C p buff (stored_before Q w) t = handled_before Q (pubrecHandler C p buff w t)"
  "pubrelHandler C p buff (stored_before Q w) t = handled_before Q (pubrelHandler C p buff w t)"
  "pubcompHandler C p buff (stored_before Q w) t = handled_before Q (pubcompHandler C p buff w t)"
  subgoal by (cases "pkt p") (simp_all add: pubackHandler_def queue_simps Let_def case_prod_unfold)
  subgoal by (cases "pkt p") (simp_all add: pubrecHandler_def queue_simps Let_def case_prod_unfold)
  subgoal by (cases "pkt p") (simp_all add: pubrelHandler_def queue_simps Let_def case_prod_unfold cong: if_cong)
  subgoal by (cases "pkt p") (simp_all add: pubcompHandler_def queue_simps Let_def case_prod_unfold)
  done

lemma subscription_handlers_stored_before:
  "subscribeHandler C p buff (stored_before Q w) t = handled_before Q (subscribeHandler C p buff w t)"
  "unsubscribeHandler C p buff (stored_before Q w) t = handled_before Q (unsubscribeHandler C p buff w t)"
proof -
  have "fold (subscribe_one c) ts (codes, stored_before Q u) =
      apsnd (stored_before Q) (fold (subscribe_one c) ts (codes, u))" for c ts codes u
    by (induction ts arbitrary: codes u) (simp_all add: subscribe_one_def queue_simps)
  then show "subscribeHandler C p buff (stored_before Q w) t = handled_before Q (subscribeHandler C p buff w t)"
    by (cases "pkt p") (simp_all add: subscribeHandler_def queue_simps Let_def case_prod_unfold)
  have "fold (\<lambda>topic. removeSubscription topic (c u)) ts (stored_before Q u) =
      stored_before Q (fold (\<lambda>topic. removeSubscription topic (c u)) ts u)" for c ts u
    by (rule fold_stored_before) (simp add: queue_simps)
  then show "unsubscribeHandler C p buff (stored_before Q w) t = handled_before Q (unsubscribeHandler C p buff w t)"
    by (cases "pkt p") (simp_all add: unsubscribeHandler_def queue_simps Let_def)
qed

lemma handler_stored_before:
  assumes "handlers C ! i = Some h" and "i < length (handlers C)" and "Q (next_sid w) = []"
  shows "h p buff (stored_before Q w) t = handled_before Q (h p buff w t)"
proof -
  have "i \<in> {0, 1, 2, 3, 4, 5, 6, 7, 8, 9, 10, 11, 12, 13, 14}"
    using assms(2) unfolding insert_iff empty_iff by (simp add: handlers_def) arith
  with assms(1) show ?thesis
    using connectHandler_stored_before [of Q w, OF assms(3)]
    by (auto simp: handlers_def publishHandler_stored_before ack_handlers_stored_before
        subscription_handlers_stored_before pingreqHandler_def disconnectHandler_def queue_simps Let_def)
qed

lemma call_handler_stored_before:
  assumes "Q (next_sid w) = []"
  shows "call_handler C p (stored_before Q w) t = handled_before Q (call_handler C p w t)"
proof -
  define i where "i = unat (pt_code (hdr_type (header p)))"
  show ?thesis
  proof (cases "i < length (handlers C)")
    case True
    show ?thesis
    proof (cases "handlers C ! i")
      case (Some h)
      have "and_then (handled_before Q r) (\<lambda>(rc, b, w). Inr (c_int (word_of_int rc), b, w)) =
          handled_before Q (and_then r (\<lambda>(rc, b, w). Inr (c_int (word_of_int rc), b, w)))" for r
        by (cases r) (auto simp: queue_simps)
      then show ?thesis
        using True Some handler_stored_before [of C i h Q w p "[]" t, OF Some True assms]
        by (simp add: call_handler_def i_def)
    qed (use True in \<open>simp add: call_handler_def i_def queue_simps\<close>)
  qed (simp add: call_handler_def i_def queue_simps)
qed

lemma parseData_stored_before:
  assumes "Q (next_sid w) = []"
  shows "parseData C t (stored_before Q w) = map_sum id (stored_before Q) (parseData C t w)"
proof -
  have n: "next_sid (upd_transport t f w) = next_sid w" for f by (simp add: upd_transport_def)
  have h: "and_then (handled_before Q r) f = and_then r (\<lambda>(rc, b, w). f (rc, b, stored_before Q w))"
    for r and f :: "int \<times> u8 list \<times> world \<Rightarrow> fault + world"
    by (cases r) (auto simp: queue_simps)
  have c: "call_handler C p (stored_before Q (upd_transport t f w)) t =
      handled_before Q (call_handler C p (upd_transport t f w) t)" for p f
    by (rule call_handler_stored_before) (simp add: n assms)
  show ?thesis
    by (simp add: parseData_def queue_simps c h Let_def case_prod_unfold if_distrib [of "forceDisconnect t"]
        if_distrib [of "stored_before Q"] cong: if_cong)
qed


subsection \<open>Steps and runs\<close>

lemma broker_step_stored_before:
  assumes "broker_step C w w'" and "Q (next_sid w) = []"
  shows "broker_step C (stored_before Q w) (stored_before Q w')"
  using assms(1)
proof (cases rule: broker_step.cases)
  case (accept fd)
  then show ?thesis using broker_step.accept [of C "stored_before Q w" fd] by (simp add: queue_simps)
next
  case (close fd)
  then show ?thesis using broker_step.close [of C "stored_before Q w" fd] by (simp add: queue_simps)
next
  case (receive tid data)
  then show ?thesis using broker_step.receive [of C "stored_before Q w" tid data] by (simp add: queue_simps)
next
  case (task tid u)
  have "Q (next_sid (hold tid w)) = []" using assms(2) by (simp add: hold_def)
  from parseData_stored_before [of Q, OF this, of C tid] task
  show ?thesis using broker_step.task [of "stored_before Q w" tid C "stored_before Q u"] by (simp add: queue_simps)
next
  case (tick d)
  then show ?thesis using broker_step.tick [of d C "stored_before Q w"] by (simp add: queue_simps)
next
  case expire
  then show ?thesis using broker_step.expire [of "stored_before Q w" _ C] by (simp add: queue_simps)
next
  case retransmit
  then show ?thesis using broker_step.retransmit [of C "stored_before Q w"] by (simp add: queue_simps)
qed

lemma run_stored_before:
  assumes "core_reads C" and "(broker_step C)\<^sup>*\<^sup>* w w'" and "world_inv w"
    and "\<forall>sid \<ge> next_sid w. Q sid = []"
  shows "(broker_step C)\<^sup>*\<^sup>* (stored_before Q w) (stored_before Q w')"
  using assms(2)
proof (induction rule: rtranclp_induct)
  case (step u v)
  have "next_sid w \<le> next_sid u"
    using run_evolves [OF assms(1) step.hyps(1) assms(3)] by (simp add: steps_def evolves_def)
  then have "Q (next_sid u) = []" using assms(4) by simp
  from step.IH broker_step_stored_before [of C u v Q, OF step.hyps(2) this] show ?case by simp
qed simp

end
