(* ===== verification/Program_Entry.thy ===== *)
theory Program_Entry
  imports Broker
begin

text \<open>
  \<open>main\<close> of \<open>mqtt/src/broker.cpp\<close> and what it calls of \<open>include/broker.h\<close>: construction, \<open>initialize\<close>, the
  loop of \<open>Broker::run\<close> around the rounds of theory Broker, and the exit code. The server may behave
  differently in every round, so it is a sequence of servers; \<open>TCPServer::init\<close> of the core is a parameter.
\<close>

record broker =
  m_running :: bool
  m_manageSessions :: world

definition Broker_new :: "world \<Rightarrow> broker" where
  "Broker_new session_manager = \<lparr>m_running = True, m_manageSessions = session_manager\<rparr>"

definition Broker_delete :: "broker \<Rightarrow> broker" where
  "Broker_delete b = b\<lparr>m_running := False\<rparr>"

definition broker_initialize :: "(world \<Rightarrow> fault + bool \<times> world) \<Rightarrow> broker \<Rightarrow> fault + bool \<times> broker" where
  "broker_initialize tcp_init b =
     and_then (tcp_init (m_manageSessions b)) (\<lambda>(ok, w). Inr (ok, b\<lparr>m_manageSessions := w\<rparr>))"

text \<open>\<open>None\<close>: the loop does not return, because a round does not end or there is always another one.\<close>

partial_function (option) broker_run ::
    "core \<Rightarrow> (nat \<Rightarrow> server) \<Rightarrow> nat \<Rightarrow> broker \<Rightarrow> (fault + broker) option" where
  "broker_run C S n b =
     (if m_running b then
        (case run_iteration C (S n) (m_manageSessions b) of
           None \<Rightarrow> None
         | Some (Inl e) \<Rightarrow> Some (Inl e)
         | Some (Inr w) \<Rightarrow> broker_run C S (Suc n) (b\<lparr>m_manageSessions := w\<rparr>))
      else Some (Inr b))"

text \<open>
  Only \<open>run\<close> is in the \<open>try\<close> block: \<open>Inl\<close> stands for an exception nobody catches, which ends the program, and
  for undefined behaviour.
\<close>

definition broker_main ::
    "core \<Rightarrow> (world \<Rightarrow> fault + bool \<times> world) \<Rightarrow> (nat \<Rightarrow> server) \<Rightarrow> int \<Rightarrow> (fault + int) option" where
  "broker_main C tcp_init S now =
     (let sessions = world_init now;
          broker = Broker_new sessions
      in case broker_initialize tcp_init broker of
           Inl e \<Rightarrow> Some (Inl e)
         | Inr (ok, broker) \<Rightarrow>
             if \<not> ok then Some (Inr 1)
             else case broker_run C S 0 broker of
                    None \<Rightarrow> None
                  | Some (Inl e) \<Rightarrow> if is_exception e then Some (Inr 0) else Some (Inl e)
                  | Some (Inr broker) \<Rightarrow> let broker = Broker_delete broker in Some (Inr 0))"

text \<open>The states between rounds, as far as the rounds end without a fault.\<close>

primrec after_rounds :: "core \<Rightarrow> (nat \<Rightarrow> server) \<Rightarrow> nat \<Rightarrow> world \<Rightarrow> world option" where
  "after_rounds C S 0 w = Some w"
| "after_rounds C S (Suc n) w =
     (case after_rounds C S n w of
        None \<Rightarrow> None
      | Some u \<Rightarrow> (case run_iteration C (S n) u of Some (Inr v) \<Rightarrow> Some v | _ \<Rightarrow> None))"

lemma run_iteration_steps:
  assumes "server_ok S" and "world_inv w"
  shows "run_iteration C S w = None \<or> (\<exists>w'. run_iteration C S w = Some (Inr w') \<and> steps w w') \<or>
    (\<exists>e. run_iteration C S w = Some (Inl e) \<and> is_exception e)"
proof (cases "and_then (srv_poll S (getNextTimeoutMs w) w) (\<lambda>(events, u). handle_events S events u)")
  case (Inl e)
  then show ?thesis using loop_events_steps [OF assms, of "getNextTimeoutMs w"] by (simp add: run_iteration_def)
next
  case ev: (Inr v)
  then have v: "steps w v" using loop_events_steps [OF assms, of "getNextTimeoutMs w"] by simp
  have r: "run_iteration C S w =
      (case processExpiredSessions v of None \<Rightarrow> None | Some w \<Rightarrow> processRetransmissions C w)"
    by (simp add: run_iteration_def ev Let_def)
  show ?thesis
  proof (cases "processExpiredSessions v")
    case None
    then show ?thesis by (simp add: r)
  next
    case (Some u)
    note u = processExpired_steps [OF steps_inv [OF v] Some]
    from processRetransmissions_steps [OF steps_inv [OF u], of C] obtain w' where
      "processRetransmissions C u = Some (Inr w')" "steps u w'" by blast
    with steps_trans [OF steps_trans [OF v u]] Some show ?thesis by (simp add: r)
  qed
qed

text \<open>The loop goes from round to round, and only a round that throws ends it.\<close>

lemma broker_run_after:
  "after_rounds C S n w = Some u \<Longrightarrow> m_running b \<Longrightarrow>
     broker_run C S 0 (b\<lparr>m_manageSessions := w\<rparr>) = broker_run C S n (b\<lparr>m_manageSessions := u\<rparr>)"
proof (induction n arbitrary: u)
  case (Suc n)
  then obtain v where v: "after_rounds C S n w = Some v" "run_iteration C (S n) v = Some (Inr u)"
    by (auto split: option.split_asm sum.split_asm)
  from Suc.IH [OF v(1) Suc.prems(2)] v(2) Suc.prems(2) show ?case
    by (subst (asm) broker_run.simps [of C S n]) simp
qed simp

lemma broker_run_throws:
  assumes "after_rounds C S n w = Some u" and "run_iteration C (S n) u = Some (Inl e)" and "m_running b"
  shows "broker_run C S 0 (b\<lparr>m_manageSessions := w\<rparr>) = Some (Inl e)"
  unfolding broker_run_after [OF assms(1,3)] using assms(2,3) by (subst broker_run.simps) simp

lemma broker_run_returns:
  assumes "broker_run C S 0 b = Some r" and "m_running b"
  shows "\<exists>n u e. after_rounds C S n (m_manageSessions b) = Some u \<and> run_iteration C (S n) u = Some (Inl e) \<and> r = Inl e"
proof -
  define P where "P C S n b r \<longleftrightarrow> (\<forall>w. m_running b \<longrightarrow> after_rounds C S n w = Some (m_manageSessions b) \<longrightarrow>
      (\<exists>n u e. after_rounds C S n w = Some u \<and> run_iteration C (S n) u = Some (Inl e) \<and> r = Inl e))"
    for C :: core and S :: "nat \<Rightarrow> server" and n :: nat and b :: broker and r :: "fault + broker"
  have "P C S 0 b r"
  proof (rule broker_run.raw_induct [OF _ assms(1)])
    fix run :: "core \<Rightarrow> (nat \<Rightarrow> server) \<Rightarrow> nat \<Rightarrow> broker \<Rightarrow> (fault + broker) option" and C S n b r
    assume IH: "\<And>C S n b r. run C S n b = Some r \<Longrightarrow> P C S n b r"
      and r: "(if m_running b then case run_iteration C (S n) (m_manageSessions b) of None \<Rightarrow> None
         | Some (Inl e) \<Rightarrow> Some (Inl e)
         | Some (Inr w) \<Rightarrow> run C S (Suc n) (b\<lparr>m_manageSessions := w\<rparr>) else Some (Inr b)) = Some r"
    show "P C S n b r"
      unfolding P_def
    proof (intro allI impI)
      fix w assume a: "m_running b" "after_rounds C S n w = Some (m_manageSessions b)"
      then obtain q where q: "run_iteration C (S n) (m_manageSessions b) = Some q"
        "(case q of Inl e \<Rightarrow> Some (Inl e) | Inr w \<Rightarrow> run C S (Suc n) (b\<lparr>m_manageSessions := w\<rparr>)) = Some r"
        using r by (auto split: option.split_asm)
      show "\<exists>n u e. after_rounds C S n w = Some u \<and> run_iteration C (S n) u = Some (Inl e) \<and> r = Inl e"
      proof (cases q)
        case (Inl e)
        with q a(2) show ?thesis by auto
      next
        case (Inr v)
        then have "P C S (Suc n) (b\<lparr>m_manageSessions := v\<rparr>) r" using q(2) IH by simp
        then show ?thesis unfolding P_def using a q(1) Inr by simp
      qed
    qed
  qed
  then show ?thesis using assms(2) by (simp add: P_def)
qed

lemma after_rounds_steps:
  assumes "\<And>n. server_ok (S n)" and "steps w0 w" and "after_rounds C S n w = Some u"
  shows "steps w0 u"
  using assms(3)
proof (induction n arbitrary: u)
  case (Suc n)
  then obtain v where v: "after_rounds C S n w = Some v" "run_iteration C (S n) v = Some (Inr u)"
    by (auto split: option.split_asm sum.split_asm)
  from Suc.IH [OF v(1)] run_iteration_steps [OF assms(1) steps_inv [OF Suc.IH [OF v(1)]], of C n] v(2)
  show ?case using steps_trans by auto
qed (use assms(2) in simp)

text \<open>\<open>main\<close> after a successful initialisation.\<close>

lemma main_after_init:
  assumes "\<And>n. server_ok (S n)" and "tcp_init (world_init now) = Inr (True, w)" and "steps (world_init now) w"
  shows "broker_main C tcp_init S now =
    (if \<exists>n u e. after_rounds C S n w = Some u \<and> run_iteration C (S n) u = Some (Inl e) then Some (Inr 0) else None)"
proof -
  let ?b = "\<lparr>m_running = True, m_manageSessions = w\<rparr>"
  have m: "broker_main C tcp_init S now =
      (case broker_run C S 0 ?b of None \<Rightarrow> None
       | Some (Inl e) \<Rightarrow> if is_exception e then Some (Inr 0) else Some (Inl e) | Some (Inr b) \<Rightarrow> Some (Inr 0))"
    by (simp add: broker_main_def broker_initialize_def Broker_new_def assms(2) Let_def split: option.split sum.split)
  show ?thesis
  proof (cases "broker_run C S 0 ?b")
    case None
    then show ?thesis using m broker_run_throws [of C S _ w _ _ ?b] by fastforce
  next
    case (Some r)
    from broker_run_returns [OF Some] obtain n u e where e: "after_rounds C S n w = Some u"
      "run_iteration C (S n) u = Some (Inl e)" "r = Inl e" by auto
    have "is_exception e"
      using run_iteration_steps [OF assms(1) steps_inv [OF after_rounds_steps [OF assms(1,3) e(1)]], of C n] e(2)
      by auto
    with e m Some show ?thesis by auto
  qed
qed

subsection \<open>Properties\<close>

text \<open>C21: How the program ends. When the initialisation of the server fails, \<open>main\<close> returns 1, and an exception
  from it is not caught. After that the program ends only by an exception of the core, from the poller
  or a connection event, in some round of the loop: then \<open>main\<close> returns 0, which is the code of success.
  The loop is never left in the regular way, since the only write to \<open>m_running\<close> is in the destructor,
  which runs after it; so without an exception the program does not return. The state before every
  round that is reached keeps the invariant, and from it the next round ends, throws, or hangs.\<close>

theorem main_outcome:
  assumes "\<And>n. server_ok (S n)"
    and "\<And>ok w. tcp_init (world_init now) = Inr (ok, w) \<Longrightarrow> steps (world_init now) w"
  shows "broker_main C tcp_init S now =
      (case tcp_init (world_init now) of
         Inl e \<Rightarrow> Some (Inl e)
       | Inr (ok, w) \<Rightarrow>
           if \<not> ok then Some (Inr 1)
           else if \<exists>n u e. after_rounds C S n w = Some u \<and> run_iteration C (S n) u = Some (Inl e) then Some (Inr 0)
           else None) \<and>
    (\<forall>ok w n u. tcp_init (world_init now) = Inr (ok, w) \<and> after_rounds C S n w = Some u \<longrightarrow>
      world_inv u \<and> evolves (world_init now) u \<and>
      (run_iteration C (S n) u = None \<or> (\<exists>w'. run_iteration C (S n) u = Some (Inr w')) \<or>
       (\<exists>e. run_iteration C (S n) u = Some (Inl e) \<and> is_exception e)))"
proof -
  have "broker_main C tcp_init S now =
      (case tcp_init (world_init now) of
         Inl e \<Rightarrow> Some (Inl e)
       | Inr (ok, w) \<Rightarrow>
           if \<not> ok then Some (Inr 1)
           else if \<exists>n u e. after_rounds C S n w = Some u \<and> run_iteration C (S n) u = Some (Inl e) then Some (Inr 0)
           else None)"
  proof (cases "tcp_init (world_init now)")
    case (Inl e)
    then show ?thesis by (simp add: broker_main_def broker_initialize_def Broker_new_def Let_def)
  next
    case (Inr q)
    show ?thesis
    proof (cases "fst q")
      case True
      then have t: "tcp_init (world_init now) = Inr (True, snd q)" using Inr by (cases q) simp
      show ?thesis using main_after_init [of S tcp_init now "snd q" C, OF assms(1) t assms(2) [OF t]] t by simp
    qed (use Inr in \<open>cases q, simp add: broker_main_def broker_initialize_def Broker_new_def Let_def\<close>)
  qed
  moreover have "world_inv u \<and> evolves (world_init now) u \<and>
      (run_iteration C (S n) u = None \<or> (\<exists>w'. run_iteration C (S n) u = Some (Inr w')) \<or>
       (\<exists>e. run_iteration C (S n) u = Some (Inl e) \<and> is_exception e))"
    if "tcp_init (world_init now) = Inr (ok, w)" "after_rounds C S n w = Some u" for ok w n u
    using after_rounds_steps [OF assms(1) assms(2) [OF that(1)] that(2)] run_iteration_steps [OF assms(1), of u C n]
    by (auto simp: steps_def)
  ultimately show ?thesis by blast
qed

text \<open>A server with no events, and one whose poller throws.\<close>

definition idle_server :: server where
  "idle_server = \<lparr>srv_poll = (\<lambda>t w. Inr ([], w)), srv_getServerFd = 3, srv_closeConnection = (\<lambda>fd w. Inr w),
      srv_newConnection = Inr, srv_SessionEvent = (\<lambda>fd w. Inr w)\<rparr>"

definition failing_server :: server where
  "failing_server = idle_server\<lparr>srv_poll := (\<lambda>t w. Inl (RuntimeError ''epoll''))\<rparr>"

lemma sample_servers_ok: "server_ok idle_server" "server_ok failing_server"
  by (simp_all add: server_ok_def idle_server_def failing_server_def steps_refl)

lemma idle_rounds: "after_rounds ref_core (\<lambda>_. idle_server) n (world_init 0) = Some (world_init 0)"
  "run_iteration ref_core idle_server (world_init 0) = Some (Inr (world_init 0))"
proof -
  have "processExpiredSessions (world_init 0) = Some (world_init 0)"
    by (simp add: processExpiredSessions_def expiry_scan_def while_option_done pq_top_None world_init_def)
  moreover have "processRetransmissions C (world_init 0) = Some (Inr (world_init 0))" for C
    by (rule processRetransmissions_blocked) (simp add: retransmit_ready_def pq_top_None world_init_def)
  ultimately show r: "run_iteration ref_core idle_server (world_init 0) = Some (Inr (world_init 0))"
    by (simp add: run_iteration_def idle_server_def)
  show "after_rounds ref_core (\<lambda>_. idle_server) n (world_init 0) = Some (world_init 0)"
    by (induction n) (simp_all add: r)
qed

theorem main_outcome_witness:
  "broker_main ref_core (\<lambda>w. Inr (False, w)) (\<lambda>_. idle_server) 0 = Some (Inr 1) \<and>
   broker_main ref_core (\<lambda>w. Inr (True, w)) (\<lambda>_. idle_server) 0 = None \<and>
   broker_main ref_core (\<lambda>w. Inr (True, w)) (\<lambda>n. if n = 3 then failing_server else idle_server) 0 = Some (Inr 0)"
proof -
  have s: "steps (world_init 0) (world_init 0)" by (rule steps_refl [OF world_inv_init]) simp
  let ?S = "\<lambda>n :: nat. if n = 3 then failing_server else idle_server"
  have a: "after_rounds ref_core ?S 3 (world_init 0) = Some (world_init 0)"
    by (simp add: eval_nat_numeral idle_rounds(2))
  have f: "run_iteration ref_core failing_server w = Some (Inl (RuntimeError ''epoll''))" for w
    by (simp add: run_iteration_def failing_server_def)
  have "broker_main ref_core (\<lambda>w. Inr (False, w)) (\<lambda>_. idle_server) 0 = Some (Inr 1)"
    using main_outcome [of "\<lambda>_. idle_server" "\<lambda>w. Inr (False, w)" 0 ref_core] sample_servers_ok s by auto
  moreover have "broker_main ref_core (\<lambda>w. Inr (True, w)) (\<lambda>_. idle_server) 0 = None"
    using main_outcome [of "\<lambda>_. idle_server" "\<lambda>w. Inr (True, w)" 0 ref_core] sample_servers_ok s by (auto simp: idle_rounds)
  moreover have "broker_main ref_core (\<lambda>w. Inr (True, w)) ?S 0 = Some (Inr 0)"
  proof -
    have "\<exists>n u e. after_rounds ref_core ?S n (world_init 0) = Some u \<and> run_iteration ref_core (?S n) u = Some (Inl e)"
      using a f [of "world_init 0"] by (intro exI [of _ 3] exI [of _ "world_init 0"] exI [of _ "RuntimeError ''epoll''"]) simp
    then show ?thesis
      using main_outcome [of ?S "\<lambda>w. Inr (True, w)" 0 ref_core] sample_servers_ok s by auto
  qed
  ultimately show ?thesis by blast
qed

end
