(* ===== verification/Locking.thy ===== *)
theory Locking
  imports Prelude
begin

text \<open>
  Threads and mutexes. A command says which mutexes a piece of the code takes and which shared fields
  it reads and writes, in the order and under the branches of the code; \<open>Guard m c\<close> is a block
  \<open>{ std::lock_guard lock(m); c }\<close>, which releases \<open>m\<close> on every way out. Threads run interleaved, one
  access or one mutex operation at a time. Loops may go on for ever. Proved once for every program: if
  mutexes are nested in increasing rank, no thread waits in a circle, and behind every thread that waits
  there is one that can go on; if every access follows a locking discipline, two threads are never about
  to make conflicting accesses to a protected field.
\<close>

subsection \<open>Commands\<close>

text \<open>
  \<open>At\<close> is an access to a \<open>std::atomic\<close>. \<open>Holding m c\<close> is a block that has taken its mutex. \<open>Loop c\<close> runs
  \<open>c\<close> any number of times, or for ever.
\<close>

datatype access = Rd | Wr | At

datatype ('m, 'v) cmd =
    Skip
  | Access access 'v
  | Seq "('m, 'v) cmd" "('m, 'v) cmd"
  | Choice "('m, 'v) cmd" "('m, 'v) cmd"
  | Loop "('m, 'v) cmd"
  | Guard 'm "('m, 'v) cmd"
  | Holding 'm "('m, 'v) cmd"

datatype ('m, 'v) action = Tau | Acc access 'v | Lock 'm | Unlock 'm

primrec seq_list :: "('m, 'v) cmd list \<Rightarrow> ('m, 'v) cmd" where
  "seq_list [] = Skip"
| "seq_list (c # cs) = Seq c (seq_list cs)"

primrec choice_list :: "('m, 'v) cmd list \<Rightarrow> ('m, 'v) cmd" where
  "choice_list [] = Skip"
| "choice_list (c # cs) = Choice c (choice_list cs)"

text \<open>The next action of a thread and what is left of it; the flag resolves a branch.\<close>

fun next_act :: "bool \<Rightarrow> ('m, 'v) cmd \<Rightarrow> (('m, 'v) action \<times> ('m, 'v) cmd) option" where
  "next_act b Skip = None"
| "next_act b (Access k v) = Some (Acc k v, Skip)"
| "next_act b (Seq c d) =
     (case next_act b c of None \<Rightarrow> Some (Tau, d) | Some (a, c') \<Rightarrow> Some (a, Seq c' d))"
| "next_act b (Choice c d) = Some (Tau, if b then c else d)"
| "next_act b (Loop c) = Some (Tau, if b then Seq c (Loop c) else Skip)"
| "next_act b (Guard m c) = Some (Lock m, Holding m c)"
| "next_act b (Holding m c) =
     (case next_act b c of None \<Rightarrow> Some (Unlock m, Skip) | Some (a, c') \<Rightarrow> Some (a, Holding m c'))"

lemma next_act_None: "next_act b c = None \<longleftrightarrow> c = Skip"
  by (cases c) (auto split: option.splits)

subsection \<open>Interleaving\<close>

record ('m, 'v) conf =
  owner :: "'m \<Rightarrow> nat option"
  threads :: "('m, 'v) cmd list"

definition start :: "('m, 'v) cmd list \<Rightarrow> ('m, 'v) conf" where
  "start cs = \<lparr>owner = (\<lambda>_. None), threads = cs\<rparr>"

text \<open>A \<open>std::mutex\<close> can be taken only while nobody owns it, not even the thread itself.\<close>

fun permitted :: "('m \<Rightarrow> nat option) \<Rightarrow> ('m, 'v) action \<Rightarrow> bool" where
  "permitted own (Lock m) = (own m = None)"
| "permitted own a = True"

fun owner_after :: "nat \<Rightarrow> ('m, 'v) action \<Rightarrow> ('m \<Rightarrow> nat option) \<Rightarrow> 'm \<Rightarrow> nat option" where
  "owner_after i (Lock m) own = own(m := Some i)"
| "owner_after i (Unlock m) own = own(m := None)"
| "owner_after i a own = own"

inductive thread_step :: "('m, 'v) conf \<Rightarrow> ('m, 'v) conf \<Rightarrow> bool" where
  step: "i < length (threads s) \<Longrightarrow> next_act b (threads s ! i) = Some (a, c) \<Longrightarrow> permitted (owner s) a \<Longrightarrow>
    thread_step s (s\<lparr>owner := owner_after i a (owner s), threads := (threads s)[i := c]\<rparr>)"

inductive_cases thread_stepE: "thread_step s s'"

abbreviation thread_steps :: "('m, 'v) conf \<Rightarrow> ('m, 'v) conf \<Rightarrow> bool" where
  "thread_steps \<equiv> thread_step\<^sup>*\<^sup>*"

text \<open>Two threads whose next accesses conflict and are not ordered by anything.\<close>

fun conflict :: "access \<Rightarrow> access \<Rightarrow> bool" where
  "conflict k k' \<longleftrightarrow> k = Wr \<or> k' = Wr"

definition about_to :: "('m, 'v) conf \<Rightarrow> nat \<Rightarrow> access \<Rightarrow> 'v \<Rightarrow> bool" where
  "about_to s i k v \<longleftrightarrow>
     i < length (threads s) \<and> (\<exists>b c. next_act b (threads s ! i) = Some (Acc k v, c))"

definition race :: "('m, 'v) conf \<Rightarrow> 'v \<Rightarrow> bool" where
  "race s v \<longleftrightarrow> (\<exists>i j k k'. i \<noteq> j \<and> about_to s i k v \<and> about_to s j k' v \<and> conflict k k')"

text \<open>A schedule names the thread of each step and the branch it takes.\<close>

fun play :: "(nat \<times> bool) list \<Rightarrow> ('m, 'v) conf \<Rightarrow> ('m, 'v) conf option" where
  "play [] s = Some s"
| "play ((i, b) # sch) s =
     (if i < length (threads s) then
        (case next_act b (threads s ! i) of
           None \<Rightarrow> None
         | Some (a, c) \<Rightarrow>
             if permitted (owner s) a
             then play sch (s\<lparr>owner := owner_after i a (owner s), threads := (threads s)[i := c]\<rparr>)
             else None)
      else None)"

lemma play_steps: "play sch s = Some s' \<Longrightarrow> thread_steps s s'"
proof (induction sch s rule: play.induct)
  case (2 i b sch s)
  then obtain a c where s: "i < length (threads s)" "next_act b (threads s ! i) = Some (a, c)"
      "permitted (owner s) a"
      "play sch (s\<lparr>owner := owner_after i a (owner s), threads := (threads s)[i := c]\<rparr>) = Some s'"
    by (auto split: if_split_asm option.split_asm)
  from 2(1) [OF s(1,2) refl s(3,4)] thread_step.step [OF s(1-3)] show ?case
    by (rule converse_rtranclp_into_rtranclp [rotated])
qed simp

lemma play_plus: "play sch s = Some s' \<Longrightarrow> sch \<noteq> [] \<Longrightarrow> thread_step\<^sup>+\<^sup>+ s s'"
proof (cases sch)
  case (Cons x sch')
  assume r: "play sch s = Some s'"
  obtain i b where x: "x = (i, b)" by (cases x)
  with r Cons obtain a c where s: "i < length (threads s)" "next_act b (threads s ! i) = Some (a, c)"
      "permitted (owner s) a"
      "play sch' (s\<lparr>owner := owner_after i a (owner s), threads := (threads s)[i := c]\<rparr>) = Some s'"
    by (auto split: if_split_asm option.split_asm)
  from thread_step.step [OF s(1-3)] play_steps [OF s(4)] show ?thesis by (rule rtranclp_into_tranclp2)
qed simp

subsection \<open>What a command holds\<close>

fun quiet :: "('m, 'v) cmd \<Rightarrow> bool" where
  "quiet (Seq c d) = (quiet c \<and> quiet d)"
| "quiet (Choice c d) = (quiet c \<and> quiet d)"
| "quiet (Loop c) = quiet c"
| "quiet (Guard m c) = quiet c"
| "quiet (Holding m c) = False"
| "quiet c = True"

fun holds :: "('m, 'v) cmd \<Rightarrow> 'm set" where
  "holds (Seq c d) = holds c"
| "holds (Holding m c) = insert m (holds c)"
| "holds c = {}"

fun ordered :: "('m \<Rightarrow> nat) \<Rightarrow> nat \<Rightarrow> ('m, 'v) cmd \<Rightarrow> bool" where
  "ordered rank r (Seq c d) = (ordered rank r c \<and> quiet d \<and> ordered rank r d)"
| "ordered rank r (Choice c d) = (quiet c \<and> quiet d \<and> ordered rank r c \<and> ordered rank r d)"
| "ordered rank r (Loop c) = (quiet c \<and> ordered rank r c)"
| "ordered rank r (Guard m c) = (r < rank m \<and> quiet c \<and> ordered rank (rank m) c)"
| "ordered rank r (Holding m c) = (r < rank m \<and> ordered rank (rank m) c)"
| "ordered rank r c = True"

fun guarded :: "(access \<Rightarrow> 'v \<Rightarrow> 'm set \<Rightarrow> bool) \<Rightarrow> 'm set \<Rightarrow> ('m, 'v) cmd \<Rightarrow> bool" where
  "guarded rule L Skip = True"
| "guarded rule L (Access k v) = rule k v L"
| "guarded rule L (Seq c d) = (guarded rule L c \<and> guarded rule L d)"
| "guarded rule L (Choice c d) = (guarded rule L c \<and> guarded rule L d)"
| "guarded rule L (Loop c) = guarded rule L c"
| "guarded rule L (Guard m c) = guarded rule (insert m L) c"
| "guarded rule L (Holding m c) = guarded rule (insert m L) c"

lemma quiet_holds: "quiet c \<Longrightarrow> holds c = {}"
  by (induction c) auto

lemma ordered_holds: "ordered rank r c \<Longrightarrow> m \<in> holds c \<Longrightarrow> r < rank m"
  by (induction c arbitrary: r) (auto dest: less_trans)

lemma ordered_next:
  "ordered rank r c \<Longrightarrow> next_act b c = Some (a, c') \<Longrightarrow> ordered rank r c'"
proof (induction b c arbitrary: r a c' rule: next_act.induct)
  case (7 b m c)
  then show ?case by (cases "next_act b c") auto
qed (auto split: option.split_asm)

lemma guarded_next:
  "guarded rule L c \<Longrightarrow> next_act b c = Some (a, c') \<Longrightarrow> guarded rule L c'"
proof (induction b c arbitrary: L a c' rule: next_act.induct)
  case (7 b m c)
  then show ?case by (cases "next_act b c") auto
qed (auto split: option.split_asm)

lemma guarded_access:
  "guarded rule L c \<Longrightarrow> next_act b c = Some (Acc k v, c') \<Longrightarrow> rule k v (L \<union> holds c)"
proof (induction b c arbitrary: L c' rule: next_act.induct)
  case (7 b m c)
  then obtain d where "next_act b c = Some (Acc k v, d)" by (cases "next_act b c") auto
  with 7(1) [of "insert m L" d] 7(2) show ?case by simp
qed (auto split: option.split_asm)

fun holds_after :: "('m, 'v) action \<Rightarrow> 'm set \<Rightarrow> 'm set" where
  "holds_after (Lock m) H = insert m H"
| "holds_after (Unlock m) H = H - {m}"
| "holds_after a H = H"

lemma unlock_held:
  "next_act b c = Some (Unlock m, c') \<Longrightarrow> m \<in> holds c"
  by (induction b c arbitrary: c' rule: next_act.induct) (auto split: option.split_asm)

lemma lock_above:
  "ordered rank r c \<Longrightarrow> next_act b c = Some (Lock m, c') \<Longrightarrow> r < rank m \<and> (\<forall>m' \<in> holds c. rank m' < rank m)"
proof (induction b c arbitrary: r c' rule: next_act.induct)
  case (7 b m' c)
  show ?case
  proof (cases "next_act b c")
    case None
    with 7(2,3) show ?thesis by (auto simp: next_act_None)
  next
    case (Some p)
    with 7(3) obtain d where "next_act b c = Some (Lock m, d)" by (cases p) auto
    with 7(1) [of "rank m'" d] 7(2) show ?thesis by (auto dest: less_trans)
  qed
qed (auto split: option.split_asm)

lemma holds_next:
  "ordered rank r c \<Longrightarrow> next_act b c = Some (a, c') \<Longrightarrow> holds c' = holds_after a (holds c)"
proof (induction b c arbitrary: r a c' rule: next_act.induct)
  case (7 b m c)
  show ?case
  proof (cases "next_act b c")
    case None
    with 7 show ?thesis by (auto simp: next_act_None)
  next
    case (Some p)
    obtain a' d where p: "p = (a', d)" by (cases p)
    with 7 Some have IH: "holds d = holds_after a' (holds c)" and a: "a = a'" "c' = Holding m d" by auto
    have "m' \<noteq> m" if "a' = Unlock m'" for m'
      using unlock_held [of b c m' d] ordered_holds [of rank "rank m" c m'] 7(2) Some p that by auto
    with IH a show ?thesis by (cases a') auto
  qed
qed (auto simp: quiet_holds next_act_None split: option.split_asm)

text \<open>Who waits for which mutex and for whom, and who can go on.\<close>

definition waits :: "('m, 'v) conf \<Rightarrow> nat \<Rightarrow> 'm \<Rightarrow> bool" where
  "waits s i m \<longleftrightarrow>
     i < length (threads s) \<and> (\<exists>c. next_act True (threads s ! i) = Some (Lock m, c)) \<and> owner s m \<noteq> None"

definition blocked_by :: "('m, 'v) conf \<Rightarrow> nat \<Rightarrow> nat \<Rightarrow> bool" where
  "blocked_by s i j \<longleftrightarrow> (\<exists>m. waits s i m \<and> owner s m = Some j)"

definition can_step :: "('m, 'v) conf \<Rightarrow> nat \<Rightarrow> bool" where
  "can_step s i \<longleftrightarrow> i < length (threads s) \<and>
     (\<exists>b a c. next_act b (threads s ! i) = Some (a, c) \<and> permitted (owner s) a)"

subsection \<open>Lock order and locking discipline\<close>

text \<open>
  What the programs of a system promise: mutexes nested in increasing rank, and every access made
  under locks the discipline allows, where the discipline lets no two conflicting accesses to a
  protected field be made under disjoint locks.
\<close>

locale lock_order =
  fixes rank :: "'m \<Rightarrow> nat" and code :: "('m, 'v) cmd set"
  assumes code_quiet: "c \<in> code \<Longrightarrow> quiet c"
    and code_ordered: "c \<in> code \<Longrightarrow> ordered rank 0 c"
begin

definition lock_inv :: "('m, 'v) conf \<Rightarrow> bool" where
  "lock_inv s \<longleftrightarrow>
     (\<forall>c \<in> set (threads s). ordered rank 0 c) \<and>
     (\<forall>m i. owner s m = Some i \<longleftrightarrow> i < length (threads s) \<and> m \<in> holds (threads s ! i))"

lemma lock_inv_start: "set cs \<subseteq> code \<Longrightarrow> lock_inv (start cs)"
proof -
  assume cs: "set cs \<subseteq> code"
  then have "holds (cs ! i) = {}" if "i < length cs" for i
    using quiet_holds [OF code_quiet] nth_mem [OF that] by blast
  with cs code_ordered show ?thesis by (auto simp: lock_inv_def start_def)
qed

lemma lock_inv_step:
  assumes "thread_step s s'" and inv: "lock_inv s"
  shows "lock_inv s'"
  using assms(1)
proof (rule thread_stepE)
  fix i b a c
  assume s': "s' = s\<lparr>owner := owner_after i a (owner s), threads := (threads s)[i := c]\<rparr>"
    and i: "i < length (threads s)" and n: "next_act b (threads s ! i) = Some (a, c)"
    and p: "permitted (owner s) a"
  have o: "ordered rank 0 (threads s ! i)" using inv i by (simp add: lock_inv_def)
  have own: "owner s m = Some j \<longleftrightarrow> j < length (threads s) \<and> m \<in> holds (threads s ! j)" for m j
    using inv by (simp add: lock_inv_def)
  have "owner_after i a (owner s) m = Some j \<longleftrightarrow>
      j < length (threads s) \<and> m \<in> holds ((threads s)[i := c] ! j)" for m j
  proof -
    have h: "m \<in> holds ((threads s)[i := c] ! j) \<longleftrightarrow>
        m \<in> (if j = i then holds_after a (holds (threads s ! i)) else holds (threads s ! j))"
      using holds_next [OF o n] i by simp
    have u: "owner s m' = Some i" if "a = Unlock m'" for m'
      using own [of m' i] unlock_held [of b "threads s ! i" m' c] n i that by simp
    show ?thesis unfolding h
      using p own [of m j] i by (cases a) (auto dest: u)
  qed
  moreover have "\<forall>d \<in> set ((threads s)[i := c]). ordered rank 0 d"
    using inv ordered_next [OF o n] set_update_subset_insert [of "threads s" i c]
    unfolding lock_inv_def by blast
  ultimately show ?thesis by (simp add: lock_inv_def s')
qed

lemma lock_inv_run: "thread_steps s s' \<Longrightarrow> lock_inv s \<Longrightarrow> lock_inv s'"
  by (induction rule: rtranclp_induct) (auto intro: lock_inv_step)

lemma mutual_exclusion:
  assumes "lock_inv s" and "i < length (threads s)" and "j < length (threads s)" and "i \<noteq> j"
  shows "holds (threads s ! i) \<inter> holds (threads s ! j) = {}"
  using assms by (auto simp: lock_inv_def) (metis option.inject)

lemma unlocked_when_done:
  "lock_inv s \<Longrightarrow> \<forall>c \<in> set (threads s). c = Skip \<Longrightarrow> owner s = (\<lambda>_. None)"
  by (rule ext) (metis empty_iff holds.simps(3) lock_inv_def not_None_eq nth_mem)

lemma can_step_step: "can_step s i \<Longrightarrow> \<exists>s'. thread_step s s'"
  unfolding can_step_def using thread_step.step by blast

lemma waits_or_steps:
  assumes "i < length (threads s)" and "threads s ! i \<noteq> Skip"
  shows "can_step s i \<or> (\<exists>m. waits s i m)"
proof -
  obtain a c where n: "next_act True (threads s ! i) = Some (a, c)"
    using assms(2) next_act_None by fastforce
  show ?thesis
  proof (cases "permitted (owner s) a")
    case True
    with n assms(1) have "can_step s i" unfolding can_step_def by blast
    then show ?thesis ..
  next
    case False
    with n assms(1) show ?thesis by (cases a) (auto simp: waits_def)
  qed
qed

lemma waits_unique: "waits s i m \<Longrightarrow> waits s i m' \<Longrightarrow> m' = m"
  by (auto simp: waits_def)

text \<open>The owner of the mutex that a thread waits for, if it waits itself, waits for one of greater rank.\<close>

lemma owner_waits_above:
  assumes "lock_inv s" and "waits s i m" and "owner s m = Some j" and "waits s j m'"
  shows "rank m < rank m'"
proof -
  have "m \<in> holds (threads s ! j)" "ordered rank 0 (threads s ! j)"
    using assms(1,3,4) by (auto simp: lock_inv_def waits_def)
  with assms(4) show ?thesis using lock_above by (fastforce simp: waits_def)
qed

lemma blocked_chain_above:
  assumes "(blocked_by s)\<^sup>+\<^sup>+ i j" and "lock_inv s" and "waits s i m" and "waits s j m'"
  shows "rank m < rank m'"
  using assms(1,4)
proof (induction arbitrary: m' rule: tranclp_induct)
  case (base j)
  then show ?case
    using owner_waits_above [OF assms(2,3)] waits_unique [OF assms(3)] by (auto simp: blocked_by_def)
next
  case (step j k)
  then obtain n where n: "waits s j n" "owner s n = Some k" by (auto simp: blocked_by_def)
  from step.IH [OF n(1)] owner_waits_above [OF assms(2) n step.prems] show ?case by simp
qed

lemma no_circle: "lock_inv s \<Longrightarrow> \<not> (blocked_by s)\<^sup>+\<^sup>+ i i"
proof
  assume inv: "lock_inv s" and c: "(blocked_by s)\<^sup>+\<^sup>+ i i"
  then obtain j where "blocked_by s i j" by (meson tranclpD)
  then obtain m where "waits s i m" by (auto simp: blocked_by_def)
  from blocked_chain_above [OF c inv this this] show False by simp
qed

lemma waits_bounded: "\<exists>R. \<forall>i m. waits s i m \<longrightarrow> rank m \<le> R"
proof -
  let ?W = "{rank m |i m. waits s i m}"
  have "?W \<subseteq> (\<lambda>i. rank (THE m. waits s i m)) ` {..<length (threads s)}"
  proof
    fix r assume "r \<in> ?W"
    then obtain i m where r: "r = rank m" "waits s i m" by blast
    have "(THE m. waits s i m) = m" by (rule the_equality) (fact r(2), rule waits_unique [OF r(2)])
    moreover have "i < length (threads s)" using r(2) by (simp add: waits_def)
    ultimately show "r \<in> (\<lambda>i. rank (THE m. waits s i m)) ` {..<length (threads s)}" using r(1) by force
  qed
  then have "finite ?W" by (rule finite_subset) simp
  then have "\<forall>r \<in> ?W. r \<le> Max ?W" by simp
  then show ?thesis by blast
qed

text \<open>Behind every thread that is not through there is one that can go on.\<close>

lemma chain_to_step:
  assumes inv: "lock_inv s" and i: "i < length (threads s)" "threads s ! i \<noteq> Skip"
  shows "\<exists>j. (blocked_by s)\<^sup>*\<^sup>* i j \<and> can_step s j"
proof -
  obtain R where R: "\<And>i m. waits s i m \<Longrightarrow> rank m \<le> R" using waits_bounded by blast
  have "\<exists>j. (blocked_by s)\<^sup>*\<^sup>* i j \<and> can_step s j" if "waits s i m" for i m
    using that
  proof (induction "R - rank m" arbitrary: i m rule: less_induct)
    case less
    obtain j where j: "owner s m = Some j" using less.prems by (auto simp: waits_def)
    then have b: "blocked_by s i j" using less.prems by (auto simp: blocked_by_def)
    have jl: "j < length (threads s)" "m \<in> holds (threads s ! j)" using inv j by (auto simp: lock_inv_def)
    then have "threads s ! j \<noteq> Skip" by auto
    from waits_or_steps [OF jl(1) this] show ?case
    proof
      assume "can_step s j"
      with b show ?thesis by blast
    next
      assume "\<exists>m'. waits s j m'"
      then obtain m' where m': "waits s j m'" by blast
      from owner_waits_above [OF inv less.prems j m'] R [OF m'] have "R - rank m' < R - rank m" by linarith
      from less.hyps [OF this m'] b show ?thesis by (meson converse_rtranclp_into_rtranclp)
    qed
  qed
  with waits_or_steps [OF i] show ?thesis by blast
qed

lemma stuck_done:
  assumes "lock_inv s" and "\<nexists>s'. thread_step s s'"
  shows "\<forall>c \<in> set (threads s). c = Skip"
  using chain_to_step [OF assms(1)] assms(2) can_step_step by (metis in_set_conv_nth)

end

locale lock_discipline = lock_order rank code
  for rank :: "'m \<Rightarrow> nat" and code :: "('m, 'v) cmd set" +
  fixes rule :: "access \<Rightarrow> 'v \<Rightarrow> 'm set \<Rightarrow> bool" and protected :: "'v \<Rightarrow> bool"
  assumes code_guarded: "c \<in> code \<Longrightarrow> guarded rule {} c"
    and rule_excludes: "protected v \<Longrightarrow> conflict k k' \<Longrightarrow> rule k v L \<Longrightarrow> rule k' v L' \<Longrightarrow> L \<inter> L' \<noteq> {}"
begin

lemma guarded_step:
  assumes "thread_step s s'" and "\<forall>c \<in> set (threads s). guarded rule {} c"
  shows "\<forall>c \<in> set (threads s'). guarded rule {} c"
  using assms(1)
proof (rule thread_stepE)
  fix i b a c
  assume s': "s' = s\<lparr>owner := owner_after i a (owner s), threads := (threads s)[i := c]\<rparr>"
    and i: "i < length (threads s)" and n: "next_act b (threads s ! i) = Some (a, c)"
  have "guarded rule {} c" using guarded_next [OF _ n] assms(2) i by simp
  then show ?thesis 
    using assms(2) set_update_subset_insert [of "threads s" i c] by (auto simp: s')
qed

lemma guarded_run:
  "thread_steps s s' \<Longrightarrow> \<forall>c \<in> set (threads s). guarded rule {} c \<Longrightarrow> \<forall>c \<in> set (threads s'). guarded rule {} c"
  by (induction rule: rtranclp_induct) (auto dest: guarded_step)

lemma access_rule:
  assumes "\<forall>c \<in> set (threads s). guarded rule {} c" and "about_to s i k v"
  shows "rule k v (holds (threads s ! i))"
  using assms guarded_access [of rule "{}" "threads s ! i"] by (fastforce simp: about_to_def)

lemma no_race:
  assumes "set cs \<subseteq> code" and "thread_steps (start cs) s" and "protected v"
  shows "\<not> race s v"
proof
  assume "race s v"
  then obtain i j k k' where r: "i \<noteq> j" "about_to s i k v" "about_to s j k' v" "conflict k k'"
    by (auto simp: race_def)
  have g: "\<forall>c \<in> set (threads s). guarded rule {} c"
    using guarded_run [OF assms(2)] assms(1) code_guarded by (auto simp: start_def)
  have "lock_inv s" using lock_inv_run [OF assms(2) lock_inv_start [OF assms(1)]] .
  then have "holds (threads s ! i) \<inter> holds (threads s ! j) = {}"
    using mutual_exclusion r(1-3) by (simp add: about_to_def)
  with rule_excludes [OF assms(3) r(4) access_rule [OF g r(2)] access_rule [OF g r(3)]]
  show False by blast
qed

end

subsection \<open>Driving one thread to an access\<close>

text \<open>
  Thread \<open>i\<close> alone takes its next steps until it is about to access \<open>v\<close>; the list resolves its branches
  (the first branch once the list is used up) and \<open>n\<close> bounds the number of steps.
\<close>

fun branches :: "('m, 'v) cmd \<Rightarrow> bool" where
  "branches (Choice c d) = True"
| "branches (Loop c) = True"
| "branches (Seq c d) = branches c"
| "branches (Holding m c) = branches c"
| "branches c = False"

fun run_to :: "nat \<Rightarrow> nat \<Rightarrow> access \<Rightarrow> 'v \<Rightarrow> bool list \<Rightarrow> ('m, 'v) conf \<Rightarrow> ('m, 'v) conf option" where
  "run_to 0 i k v bs s = None"
| "run_to (Suc n) i k v bs s =
     (case next_act (bs \<noteq> [] \<longrightarrow> hd bs) (threads s ! i) of
        None \<Rightarrow> None
      | Some (a, c) \<Rightarrow>
          if a = Acc k v then Some s
          else if permitted (owner s) a then
            run_to n i k v (if branches (threads s ! i) then tl bs else bs)
              (s\<lparr>owner := owner_after i a (owner s), threads := (threads s)[i := c]\<rparr>)
          else None)"

lemma run_to_steps:
  assumes "run_to n i k v bs s = Some t" and "i < length (threads s)"
  shows "thread_steps s t \<and> about_to t i k v \<and> length (threads t) = length (threads s) \<and>
    (\<forall>j. j \<noteq> i \<longrightarrow> threads t ! j = threads s ! j)"
  using assms
proof (induction n arbitrary: bs s)
  case (Suc n)
  let ?b = "bs \<noteq> [] \<longrightarrow> hd bs"
  obtain a c where n: "next_act ?b (threads s ! i) = Some (a, c)"
    using Suc.prems(1) by (auto split: option.split_asm)
  show ?case
  proof (cases "a = Acc k v")
    case True
    with n Suc.prems show ?thesis by (auto simp: about_to_def)
  next
    case False
    let ?s = "s\<lparr>owner := owner_after i a (owner s), threads := (threads s)[i := c]\<rparr>"
    have p: "permitted (owner s) a"
      and r: "run_to n i k v (if branches (threads s ! i) then tl bs else bs) ?s = Some t"
      using n False Suc.prems(1) by (auto split: if_split_asm)
    have "thread_step s ?s" by (rule thread_step.step [OF Suc.prems(2) n p])
    with Suc.IH [OF r] Suc.prems(2) show ?thesis by (auto intro: converse_rtranclp_into_rtranclp)
  qed
qed simp

definition drives_to :: "nat \<Rightarrow> ('m, 'v) cmd \<Rightarrow> ('m, 'v) cmd \<Rightarrow> 'v \<Rightarrow> access \<Rightarrow> bool list \<Rightarrow> access \<Rightarrow> bool list \<Rightarrow> bool" where
  "drives_to n c d v k bs k' bs' \<longleftrightarrow>
     (case run_to n 0 k v bs (start [c, d]) of
        None \<Rightarrow> False
      | Some s \<Rightarrow> run_to n 1 k' v bs' s \<noteq> None)"

lemma drives_to_race:
  assumes "drives_to n c d v k bs k' bs'" and "conflict k k'"
  shows "\<exists>s. thread_steps (start [c, d]) s \<and> race s v"
proof -
  from assms(1) obtain s t where s: "run_to n 0 k v bs (start [c, d]) = Some s" "run_to n 1 k' v bs' s = Some t"
    by (auto simp: drives_to_def split: option.split_asm)
  note 1 = run_to_steps [OF s(1)]
  have l: "length (threads s) = 2" using 1 by (simp add: start_def)
  note 2 = run_to_steps [OF s(2)]
  have "about_to t 0 k v" using 1 2 l by (auto simp: about_to_def start_def)
  moreover have "about_to t 1 k' v" using 2 l by simp
  moreover have "thread_steps (start [c, d]) t" using 1 2 l by (auto simp: start_def)
  ultimately show ?thesis using assms(2) unfolding race_def by (metis zero_neq_one)
qed

end
