(* ===== verification/Lock_Programs.thy ===== *)
theory Lock_Programs
  imports Locking Topic_Tree
begin

text \<open>
  The locking of the broker: for every operation of the tree, the session manager, the handlers and
  the event loop, the mutexes it takes and the shared fields it accesses, as a command of Locking.
  Client sessions and transports are numbers, nodes are paths. What a run reads (which nodes a topic
  reaches, which subscribers are found) is an argument, so that a statement for all arguments covers
  every run; a branch on anything else is a \<open>Choice\<close>, and a \<open>while\<close> is a \<open>Loop\<close>. Fields of an object
  that is not published yet (a session before \<open>addToRegistry\<close>, a node before its link) are not shared.
\<close>

subsection \<open>Mutexes and shared fields\<close>

text \<open>\<open>core_mutex t\<close> stands for whatever \<open>pushDataToSend\<close> of the core takes for transport \<open>t\<close>.\<close>

datatype mutex =
    m_sessionsRWMutex
  | m_recvBuffMutex nat
  | m_registryMutex
  | m_expiryMutex
  | m_retransmitMutex
  | inflight_mutex nat
  | inflight_ack_mutex nat
  | msg_q_mutex nat
  | links_mutex path
  | subscribers_mutex path
  | core_mutex nat

datatype shared =
    sh_sessions
  | sh_recvBuff nat
  | sh_sessionRegistry
  | sh_expiryHeap
  | sh_retransmitHeap
  | sh_inflight nat
  | sh_inflight_ack nat
  | sh_message_queue nat
  | sh_links path
  | sh_subscribers path
  | sh_client_id nat
  | sh_transport_client_id nat
  | sh_keep_alive nat
  | sh_cleansession nat
  | sh_connected nat
  | sh_session nat
  | sh_next_packet_id nat
  | sh_last_activity nat
  | sh_expiry_ms nat
  | sh_core nat

type_synonym prog = "(mutex, shared) cmd"

text \<open>\<open>sh_client_id\<close> is \<open>ClientSession::client_id\<close>, \<open>sh_transport_client_id\<close> is \<open>MqttSession::client_id\<close>.\<close>

text \<open>A branch without an \<open>else\<close>.\<close>

abbreviation When :: "('m, 'v) cmd \<Rightarrow> ('m, 'v) cmd" where
  "When c \<equiv> Choice c Skip"

subsection \<open>Client sessions\<close>

definition allocatePacketId_sync :: "nat \<Rightarrow> prog" where
  "allocatePacketId_sync cs = Seq (Access Wr (sh_next_packet_id cs)) (When (Access Wr (sh_next_packet_id cs)))"

definition storeInflight_sync :: "nat \<Rightarrow> prog" where
  "storeInflight_sync cs = Guard (inflight_mutex cs) (Access Wr (sh_inflight cs))"

definition storeInflightAcknowlegement_sync :: "nat \<Rightarrow> prog" where
  "storeInflightAcknowlegement_sync cs = Guard (inflight_ack_mutex cs) (Access Wr (sh_inflight_ack cs))"

definition removeFromInflight_sync :: "nat \<Rightarrow> prog" where
  "removeFromInflight_sync cs =
     Guard (inflight_mutex cs) (Seq (Access Rd (sh_inflight cs)) (When (Access Wr (sh_inflight cs))))"

definition removeFromInflightAcknowlegement_sync :: "nat \<Rightarrow> prog" where
  "removeFromInflightAcknowlegement_sync cs =
     Guard (inflight_ack_mutex cs) (Seq (Access Rd (sh_inflight_ack cs)) (When (Access Wr (sh_inflight_ack cs))))"

definition getPacket_sync :: "bool \<Rightarrow> nat \<Rightarrow> prog" where
  "getPacket_sync publish cs =
     (if publish then Guard (inflight_mutex cs) (Access Rd (sh_inflight cs))
      else Guard (inflight_ack_mutex cs) (Access Rd (sh_inflight_ack cs)))"

definition storeMessage_sync :: "nat \<Rightarrow> prog" where
  "storeMessage_sync cs = Guard (msg_q_mutex cs) (Access Wr (sh_message_queue cs))"

subsection \<open>Topic tree\<close>

definition ispresent_sync :: "path \<Rightarrow> prog" where
  "ispresent_sync n = Guard (links_mutex n) (Access Rd (sh_links n))"

text \<open>The destructor of a node: its fields and all below it, with none of their mutexes.\<close>

fun destroy_sync :: "path \<Rightarrow> Node \<Rightarrow> prog" where
  "destroy_sync n (Node l ls ss) =
     seq_list (Access Wr (sh_links n) # Access Wr (sh_subscribers n) #
       map (\<lambda>(topic, child). destroy_sync (n @ [topic]) child) ls)"

text \<open>\<open>old\<close> is the child that another thread has added under the same name since \<open>ispresent\<close> was asked.\<close>

definition addLink_sync :: "path \<Rightarrow> string \<Rightarrow> Node option \<Rightarrow> prog" where
  "addLink_sync n str old =
     Guard (links_mutex n)
       (Seq (Access Wr (sh_links n)) (case old of None \<Rightarrow> Skip | Some child \<Rightarrow> destroy_sync (n @ [str]) child))"

text \<open>\<open>links[str]\<close> of a key that is not there inserts it.\<close>

definition getLink_sync :: "path \<Rightarrow> prog" where
  "getLink_sync n = Guard (links_mutex n) (Seq (Access Rd (sh_links n)) (When (Access Wr (sh_links n))))"

definition getLinkTopics_sync :: "path \<Rightarrow> prog" where
  "getLinkTopics_sync n = Guard (links_mutex n) (Access Rd (sh_links n))"

definition node_subscribe_sync :: "nat \<Rightarrow> path \<Rightarrow> prog" where
  "node_subscribe_sync cs n =
     Guard (subscribers_mutex n) (Seq (Access Rd (sh_client_id cs)) (Access Wr (sh_subscribers n)))"

definition node_unsubscribe_sync :: "nat \<Rightarrow> path \<Rightarrow> prog" where
  "node_unsubscribe_sync cs n =
     Guard (subscribers_mutex n)
       (seq_list [Access Rd (sh_client_id cs), Access Rd (sh_subscribers n),
                  When (Seq (Access Rd (sh_client_id cs)) (Access Wr (sh_subscribers n)))])"

text \<open>
  The walks follow \<open>handleWildCard\<close> and \<open>getNode\<close> of Topic_Tree: the links of each node are what
  \<open>getLinkTopics\<close> answered when the walk came to it.
\<close>

fun handleWildCard_sync :: "path \<Rightarrow> Node \<Rightarrow> prog" where
  "handleWildCard_sync n (Node l ls ss) =
     seq_list (map (\<lambda>(sub_topic, nextLink).
       seq_list [getLink_sync n, getLinkTopics_sync (n @ [sub_topic]),
                 handleWildCard_sync (n @ [sub_topic]) nextLink]) ls)"

text \<open>What a walk meets: the tree it finds, and the children that its calls of \<open>addLink\<close> destroy.\<close>

type_synonym met = "Node \<times> (path \<Rightarrow> Node option)"

primrec getNode_sync :: "(path \<Rightarrow> Node option) \<Rightarrow> string list \<Rightarrow> path \<Rightarrow> Node \<Rightarrow> prog" where
  "getNode_sync old [] = (\<lambda>n root. Skip)"
| "getNode_sync old (w # ws) = (\<lambda>n root.
     if w = ''+'' \<or> w = ''#'' then
       Seq (getLinkTopics_sync n)
         (if w = ''+''
          then seq_list (map (\<lambda>(topic, child). Seq (getLink_sync n) (getNode_sync old ws (n @ [topic]) child)) (links root))
          else handleWildCard_sync n root)
     else
       seq_list [ispresent_sync n, (if ispresent root w then Skip else addLink_sync n w (old (n @ [w]))), getLink_sync n,
                 getNode_sync old ws (n @ [w]) (case getLink root w of None \<Rightarrow> new_node w | Some c \<Rightarrow> c)])"

text \<open>\<open>match\<close> reads \<open>node->subscribers\<close> without \<open>subscribers_mutex\<close>, as often as there are subscribers.\<close>

definition match_sync :: "string \<Rightarrow> met \<Rightarrow> prog" where
  "match_sync topic = (\<lambda>(m_root, old).
     Seq (getNode_sync old (split topic) [] m_root)
       (seq_list (map (\<lambda>node. Seq (Access Rd (sh_subscribers node)) (Loop (Access Rd (sh_subscribers node))))
          (snd (getNode (split topic) m_root)))))"



subsection \<open>Session manager\<close>

definition addSession_sync :: prog where
  "addSession_sync = Guard m_sessionsRWMutex (Access Wr sh_sessions)"

definition removeSession_sync :: prog where
  "removeSession_sync = Guard m_sessionsRWMutex (Access Wr sh_sessions)"

definition forceDisconnect_sync :: prog where
  "forceDisconnect_sync = removeSession_sync"

definition sessionPresent_sync :: prog where
  "sessionPresent_sync = Guard m_registryMutex (Access Rd sh_sessionRegistry)"

definition removeFromRegistry_sync :: prog where
  "removeFromRegistry_sync =
     Guard m_registryMutex (Seq (Access Rd sh_sessionRegistry) (When (Access Wr sh_sessionRegistry)))"

definition addToRegistry_sync :: "nat \<Rightarrow> prog" where
  "addToRegistry_sync cs =
     Guard m_registryMutex (Seq (Access Rd (sh_client_id cs)) (Access Wr sh_sessionRegistry))"

definition updateActivity_sync :: "nat \<Rightarrow> prog" where
  "updateActivity_sync cs =
     Seq sessionPresent_sync (When (Guard m_registryMutex (Access At (sh_last_activity cs))))"

definition scheduleExpiry_sync :: "nat \<Rightarrow> prog" where
  "scheduleExpiry_sync cs =
     Seq (Access Rd (sh_keep_alive cs))
       (When (seq_list [Access At (sh_last_activity cs), Access Rd (sh_keep_alive cs),
                        Access At (sh_expiry_ms cs),
                        Guard m_expiryMutex (Access Wr sh_expiryHeap)]))"

definition getNextTimeoutMs_sync :: prog where
  "getNextTimeoutMs_sync =
     Guard m_expiryMutex (Seq (Access Rd sh_expiryHeap) (When (Access Rd sh_expiryHeap)))"

text \<open>The rest of a pass of the first loop of \<open>processExpiredSessions\<close> over an entry whose session is there.\<close>

definition expiry_entry_sync :: "nat \<Rightarrow> prog" where
  "expiry_entry_sync cs =
     seq_list [Access At (sh_last_activity cs), Access Rd (sh_keep_alive cs),
               When (Access Rd (sh_connected cs)), Access Wr sh_expiryHeap]"

definition disconnect_expired_sync :: "nat \<Rightarrow> prog" where
  "disconnect_expired_sync cs =
     Seq (Access Rd (sh_session cs))
       (When (seq_list [forceDisconnect_sync, Access Rd (sh_cleansession cs),
                Choice (Seq (Access Rd (sh_client_id cs)) removeFromRegistry_sync)
                       (Access Wr (sh_connected cs))]))"

text \<open>
  The scan of the heap is a loop: each pass reads the top and, when the entry is due, takes it off if
  its session (one of \<open>due\<close>) is there and does nothing if it is not. The other two are the lists the
  code collects.
\<close>

definition processExpiredSessions_sync :: "nat list \<Rightarrow> nat list \<Rightarrow> nat list \<Rightarrow> prog" where
  "processExpiredSessions_sync due to_disconnect new_entries =
     seq_list [Guard m_expiryMutex
                 (seq_list [Loop (seq_list [Access Rd sh_expiryHeap, Access Rd sh_expiryHeap,
                                            choice_list (map expiry_entry_sync due)]),
                            Access Rd sh_expiryHeap, When (Access Rd sh_expiryHeap)]),
               seq_list (map disconnect_expired_sync to_disconnect),
               seq_list (map scheduleExpiry_sync new_entries)]"

definition scheduleRetransmission_sync :: prog where
  "scheduleRetransmission_sync = Guard m_retransmitMutex (Access Wr sh_retransmitHeap)"

text \<open>
  \<open>push t\<close> is what \<open>pushDataToSend\<close> of the core does for transport \<open>t\<close>. A session comes with the
  transport that its \<open>weak_ptr\<close> gives.
\<close>

definition sendToClient_sync :: "(nat \<Rightarrow> prog) \<Rightarrow> nat \<times> nat \<Rightarrow> prog" where
  "sendToClient_sync push = (\<lambda>(session, transport).
     seq_list [When (seq_list [allocatePacketId_sync session, storeInflight_sync session,
                               scheduleRetransmission_sync]),
               Access Rd (sh_session session), When (push transport)])"

definition route_to_sync :: "(nat \<Rightarrow> prog) \<Rightarrow> nat \<times> nat \<Rightarrow> prog" where
  "route_to_sync push sub =
     When (Seq (Access Rd (sh_connected (fst sub)))
            (Choice (When (storeMessage_sync (fst sub))) (sendToClient_sync push sub)))"

text \<open>A routed PUBLISH: its topic, the tree it meets and the subscribers found.\<close>

type_synonym routing = "string \<times> met \<times> (nat \<times> nat) list"

definition routePacket_sync :: "(nat \<Rightarrow> prog) \<Rightarrow> routing \<Rightarrow> prog" where
  "routePacket_sync push = (\<lambda>(topic, met, subs).
     Seq (match_sync topic met) (seq_list (map (route_to_sync push) subs)))"

text \<open>\<open>None\<close>: an acknowledgement is sent to the client again; otherwise the PUBLISH is routed again.\<close>

definition retransmit_entry_sync :: "(nat \<Rightarrow> prog) \<Rightarrow> nat \<times> nat \<times> routing option \<Rightarrow> prog" where
  "retransmit_entry_sync push = (\<lambda>(cs, transport, r).
     seq_list [Access Rd sh_retransmitHeap, Access Rd sh_retransmitHeap, getPacket_sync (r \<noteq> None) cs,
               (case r of
                  Some routing \<Rightarrow> routePacket_sync push routing
                | None \<Rightarrow> Seq (Access Rd (sh_session cs)) (When (push transport))),
               Access Wr sh_retransmitHeap])"

text \<open>Each pass of the loop is for one of \<open>entries\<close>; the last stops at an entry that is not due, has no session
  or no packet, or at the end.\<close>

definition processRetransmissions_sync :: "(nat \<Rightarrow> prog) \<Rightarrow> (nat \<times> nat \<times> routing option) list \<Rightarrow> bool \<times> nat \<Rightarrow> prog" where
  "processRetransmissions_sync push entries stop =
     Guard m_registryMutex
       (seq_list [Loop (choice_list (map (retransmit_entry_sync push) entries)), Access Rd sh_retransmitHeap,
                  When (Seq (Access Rd sh_retransmitHeap) (When (getPacket_sync (fst stop) (snd stop))))])"



subsection \<open>Handlers\<close>

text \<open>
  \<open>me\<close> is the client session registered under the transport's client id and \<open>t\<close> the transport of the
  task. For CONNECT, \<open>found\<close> is the session \<open>sessionPresent\<close> returned with its old transport, \<open>fresh\<close> the
  number \<open>make_shared\<close> would give, and the two numbers how many packets are in flight.
\<close>

definition getClientId_sync :: "nat \<Rightarrow> prog" where
  "getClientId_sync t = Access Rd (sh_transport_client_id t)"

definition resendMessages_sync :: "(nat \<Rightarrow> prog) \<Rightarrow> nat \<Rightarrow> prog" where
  "resendMessages_sync push mqtt_session = When (push mqtt_session)"

definition resume_session_sync :: "(nat \<Rightarrow> prog) \<Rightarrow> nat \<Rightarrow> nat \<Rightarrow> nat \<times> nat \<Rightarrow> prog" where
  "resume_session_sync push cs old_session n =
     Seq (Access Rd (sh_session cs))
       (When (Seq
          (Guard (inflight_mutex cs)
            (Seq (Access Rd (sh_inflight cs)) (seq_list (replicate (fst n) (resendMessages_sync push old_session)))))
          (Guard (inflight_ack_mutex cs)
            (Seq (Access Rd (sh_inflight_ack cs)) (seq_list (replicate (snd n) (resendMessages_sync push old_session)))))))"

definition connectHandler_sync ::
    "(nat \<Rightarrow> prog) \<Rightarrow> (nat \<times> nat) option \<Rightarrow> bool \<Rightarrow> nat \<Rightarrow> nat \<times> nat \<Rightarrow> prog" where
  "connectHandler_sync push found cleansession fresh n =
     Seq sessionPresent_sync
       (case found of
          None \<Rightarrow> When (Seq (addToRegistry_sync fresh) (scheduleExpiry_sync fresh))
        | Some (cs, old_session) \<Rightarrow>
            seq_list
              [Access Rd (sh_connected cs),
               When (seq_list [Access Rd (sh_session cs), When forceDisconnect_sync,
                               Access Wr (sh_connected cs)]),
               (if cleansession then
                  Seq removeFromRegistry_sync
                    (When (Seq (addToRegistry_sync fresh) (scheduleExpiry_sync fresh)))
                else
                  seq_list [resume_session_sync push cs old_session n,
                            Access Wr (sh_client_id cs), Access Wr (sh_keep_alive cs),
                            Access Wr (sh_cleansession cs), When (Access Wr (sh_connected cs))])])"











subsection \<open>Tasks and the event loop\<close>

text \<open>\<open>handle\<close> is the handler the table gives; \<open>me\<close> the session of an undecodable packet's client.\<close>

definition parseData_sync :: "(nat \<Rightarrow> prog) \<Rightarrow> nat \<Rightarrow> nat \<Rightarrow> prog \<Rightarrow> prog" where
  "parseData_sync push t me handle =
     Seq (Guard (m_recvBuffMutex t) (Access Rd (sh_recvBuff t)))
       (Choice
          (seq_list [Guard (m_recvBuffMutex t) (Access Wr (sh_recvBuff t)), handle,
                     Choice (Seq (Access Wr (sh_transport_client_id t)) (push t))
                       (When (Seq (push t) forceDisconnect_sync))])
          (When (seq_list [getClientId_sync t, sessionPresent_sync, Access Rd (sh_cleansession me),
                           When (Seq (getClientId_sync t) removeFromRegistry_sync), forceDisconnect_sync])))"

definition run_iteration_sync ::
    "(nat \<Rightarrow> prog) \<Rightarrow> prog list \<Rightarrow> nat list \<Rightarrow> nat list \<Rightarrow> nat list \<Rightarrow>
     (nat \<times> nat \<times> routing option) list \<Rightarrow> bool \<times> nat \<Rightarrow> prog" where
  "run_iteration_sync push events due to_disconnect new_entries entries stop =
     seq_list [getNextTimeoutMs_sync, seq_list events,
               processExpiredSessions_sync due to_disconnect new_entries,
               processRetransmissions_sync push entries stop]"


subsection \<open>The order and the discipline\<close>

text \<open>The mutexes the core declares come last.\<close>

fun mutex_rank :: "mutex \<Rightarrow> nat" where
  "mutex_rank m_registryMutex = 1"
| "mutex_rank m_sessionsRWMutex = 3"
| "mutex_rank (m_recvBuffMutex t) = 4"
| "mutex_rank (core_mutex t) = 5 + t"
| "mutex_rank m = 2"

text \<open>
  The mutex of each field. The packet-id counter, the flags of a session, the client id of a transport and
  the retransmission heap have none that every access takes; the subscribers of a node have one for
  \<open>Node::subscribe\<close> and \<open>Node::unsubscribe\<close> only, and both fields of a node that \<open>addLink\<close> of its parent
  replaces are destroyed without any, so only the links of the root, which is never replaced, are
  always accessed under their mutex; \<open>session\<close> is written only before its object is published.
\<close>

fun discipline :: "access \<Rightarrow> shared \<Rightarrow> mutex set \<Rightarrow> bool" where
  "discipline k sh_sessions L = (m_sessionsRWMutex \<in> L)"
| "discipline k (sh_recvBuff t) L = (m_recvBuffMutex t \<in> L)"
| "discipline k sh_sessionRegistry L = (m_registryMutex \<in> L)"
| "discipline k sh_expiryHeap L = (m_expiryMutex \<in> L)"
| "discipline k sh_retransmitHeap L = (m_registryMutex \<in> L \<or> m_retransmitMutex \<in> L)"
| "discipline k (sh_inflight s) L = (inflight_mutex s \<in> L)"
| "discipline k (sh_inflight_ack s) L = (inflight_ack_mutex s \<in> L)"
| "discipline k (sh_message_queue s) L = (msg_q_mutex s \<in> L)"
| "discipline k (sh_links n) L = (n = [] \<longrightarrow> links_mutex n \<in> L)"
| "discipline k (sh_session s) L = (k = Rd)"
| "discipline k (sh_last_activity s) L = (k = At)"
| "discipline k (sh_expiry_ms s) L = (k = At)"
| "discipline k (sh_core t) L = (core_mutex t \<in> L)"
| "discipline k v L = True"


text \<open>The three checks on a program at once, for a block entered at rank \<open>r\<close> under the locks \<open>L\<close>.\<close>

definition well_locked :: "nat \<Rightarrow> mutex set \<Rightarrow> prog \<Rightarrow> bool" where
  "well_locked r L c \<longleftrightarrow> quiet c \<and> ordered mutex_rank r c \<and> guarded discipline L c"

lemma well_locked_simps [simp]:
  "well_locked r L Skip"
  "well_locked r L (Access k v) = discipline k v L"
  "well_locked r L (Seq c d) = (well_locked r L c \<and> well_locked r L d)"
  "well_locked r L (Choice c d) = (well_locked r L c \<and> well_locked r L d)"
  "well_locked r L (Loop c) = well_locked r L c"
  "well_locked r L (Guard m c) = (r < mutex_rank m \<and> well_locked (mutex_rank m) (insert m L) c)"
  by (auto simp: well_locked_def)

lemma well_locked_seq_list [simp]:
  "well_locked r L (seq_list cs) = (\<forall>c \<in> set cs. well_locked r L c)"
  by (induction cs) auto

lemma well_locked_choice_list [simp]:
  "well_locked r L (choice_list cs) = (\<forall>c \<in> set cs. well_locked r L c)"
  by (induction cs) auto






named_theorems prog_defs \<open>the lock programs of the leaf operations\<close>

lemmas [prog_defs] =
  allocatePacketId_sync_def storeInflight_sync_def storeInflightAcknowlegement_sync_def
  removeFromInflight_sync_def removeFromInflightAcknowlegement_sync_def getPacket_sync_def
  storeMessage_sync_def ispresent_sync_def addLink_sync_def getLink_sync_def getLinkTopics_sync_def
  node_subscribe_sync_def node_unsubscribe_sync_def addSession_sync_def removeSession_sync_def
  forceDisconnect_sync_def sessionPresent_sync_def removeFromRegistry_sync_def addToRegistry_sync_def
  updateActivity_sync_def scheduleExpiry_sync_def getNextTimeoutMs_sync_def
  expiry_entry_sync_def disconnect_expired_sync_def scheduleRetransmission_sync_def getClientId_sync_def















subsection \<open>Properties\<close>


text \<open>A core whose \<open>pushDataToSend\<close> takes one mutex per transport.\<close>

definition leaf_push :: "nat \<Rightarrow> prog" where
  "leaf_push t = Guard (core_mutex t) (Access Wr (sh_core t))"








definition loop_round :: prog where
  "loop_round = run_iteration_sync leaf_push [] [] [] [] [] (True, 0)"


text \<open>
  What the order of the locks does not prevent: when the scan of the expiry heap spins on an entry whose
  session is gone, the threads come back to the same state again and again, with the mutex of the heap
  held and a CONNECT waiting for it.
\<close>

definition new_client_task :: prog where
  "new_client_task = parseData_sync leaf_push 7 0 (connectHandler_sync leaf_push None True 4 (0, 0))"

lemma expiry_scan_spins:
  "\<exists>s. play (replicate 8 (0, False) @ (0, True) # replicate 29 (1, True)) (start [loop_round, new_client_task]) = Some s \<and>
     play (replicate 7 (0, True)) s = Some s \<and> waits s 1 m_expiryMutex"
  by (simp add: start_def loop_round_def new_client_task_def run_iteration_sync_def parseData_sync_def leaf_push_def
    connectHandler_sync_def processExpiredSessions_sync_def prog_defs eval_nat_numeral waits_def)

lemma expiry_scan_starves:
  "\<exists>s. thread_steps (start [loop_round, new_client_task]) s \<and> waits s 1 m_expiryMutex \<and> thread_step\<^sup>+\<^sup>+ s s"
proof -
  obtain s where s: "play (replicate 8 (0, False) @ (0, True) # replicate 29 (1, True)) (start [loop_round, new_client_task]) = Some s"
     "play (replicate 7 (0, True)) s = Some s" "waits s 1 m_expiryMutex" using expiry_scan_spins by blast
  from play_steps [OF s(1)] play_plus [OF s(2)] s(3) show ?thesis by auto
qed







end
