(* ===== verification/Topic_Race.thy ===== *)
theory Topic_Race
  imports Topic_Tree
begin

text \<open>
  \<open>subscribe\<close> on a topic without wildcards at the grain of its critical sections. The nodes are cells of
  a store, a \<open>Node*\<close> is an address, and each call of \<open>ispresent\<close>, \<open>addLink\<close>, \<open>getLink\<close> and
  \<open>Node::subscribe\<close>, which holds a mutex of the node, is one step. Alone, a walk does what
  \<open>tree_subscribe\<close> does; two walks that meet at a link that is not there lose a subscription or use
  a node that is destroyed, since nothing is locked between \<open>ispresent\<close> and \<open>addLink\<close>.
\<close>

subsection \<open>Nodes in a store\<close>

text \<open>\<open>cells a = None\<close>: nothing was allocated at \<open>a\<close>, or it was destroyed.\<close>

record cell =
  cell_level :: string
  cell_links :: "(string \<times> nat) list"
  cell_subscribers :: "(string \<times> Subscription) list"

record node_store =
  cells :: "nat \<Rightarrow> cell option"
  next_cell :: nat

definition empty_cell :: "string \<Rightarrow> cell" where
  "empty_cell str = \<lparr>cell_level = str, cell_links = [], cell_subscribers = []\<rparr>"

definition put :: "nat \<Rightarrow> cell \<Rightarrow> node_store \<Rightarrow> node_store" where
  "put a h st = st\<lparr>cells := (cells st)(a \<mapsto> h)\<rparr>"

text \<open>
  The destructor of a node destroys its children. Every level of the recursion has freed a cell below
  \<open>next_cell\<close>, so \<open>next_cell\<close> levels are enough.
\<close>

fun destroy :: "nat \<Rightarrow> nat \<Rightarrow> node_store \<Rightarrow> node_store" where
  "destroy 0 b st = st"
| "destroy (Suc fuel) b st =
     (case cells st b of
        None \<Rightarrow> st
      | Some h \<Rightarrow> fold (destroy fuel) (map snd (cell_links h)) (st\<lparr>cells := (cells st)(b := None)\<rparr>))"

definition heap_ispresent :: "nat \<Rightarrow> string \<Rightarrow> node_store \<Rightarrow> bool option" where
  "heap_ispresent a str st = map_option (\<lambda>h. map_of (cell_links h) str \<noteq> None) (cells st a)"

text \<open>\<open>links[str] = std::make_unique<Node>(str)\<close>: an old child under \<open>str\<close> is destroyed.\<close>

definition heap_addLink :: "nat \<Rightarrow> string \<Rightarrow> node_store \<Rightarrow> node_store option" where
  "heap_addLink a str st =
     (case cells st a of
        None \<Rightarrow> None
      | Some h \<Rightarrow>
          let b = next_cell st;
              st' = (put b (empty_cell str)
                      (put a (h\<lparr>cell_links := um_assign str b (cell_links h)\<rparr>) st))\<lparr>next_cell := b + 1\<rparr>
          in Some (case map_of (cell_links h) str of
                     None \<Rightarrow> st' | Some old \<Rightarrow> destroy (next_cell st) old st'))"

text \<open>The null pointer that \<open>links[str]\<close> of an absent key gives is never asked for: no link is removed.\<close>

definition heap_getLink :: "nat \<Rightarrow> string \<Rightarrow> node_store \<Rightarrow> nat option" where
  "heap_getLink a str st = (case cells st a of None \<Rightarrow> None | Some h \<Rightarrow> map_of (cell_links h) str)"

definition heap_subscribe :: "nat \<Rightarrow> string \<Rightarrow> nat \<Rightarrow> u8 \<Rightarrow> node_store \<Rightarrow> node_store option" where
  "heap_subscribe a client_id cs q st =
     (case cells st a of
        None \<Rightarrow> None
      | Some h \<Rightarrow> Some (put a (h\<lparr>cell_subscribers :=
          um_assign client_id \<lparr>sub_session = cs, sub_qos = q\<rparr> (cell_subscribers h)\<rparr>) st))"

subsection \<open>A walk and its steps\<close>

text \<open>
  Where a thread stands in \<open>subscribe\<close>: about to ask a node for the next word, about to add the link it
  found missing, about to follow the link, or done. A step that uses a destroyed node gives \<open>None\<close>.
\<close>

datatype walk =
    Look nat "string list"
  | Absent nat string "string list"
  | Present nat string "string list"
  | Subscribed

fun walk_step :: "string \<Rightarrow> nat \<Rightarrow> u8 \<Rightarrow> walk \<Rightarrow> node_store \<Rightarrow> (walk \<times> node_store) option" where
  "walk_step c cs q (Look a []) st = map_option (Pair Subscribed) (heap_subscribe a c cs q st)"
| "walk_step c cs q (Look a (w # ws)) st =
     map_option (\<lambda>b. (if b then Present a w ws else Absent a w ws, st)) (heap_ispresent a w st)"
| "walk_step c cs q (Absent a w ws) st = map_option (Pair (Present a w ws)) (heap_addLink a w st)"
| "walk_step c cs q (Present a w ws) st = map_option (\<lambda>b. (Look b ws, st)) (heap_getLink a w st)"
| "walk_step c cs q Subscribed st = Some (Subscribed, st)"

primrec walk_alone :: "string \<Rightarrow> nat \<Rightarrow> u8 \<Rightarrow> nat \<Rightarrow> walk \<Rightarrow> node_store \<Rightarrow> (walk \<times> node_store) option" where
  "walk_alone c cs q 0 = (\<lambda>x st. Some (x, st))"
| "walk_alone c cs q (Suc n) = (\<lambda>x st.
     case walk_step c cs q x st of None \<Rightarrow> None | Some (x', st') \<Rightarrow> walk_alone c cs q n x' st')"

text \<open>Two threads, of clients \<open>c\<close> and \<open>d\<close>: the schedule says whether the first one steps.\<close>

record walks =
  first_walk :: walk
  second_walk :: walk
  nodes :: node_store

fun interleave :: "string \<times> nat \<times> u8 \<Rightarrow> string \<times> nat \<times> u8 \<Rightarrow> bool list \<Rightarrow> walks \<Rightarrow> walks option" where
  "interleave (c, cs, q) (d, ds, r) [] s = Some s"
| "interleave (c, cs, q) (d, ds, r) (True # sch) s =
     (case walk_step c cs q (first_walk s) (nodes s) of
        None \<Rightarrow> None
      | Some (x, st) \<Rightarrow> interleave (c, cs, q) (d, ds, r) sch (s\<lparr>first_walk := x, nodes := st\<rparr>))"
| "interleave (c, cs, q) (d, ds, r) (False # sch) s =
     (case walk_step d ds r (second_walk s) (nodes s) of
        None \<Rightarrow> None
      | Some (x, st) \<Rightarrow> interleave (c, cs, q) (d, ds, r) sch (s\<lparr>second_walk := x, nodes := st\<rparr>))"

definition both_at :: "nat \<Rightarrow> string list \<Rightarrow> node_store \<Rightarrow> walks" where
  "both_at a ws st = \<lparr>first_walk = Look a ws, second_walk = Look a ws, nodes = st\<rparr>"

subsection \<open>What a store stands for\<close>

fun addr_of :: "node_store \<Rightarrow> nat \<Rightarrow> path \<Rightarrow> nat option" where
  "addr_of st a [] = (if cells st a = None then None else Some a)"
| "addr_of st a (t # p) = (case heap_getLink a t st of None \<Rightarrow> None | Some b \<Rightarrow> addr_of st b p)"

definition heap_subs :: "node_store \<Rightarrow> nat \<Rightarrow> path \<Rightarrow> (string \<times> Subscription) list" where
  "heap_subs st root p =
     (case addr_of st root p of
        None \<Rightarrow> []
      | Some a \<Rightarrow> (case cells st a of None \<Rightarrow> [] | Some h \<Rightarrow> cell_subscribers h))"

text \<open>
  A store of \<open>unique_ptr\<close>s: every node has one owner, so no two paths lead to one address; no link
  dangles, and new addresses are fresh.
\<close>

definition owned :: "node_store \<Rightarrow> nat \<Rightarrow> bool" where
  "owned st root \<longleftrightarrow>
     cells st root \<noteq> None \<and> (\<forall>a \<ge> next_cell st. cells st a = None) \<and>
     (\<forall>a h t b. cells st a = Some h \<longrightarrow> map_of (cell_links h) t = Some b \<longrightarrow> cells st b \<noteq> None) \<and>
     (\<forall>p p' a. addr_of st root p = Some a \<longrightarrow> addr_of st root p' = Some a \<longrightarrow> p = p')"

definition agrees :: "node_store \<Rightarrow> nat \<Rightarrow> Node \<Rightarrow> bool" where
  "agrees st root n \<longleftrightarrow>
     (\<forall>p. (addr_of st root p \<noteq> None \<longleftrightarrow> has_node n p) \<and> heap_subs st root p = subs_at n p)"

lemma addr_of_live: "addr_of st a p = Some b \<Longrightarrow> cells st b \<noteq> None"
  by (induction p arbitrary: a) (auto split: if_split_asm option.split_asm)

lemma addr_of_snoc:
  "addr_of st a (p @ [t]) =
     (case addr_of st a p of
        None \<Rightarrow> None
      | Some b \<Rightarrow> (case heap_getLink b t st of
                     None \<Rightarrow> None | Some c \<Rightarrow> if cells st c = None then None else Some c))"
  by (induction p arbitrary: a) (auto simp: heap_getLink_def split: option.split)

lemma addr_of_beyond: "addr_of st a p = None \<Longrightarrow> addr_of st a (p @ q) = None"
  by (induction q rule: rev_induct) (auto simp: addr_of_snoc simp flip: append_assoc)

subsection \<open>The steps on an owned store\<close>

lemma addr_of_addLink:
  assumes own: "owned st root" and p: "addr_of st root p = Some a"
    and w: "heap_ispresent a w st = Some False" and add: "heap_addLink a w st = Some st'"
  shows "addr_of st' root x = (if x = p @ [w] then Some (next_cell st) else addr_of st root x)"
proof -
  let ?b = "next_cell st"
  obtain h where h: "cells st a = Some h" "map_of (cell_links h) w = None"
    using w by (auto simp: heap_ispresent_def)
  have fresh: "cells st ?b = None" using own by (simp add: owned_def)
  then have ab: "a \<noteq> ?b" "root \<noteq> ?b" using h own by (auto simp: owned_def)
  have cells: "cells st' = (cells st)(a \<mapsto> h\<lparr>cell_links := um_assign w ?b (cell_links h)\<rparr>, ?b \<mapsto> empty_cell w)"
    using add h by (auto simp: heap_addLink_def put_def Let_def)
  have get: "heap_getLink y t st' =
      (if y = ?b then None else if y = a \<and> t = w then Some ?b else heap_getLink y t st)" for y t
    using ab h by (simp add: heap_getLink_def cells empty_cell_def split: option.split)
  have none: "addr_of st root (p @ [w] @ q) = None" for q
    using p h addr_of_beyond [of st root "p @ [w]" q] by (simp add: addr_of_snoc heap_getLink_def)
  show ?thesis
  proof (induction x rule: rev_induct)
    case Nil
    show ?case using own ab by (simp add: cells owned_def)
  next
    case (snoc t y)
    show ?case
    proof (cases "y = p @ [w]")
      case True
      then have "addr_of st' root y = Some ?b" using snoc by simp
      then have "addr_of st' root (y @ [t]) = None" unfolding addr_of_snoc by (simp add: get)
      then show ?thesis using True none [of "[t]"] by simp
    next
      case False
      with snoc have y: "addr_of st' root y = addr_of st root y" by simp
      show ?thesis
      proof (cases "addr_of st root y")
        case None
        then show ?thesis using y p by (auto simp: addr_of_snoc)
      next
        case (Some c)
        then have c: "cells st c \<noteq> None" "c \<noteq> ?b" using addr_of_live fresh by fastforce+
        have eq: "c = a \<longleftrightarrow> y = p" using Some p own by (auto simp: owned_def)
        have "heap_getLink c t st = Some d \<Longrightarrow> cells st d \<noteq> None \<and> d \<noteq> ?b" for d
          using c own fresh by (fastforce simp: owned_def heap_getLink_def)
        then show ?thesis
          using Some y c eq ab by (auto simp: addr_of_snoc get cells split: option.split)
      qed
    qed
  qed
qed

lemma addLink_owned:
  assumes own: "owned st root" and p: "addr_of st root p = Some a"
    and w: "heap_ispresent a w st = Some False"
  shows "\<exists>st'. heap_addLink a w st = Some st' \<and> owned st' root \<and> heap_getLink a w st' = Some (next_cell st) \<and>
    (\<forall>x. addr_of st' root x = (if x = p @ [w] then Some (next_cell st) else addr_of st root x)) \<and>
    (\<forall>x. heap_subs st' root x = heap_subs st root x)"
proof -
  let ?b = "next_cell st"
  obtain h where h: "cells st a = Some h" "map_of (cell_links h) w = None"
    using w by (auto simp: heap_ispresent_def)
  have fresh: "cells st ?b = None" and fresh': "\<forall>a \<ge> ?b. cells st a = None" using own by (simp_all add: owned_def)
  then have ab: "a \<noteq> ?b" "root \<noteq> ?b" using h own by (auto simp: owned_def)
  obtain st' where st': "heap_addLink a w st = Some st'"
    using h by (auto simp: heap_addLink_def Let_def)
  then have cells: "cells st' = (cells st)(a \<mapsto> h\<lparr>cell_links := um_assign w ?b (cell_links h)\<rparr>, ?b \<mapsto> empty_cell w)"
    and nxt: "next_cell st' = ?b + 1"
    using h by (auto simp: heap_addLink_def put_def Let_def)
  note addr = addr_of_addLink [OF own p w st']
  have old: "addr_of st root x \<noteq> Some ?b" for x using addr_of_live fresh by blast
  have "addr_of st root (p @ [w]) = None"
    using p h by (simp add: addr_of_snoc heap_getLink_def)
  then have subs: "heap_subs st' root x = heap_subs st root x" for x
    using old [of x] ab h by (auto simp: heap_subs_def addr cells empty_cell_def split: option.split)
  have "x = y" if "addr_of st' root x = Some c" "addr_of st' root y = Some c" for x y c
    using that old own by (auto simp: addr owned_def split: if_split_asm)
  moreover have "cells st' d \<noteq> None" if "cells st' y = Some k" "map_of (cell_links k) t = Some d" for y k t d
  proof -
    have old: "cells st z = Some k' \<Longrightarrow> map_of (cell_links k') t = Some d \<Longrightarrow> cells st d \<noteq> None" for z k'
      using own unfolding owned_def by blast
    have "d = ?b \<or> cells st d \<noteq> None"
      using that h old [of y k] old [of a h] by (auto simp: cells empty_cell_def split: if_split_asm)
    then show ?thesis by (auto simp: cells)
  qed
  moreover have "a < ?b" using h fresh' by (metis not_less option.distinct(1))
  ultimately have "owned st' root"
    using own ab fresh' by (auto simp: owned_def cells nxt)
  then show ?thesis
    using st' addr subs ab by (auto simp: heap_getLink_def cells)
qed

text \<open>A write to the subscribers of a node leaves the structure alone.\<close>

lemma put_subscribers:
  assumes own: "owned st root" and h: "cells st a = Some h"
    and st': "st' = put a (h\<lparr>cell_subscribers := ss\<rparr>) st"
  shows "owned st' root" "addr_of st' y x = addr_of st y x"
    "cells st' = (cells st)(a \<mapsto> h\<lparr>cell_subscribers := ss\<rparr>)"
proof -
  show cells: "cells st' = (cells st)(a \<mapsto> h\<lparr>cell_subscribers := ss\<rparr>)" by (simp add: st' put_def)
  have nxt: "next_cell st' = next_cell st" by (simp add: st' put_def)
  have get: "heap_getLink y t st' = heap_getLink y t st" for y t
    using h by (simp add: heap_getLink_def cells)
  have addr: "addr_of st' y x = addr_of st y x" for y x
    using h by (induction x arbitrary: y) (simp_all add: get cells split: option.split)
  have link: "cells st' d \<noteq> None" if "cells st' y = Some k" "map_of (cell_links k) t = Some d" for y k t d
    using that own h by (auto simp: cells owned_def split: if_split_asm)
  show "addr_of st' y x = addr_of st y x" by (rule addr)
  show "owned st' root" using own h link unfolding owned_def addr nxt by (auto simp: cells)
qed

lemma subscribe_owned:
  assumes own: "owned st root" and p: "addr_of st root p = Some a"
  shows "\<exists>st'. heap_subscribe a c cs q st = Some st' \<and> owned st' root \<and>
    (\<forall>x. addr_of st' root x = addr_of st root x) \<and>
    (\<forall>x. heap_subs st' root x =
      (if x = p then um_assign c \<lparr>sub_session = cs, sub_qos = q\<rparr> (heap_subs st root x) else heap_subs st root x))"
proof -
  obtain h where h: "cells st a = Some h" using addr_of_live [OF p] by blast
  let ?ss = "um_assign c \<lparr>sub_session = cs, sub_qos = q\<rparr> (cell_subscribers h)"
  note st' = put_subscribers [OF own h refl, of ?ss]
  have "heap_subs (put a (h\<lparr>cell_subscribers := ?ss\<rparr>) st) root x =
      (if x = p then um_assign c \<lparr>sub_session = cs, sub_qos = q\<rparr> (heap_subs st root x) else heap_subs st root x)" for x
    using own p h by (auto simp: heap_subs_def st'(2,3) owned_def split: option.split)
  then show ?thesis using h st'(1,2) by (auto simp: heap_subscribe_def)
qed

text \<open>A walk needs at most three steps per word and one for the subscription; more change nothing.\<close>

lemma walk_done: "walk_alone c cs q n Subscribed st = Some (Subscribed, st)"
  by (induction n) simp_all

lemma walk_alone_ok:
  assumes "owned st root" and "addr_of st root p = Some a"
  shows "\<exists>st'. walk_alone c cs q (3 * length ws + 1) (Look a ws) st = Some (Subscribed, st') \<and> owned st' root \<and>
    (\<forall>x. addr_of st' root x \<noteq> None \<longleftrightarrow> addr_of st root x \<noteq> None \<or> (\<exists>y. x = p @ y \<and> prefix y ws)) \<and>
    (\<forall>x. heap_subs st' root x =
      (if x = p @ ws then um_assign c \<lparr>sub_session = cs, sub_qos = q\<rparr> (heap_subs st root x)
       else heap_subs st root x))"
  using assms
proof (induction ws arbitrary: st p a)
  case Nil
  then show ?case using subscribe_owned [OF Nil, of c cs q] by auto
next
  case (Cons w ws)
  obtain h where h: "cells st a = Some h" using addr_of_live [OF Cons.prems(2)] by blast
  have len: "3 * length (w # ws) + 1 = Suc (Suc (Suc (3 * length ws + 1)))" by simp
  have pre: "(\<exists>y. x = p @ y \<and> prefix y (w # ws)) \<longleftrightarrow> x = p \<or> (\<exists>y. x = (p @ [w]) @ y \<and> prefix y ws)" for x
    by (auto simp: prefix_Cons)
  show ?case
  proof (cases "map_of (cell_links h) w")
    case None
    then have w: "heap_ispresent a w st = Some False" using h by (simp add: heap_ispresent_def)
    from addLink_owned [OF Cons.prems w] obtain st1 where st1:
      "heap_addLink a w st = Some st1" "owned st1 root" "heap_getLink a w st1 = Some (next_cell st)"
      "\<And>x. addr_of st1 root x = (if x = p @ [w] then Some (next_cell st) else addr_of st root x)"
      "\<And>x. heap_subs st1 root x = heap_subs st root x" by blast
    have "addr_of st1 root (p @ [w]) = Some (next_cell st)" by (simp add: st1(4))
    from Cons.IH [OF st1(2) this] obtain st' where st':
      "walk_alone c cs q (3 * length ws + 1) (Look (next_cell st) ws) st1 = Some (Subscribed, st')" "owned st' root"
      "\<And>x. addr_of st' root x \<noteq> None \<longleftrightarrow> addr_of st1 root x \<noteq> None \<or> (\<exists>y. x = (p @ [w]) @ y \<and> prefix y ws)"
      "\<And>x. heap_subs st' root x = (if x = (p @ [w]) @ ws then um_assign c \<lparr>sub_session = cs, sub_qos = q\<rparr> (heap_subs st1 root x)
        else heap_subs st1 root x)" by blast
    have run: "walk_alone c cs q (3 * length (w # ws) + 1) (Look a (w # ws)) st = Some (Subscribed, st')"
      using st'(1) unfolding len by (simp add: w st1(1,3) del: walk_alone.simps(2) add: walk_alone.simps(2) [of _ _ _ "Suc n" for n])
    have "addr_of st' root x \<noteq> None \<longleftrightarrow> addr_of st root x \<noteq> None \<or> (\<exists>y. x = p @ y \<and> prefix y (w # ws))" for x
      unfolding st'(3) st1(4) pre using Cons.prems(2) by (cases "x = p @ [w]") auto
    then show ?thesis using run st'(2,4) st1(5) by auto
  next
    case (Some b)
    then have w: "heap_ispresent a w st = Some True" and g: "heap_getLink a w st = Some b"
      using h by (simp_all add: heap_ispresent_def heap_getLink_def)
    have "addr_of st root (p @ [w]) = Some b"
      using Cons.prems h Some by (auto simp: addr_of_snoc g owned_def)
    from Cons.IH [OF Cons.prems(1) this] obtain st' where st':
      "walk_alone c cs q (3 * length ws + 1) (Look b ws) st = Some (Subscribed, st')" "owned st' root"
      "\<And>x. addr_of st' root x \<noteq> None \<longleftrightarrow> addr_of st root x \<noteq> None \<or> (\<exists>y. x = (p @ [w]) @ y \<and> prefix y ws)"
      "\<And>x. heap_subs st' root x = (if x = (p @ [w]) @ ws then um_assign c \<lparr>sub_session = cs, sub_qos = q\<rparr> (heap_subs st root x)
        else heap_subs st root x)" by blast
    have more: "walk_alone c cs q (Suc n) x s = Some (Subscribed, s')"
      if "walk_alone c cs q n x s = Some (Subscribed, s')" for n x s s'
      using that walk_done by (induction n arbitrary: x s) (auto split: option.split_asm prod.split_asm)
    have run: "walk_alone c cs q (3 * length (w # ws) + 1) (Look a (w # ws)) st = Some (Subscribed, st')"
      using more [OF st'(1)] unfolding len by (simp add: w g)
    have "addr_of st' root x \<noteq> None \<longleftrightarrow> addr_of st root x \<noteq> None \<or> (\<exists>y. x = p @ y \<and> prefix y (w # ws))" for x
      unfolding st'(3) pre using Cons.prems(2) by auto
    then show ?thesis using run st'(2,4) by auto
  qed
qed

lemma tree_subscribe_plain:
  assumes "node_wf n" and "plain (split topic)"
  shows "has_node (tree_subscribe topic c cs q n) x \<longleftrightarrow> has_node n x \<or> prefix x (split topic)"
    and "subs_at (tree_subscribe topic c cs q n) x =
      (if x = split topic then um_assign c \<lparr>sub_session = cs, sub_qos = q\<rparr> (subs_at n x) else subs_at n x)"
proof -
  have r: "reach topic n = [split topic]" using getNode_plain [OF assms(2)] by (simp add: reach_def)
  show "has_node (tree_subscribe topic c cs q n) x \<longleftrightarrow> has_node n x \<or> prefix x (split topic)"
    using at_paths_keep(2) [OF subs_op_subscribe] has_node_getNode_plain [OF assms(2)]
    by (simp add: tree_ops grown_def)
  show "subs_at (tree_subscribe topic c cs q n) x =
      (if x = split topic then um_assign c \<lparr>sub_session = cs, sub_qos = q\<rparr> (subs_at n x) else subs_at n x)"
    using subs_at_at_paths [OF subs_op_subscribe, of "[split topic]" "grown topic n" c cs q x]
      has_node_reach [OF assms(1), of "split topic" topic] r
    by (simp add: tree_ops grown_def subs_at_getNode)
qed

subsection \<open>Properties\<close>

text \<open>Without interleaving, the critical sections of \<open>subscribe\<close> implement the subscription of the
  functional tree. On a store of owned nodes that agrees with a tree, a walk to a topic without
  wildcards ends after at most three steps per level and one more, uses no destroyed node, and leaves an
  owned store that agrees with \<open>tree_subscribe\<close> of the tree.\<close>

lemma sequential_subscribe_refines:
  assumes "owned st root" and "agrees st root n" and "node_wf n" and "plain (split topic)"
  shows "\<exists>st'. walk_alone c cs q (3 * length (split topic) + 1) (Look root (split topic)) st =
      Some (Subscribed, st') \<and> owned st' root \<and> agrees st' root (tree_subscribe topic c cs q n)"
proof -
  have "addr_of st root [] = Some root" using assms(1) by (simp add: owned_def)
  from walk_alone_ok [OF assms(1) this, of c cs q "split topic"] show ?thesis
    using assms(2) tree_subscribe_plain [OF assms(3,4), of c cs q] by (auto simp: agrees_def)
qed

definition root_store :: node_store where
  "root_store = \<lparr>cells = [0 \<mapsto> empty_cell ''*''], next_cell = 1\<rparr>"

lemma root_store_ok: "owned root_store 0" "agrees root_store 0 TopicTree_new"
proof -
  have none: "heap_getLink a t root_store = None" for a t
    by (simp add: heap_getLink_def root_store_def empty_cell_def)
  then have addr: "addr_of root_store 0 p = (if p = [] then Some 0 else None)" for p
    by (cases p) (simp_all add: root_store_def)
  then show "owned root_store 0" by (auto simp: owned_def root_store_def empty_cell_def split: if_splits)
  show "agrees root_store 0 TopicTree_new"
    by (auto simp: agrees_def addr heap_subs_def TopicTree_new_def has_node_new subs_at_new)
      (simp add: root_store_def empty_cell_def)
qed

text \<open>C25: Two clients that subscribe to the same new topic at once. Whatever the store, when both threads
  stand at the node above the missing last level, there is an interleaving in which both run to their
  end as if they had succeeded and only the second client is subscribed, and one in which the first
  thread uses a node that the second has destroyed.\<close>

theorem concurrent_subscribe_loses:
  assumes "cells st a = Some h" and "map_of (cell_links h) w = None" and "\<forall>x \<ge> next_cell st. cells st x = None"
  shows "(\<exists>sch s. interleave (c, cs, q) (d, ds, r) sch (both_at a [w] st) = Some s \<and>
      first_walk s = Subscribed \<and> second_walk s = Subscribed \<and>
      (\<exists>b. heap_getLink a w (nodes s) = Some b \<and>
        map_option cell_subscribers (cells (nodes s) b) = Some [(d, \<lparr>sub_session = ds, sub_qos = r\<rparr>)])) \<and>
    (\<exists>sch. interleave (c, cs, q) (d, ds, r) sch (both_at a [w] st) = None)"
proof -
  let ?b = "next_cell st"
  have fresh: "cells st ?b = None" "cells st (Suc ?b) = None" using assms(3) by simp_all
  then have a: "a \<noteq> ?b" "a \<noteq> Suc ?b" using assms(1) by auto
  let ?lost = "[True, False, True, True, True, False, False, False]"
  let ?crash = "[True, False, True, True, False, True]"
  have "\<exists>s. interleave (c, cs, q) (d, ds, r) ?lost (both_at a [w] st) = Some s \<and>
      first_walk s = Subscribed \<and> second_walk s = Subscribed \<and>
      (\<exists>b. heap_getLink a w (nodes s) = Some b \<and>
        map_option cell_subscribers (cells (nodes s) b) = Some [(d, \<lparr>sub_session = ds, sub_qos = r\<rparr>)])"
    using assms(1,2) fresh a
    by (simp add: both_at_def heap_ispresent_def heap_addLink_def heap_getLink_def heap_subscribe_def put_def
        empty_cell_def Let_def)
  moreover have "interleave (c, cs, q) (d, ds, r) ?crash (both_at a [w] st) = None"
    using assms(1,2) fresh a
    by (simp add: both_at_def heap_ispresent_def heap_addLink_def heap_getLink_def heap_subscribe_def put_def
        empty_cell_def Let_def)
  ultimately show ?thesis by blast
qed

theorem concurrent_subscribe_loses_witness:
  "\<exists>sch s. interleave (''c'', 4, 1) (''d'', 5, 2) sch (both_at 0 [''/''] root_store) = Some s \<and>
    first_walk s = Subscribed \<and> heap_subs (nodes s) 0 [''/''] = [(''d'', \<lparr>sub_session = 5, sub_qos = 2\<rparr>)]"
proof -
  have "cells root_store 0 = Some (empty_cell ''*'')" "map_of (cell_links (empty_cell ''*'')) ''/'' = None"
    "\<forall>x \<ge> next_cell root_store. cells root_store x = None"
    by (simp_all add: root_store_def empty_cell_def)
  from concurrent_subscribe_loses [OF this, of "''c''" 4 1 "''d''" 5 2] obtain sch s b where
    s: "interleave (''c'', 4, 1) (''d'', 5, 2) sch (both_at 0 [''/''] root_store) = Some s" "first_walk s = Subscribed"
      "heap_getLink 0 ''/'' (nodes s) = Some b"
      "map_option cell_subscribers (cells (nodes s) b) = Some [(''d'', \<lparr>sub_session = 5, sub_qos = 2\<rparr>)]"
    by auto
  then have "heap_subs (nodes s) 0 [''/''] = [(''d'', \<lparr>sub_session = 5, sub_qos = 2\<rparr>)]"
    by (auto simp: heap_subs_def)
  with s show ?thesis by blast
qed

end
