(* ===== verification/Tree_Threads.thy ===== *)
theory Tree_Threads
  imports Topic_Race
begin

text \<open>
  All operations of the topic tree at the grain of their critical sections, wildcards included, for any
  number of threads. A thread is a list of calls still to make, the vector \<open>vec\<close> of node pointers it has
  collected, and what it has found; a step is one call of \<open>ispresent\<close>, \<open>addLink\<close>, \<open>getLink\<close>,
  \<open>getLinkTopics\<close>, \<open>Node::subscribe\<close> or \<open>Node::unsubscribe\<close>, each under a mutex of its node, or one turn of the
  loop of \<open>match\<close> over the subscribers of a node, which takes no mutex: when that meets a write to the
  same subscribers, the behaviour is undefined. Alone, an operation implements the
  functional tree, in the order of its results too. What several do at once is in theory Tree_Sharing.
\<close>

subsection \<open>Calls\<close>

text \<open>
  \<open>Walk\<close>: the loop of \<open>getNode\<close> stands at a node with the words that are left; \<open>Missing\<close>: \<open>addLink\<close> is
  next; \<open>Follow\<close>: \<open>getLink\<close> is next, then the walk goes on; \<open>Below\<close>, \<open>Wild\<close>: the same for
  \<open>handleWildCard\<close>, which pushes every node it comes to.
\<close>

datatype 'p task =
    Walk 'p "string list"
  | Missing 'p string "string list"
  | Follow 'p string "string list"
  | Below 'p string
  | Wild 'p

definition heap_getLinkTopics :: "nat \<Rightarrow> node_store \<Rightarrow> string list option" where
  "heap_getLinkTopics a st = map_option (\<lambda>h. map fst (cell_links h)) (cells st a)"

text \<open>The calls that follow, the nodes pushed onto \<open>vec\<close>, and the store; \<open>None\<close> for a destroyed node.\<close>

fun task_step :: "nat task \<Rightarrow> node_store \<Rightarrow> (nat task list \<times> nat list \<times> node_store) option" where
  "task_step (Walk a []) st = Some ([], [a], st)"
| "task_step (Walk a (w # ws)) st =
     (if w = ''+'' \<or> w = ''#'' then
        map_option (\<lambda>link_topics.
          if link_topics = [] then ([], [], st)
          else if w = ''+'' then (map (\<lambda>topic. Follow a topic ws) link_topics, [], st)
          else (map (Below a) link_topics, [a], st)) (heap_getLinkTopics a st)
      else map_option (\<lambda>b. ([if b then Follow a w ws else Missing a w ws], [], st)) (heap_ispresent a w st))"
| "task_step (Missing a w ws) st = map_option (\<lambda>st'. ([Follow a w ws], [], st')) (heap_addLink a w st)"
| "task_step (Follow a w ws) st = map_option (\<lambda>b. ([Walk b ws], [], st)) (heap_getLink a w st)"
| "task_step (Below a sub_topic) st = map_option (\<lambda>b. ([Wild b], [], st)) (heap_getLink a sub_topic st)"
| "task_step (Wild b) st =
     map_option (\<lambda>link_topics. (map (Below b) link_topics, [b], st)) (heap_getLinkTopics b st)"

subsection \<open>Threads\<close>

datatype tree_op = Match | Subscribe string nat u8 | Unsubscribe string

definition heap_unsubscribe :: "nat \<Rightarrow> string \<Rightarrow> node_store \<Rightarrow> node_store option" where
  "heap_unsubscribe a client_id st =
     (case cells st a of
        None \<Rightarrow> None
      | Some h \<Rightarrow> Some (if map_of (cell_subscribers h) client_id \<noteq> None
          then put a (h\<lparr>cell_subscribers := um_erase client_id (cell_subscribers h)\<rparr>) st else st))"

text \<open>
  The body of the loop over \<open>nodes\<close>. For \<open>match\<close> it is a loop itself, which stands at the \<open>k\<close>-th subscriber:
  what the step finds, where the loop stands then (\<open>None\<close>: it has come to the end), and the store.
\<close>

fun op_step :: "tree_op \<Rightarrow> nat \<Rightarrow> nat \<Rightarrow> node_store \<Rightarrow> (Subscription list \<times> nat option \<times> node_store) option" where
  "op_step Match k a st =
     map_option (\<lambda>h. if k < length (cell_subscribers h)
       then ([snd (cell_subscribers h ! k)], Some (k + 1), st) else ([], None, st)) (cells st a)"
| "op_step (Subscribe c cs q) k a st = map_option (\<lambda>st'. ([], None, st')) (heap_subscribe a c cs q st)"
| "op_step (Unsubscribe c) k a st = map_option (\<lambda>st'. ([], None, st')) (heap_unsubscribe a c st)"

text \<open>\<open>th_pos\<close> is the position of the inner loop of \<open>match\<close> in the subscribers of the node in front of \<open>vec\<close>.\<close>

record thread =
  th_op :: tree_op
  th_todo :: "nat task list"
  th_vec :: "nat list"
  th_pos :: nat
  th_found :: "Subscription list"

definition start_thread :: "nat \<Rightarrow> tree_op \<times> string \<Rightarrow> thread" where
  "start_thread m_root req =
     \<lparr>th_op = fst req, th_todo = [Walk m_root (split (snd req))], th_vec = [], th_pos = 0, th_found = []\<rparr>"

definition finished :: "thread \<Rightarrow> bool" where
  "finished th \<longleftrightarrow> th_todo th = [] \<and> th_vec th = []"

definition thread_step :: "thread \<Rightarrow> node_store \<Rightarrow> (thread \<times> node_store) option" where
  "thread_step th st =
     (case th_todo th of
        t # ts \<Rightarrow> map_option (\<lambda>(ts', as, st'). (th\<lparr>th_todo := ts' @ ts, th_vec := th_vec th @ as\<rparr>, st'))
          (task_step t st)
      | [] \<Rightarrow>
          (case th_vec th of
             [] \<Rightarrow> Some (th, st)
           | a # as \<Rightarrow> map_option (\<lambda>(subs, pos, st').
               (case pos of
                  Some k \<Rightarrow> th\<lparr>th_pos := k, th_found := th_found th @ subs\<rparr>
                | None \<Rightarrow> th\<lparr>th_vec := as, th_pos := 0, th_found := th_found th @ subs\<rparr>, st'))
               (op_step (th_op th) (th_pos th) a st)))"

text \<open>
  The node whose subscribers a thread is at, if any. Two threads at one node race when one of them reads
  the subscribers and the other one changes them; a run that comes to such a state has no meaning.
\<close>

definition at_node :: "thread \<Rightarrow> nat option" where
  "at_node th = (case (th_todo th, th_vec th) of ([], a # as) \<Rightarrow> Some a | _ \<Rightarrow> None)"

definition racing :: "thread list \<Rightarrow> bool" where
  "racing ths \<longleftrightarrow> (\<exists>th \<in> set ths. \<exists>th' \<in> set ths.
     at_node th \<noteq> None \<and> at_node th' = at_node th \<and> th_op th = Match \<and> th_op th' \<noteq> Match)"

text \<open>A schedule names the thread of each step.\<close>

fun run_threads :: "nat list \<Rightarrow> thread list \<times> node_store \<Rightarrow> (thread list \<times> node_store) option" where
  "run_threads [] (ths, st) = (if racing ths then None else Some (ths, st))"
| "run_threads (i # sch) (ths, st) =
     (if racing ths then None
      else if i < length ths then
        (case thread_step (ths ! i) st of
           None \<Rightarrow> None
         | Some (th, st') \<Rightarrow> run_threads sch (ths[i := th], st'))
      else run_threads sch (ths, st))"

lemma racing_one [simp]: "\<not> racing [th]"
  by (simp add: racing_def)

subsection \<open>What a store stands for, exactly\<close>

text \<open>Level, link keys and subscribers of the node at a path, in a tree and in a store.\<close>

type_synonym node_data = "string \<times> string list \<times> (string \<times> Subscription) list"

definition tree_view :: "Node \<Rightarrow> path \<Rightarrow> node_data option" where
  "tree_view n p = map_option (\<lambda>m. (level m, map fst (links m), subscribers m)) (node_at n p)"

definition cell_data :: "cell \<Rightarrow> node_data" where
  "cell_data h = (cell_level h, map fst (cell_links h), cell_subscribers h)"

definition heap_view :: "node_store \<Rightarrow> nat \<Rightarrow> path \<Rightarrow> node_data option" where
  "heap_view st root p =
     (case addr_of st root p of None \<Rightarrow> None | Some a \<Rightarrow> map_option cell_data (cells st a))"

definition sees :: "node_store \<Rightarrow> nat \<Rightarrow> Node \<Rightarrow> bool" where
  "sees st root n \<longleftrightarrow> owned st root \<and> heap_view st root = tree_view n"

lemma tree_view_simps:
  "tree_view n [] = Some (level n, map fst (links n), subscribers n)"
  "tree_view n (t # p) = (case getLink n t of None \<Rightarrow> None | Some c \<Rightarrow> tree_view c p)"
  by (auto simp: tree_view_def split: option.split)

lemma seesD:
  assumes "sees st root n"
  shows "owned st root" "addr_of st root p \<noteq> None \<longleftrightarrow> has_node n p"
    "addr_of st root p = Some a \<Longrightarrow> \<exists>h m. cells st a = Some h \<and> node_at n p = Some m \<and>
       cell_level h = level m \<and> map fst (cell_links h) = map fst (links m) \<and> cell_subscribers h = subscribers m"
proof -
  show own: "owned st root" using assms by (simp add: sees_def)
  have v: "heap_view st root p = tree_view n p" using assms by (simp add: sees_def)
  have l: "addr_of st root p = Some b \<Longrightarrow> cells st b \<noteq> None" for b by (rule addr_of_live)
  then show "addr_of st root p \<noteq> None \<longleftrightarrow> has_node n p"
    using v by (cases "addr_of st root p"; cases "node_at n p") (auto simp: heap_view_def tree_view_def has_node_def)
  show "addr_of st root p = Some a \<Longrightarrow> \<exists>h m. cells st a = Some h \<and> node_at n p = Some m \<and>
       cell_level h = level m \<and> map fst (cell_links h) = map fst (links m) \<and> cell_subscribers h = subscribers m"
    using v l by (cases "node_at n p") (auto simp: heap_view_def tree_view_def cell_data_def)
qed

text \<open>The views after the writes.\<close>

lemma links_setLink: "getLink n t \<noteq> None \<Longrightarrow> map fst (links (setLink t c n)) = map fst (links n)"
  by (cases n) (force simp: update_keys dest: map_of_in_set)

lemma tree_view_subs:
  "subs_op f g \<Longrightarrow> tree_view (at_path f p n) x =
     (if x = p then map_option (\<lambda>(l, ks, ss). (l, ks, g ss)) (tree_view n x) else tree_view n x)"
proof (induction p arbitrary: n x)
  case Nil
  then show ?case by (cases x) (simp_all add: tree_view_simps subs_op_sel)
next
  case (Cons t p)
  then show ?case
    by (cases x) (auto simp: tree_view_simps links_setLink split: option.splits)
qed

lemma tree_view_addLink:
  "has_node n p \<Longrightarrow> \<not> has_node n (p @ [w]) \<Longrightarrow> tree_view (at_path (addLink w) p n) x =
     (if x = p @ [w] then Some (w, [], [])
      else if x = p then map_option (\<lambda>(l, ks, ss). (l, ks @ [w], ss)) (tree_view n x) else tree_view n x)"
proof (induction p arbitrary: n x)
  case Nil
  have "map fst (links (addLink w n)) = map fst (links n) @ [w]"
    using Nil by (cases n) (auto simp: update_keys has_node_simps split: option.splits dest: weak_map_of_SomeI)
  moreover have "tree_view (new_node w) y = (if y = [] then Some (w, [], []) else None)" for y
    by (cases y) (simp_all add: tree_view_simps new_node_def)
  ultimately show ?case
    using Nil by (cases x) (auto simp: tree_view_simps new_node_def split: option.splits)
next
  case (Cons t p)
  then show ?case
    by (cases x) (auto simp: tree_view_simps links_setLink split: option.splits)
qed

lemma sees_addLink:
  assumes s: "sees st root n" and p: "addr_of st root p = Some a" and w: "\<not> has_node n (p @ [w])"
  shows "\<exists>st'. heap_addLink a w st = Some st' \<and> sees st' root (at_path (addLink w) p n) \<and>
    (\<forall>x. addr_of st' root x = (if x = p @ [w] then Some (next_cell st) else addr_of st root x))"
proof -
  note own = seesD(1) [OF s]
  obtain h where h: "cells st a = Some h" using seesD(3) [OF s p] by blast
  have "map_of (cell_links h) w = None"
  proof (rule ccontr)
    assume "map_of (cell_links h) w \<noteq> None"
    then obtain b where b: "map_of (cell_links h) w = Some b" by blast
    then have "cells st b \<noteq> None" using own h by (auto simp: owned_def)
    then have "addr_of st root (p @ [w]) = Some b" using p h b by (auto simp: addr_of_snoc heap_getLink_def)
    with seesD(2) [OF s] w show False by fastforce
  qed
  then have a: "heap_ispresent a w st = Some False" "map_of (cell_links h) w = None"
    using h by (simp_all add: heap_ispresent_def)
  from addLink_owned [OF own p a(1)] obtain st' where st': "heap_addLink a w st = Some st'" "owned st' root"
    "\<And>x. addr_of st' root x = (if x = p @ [w] then Some (next_cell st) else addr_of st root x)" by blast
  have cells: "cells st' = (cells st)(a \<mapsto> h\<lparr>cell_links := um_assign w (next_cell st) (cell_links h)\<rparr>,
      next_cell st \<mapsto> empty_cell w)"
    using st'(1) h a(2) by (auto simp: heap_addLink_def put_def Let_def)
  have k: "w \<notin> set (map fst (cell_links h))" using a(2) by (simp add: map_of_eq_None_iff)
  have fresh: "cells st (next_cell st) = None" using own by (simp add: owned_def)
  have old: "addr_of st root x \<noteq> Some (next_cell st)" for x using addr_of_live fresh by blast
  have pn: "has_node n p" using p seesD(2) [OF s, of p] by simp
  have "heap_view st' root x = tree_view (at_path (addLink w) p n) x" for x
  proof (cases "x = p @ [w]")
    case True
    then show ?thesis
      by (simp add: heap_view_def st'(3) cells tree_view_addLink [OF pn w] cell_data_def empty_cell_def)
  next
    case False
    have v: "heap_view st root y = tree_view n y" for y using s by (simp add: sees_def)
    have vp: "tree_view n p = Some (cell_data h)" using v [of p] p h by (simp add: heap_view_def)
    have "b = a \<longleftrightarrow> x = p" if "addr_of st root x = Some b" for b
      using that p own by (auto simp: owned_def)
    then show ?thesis
      using v [of x] vp False h k old [of x] p
      by (auto simp: heap_view_def st'(3) cells tree_view_addLink [OF pn w] cell_data_def update_keys
          split: option.splits)
  qed
  with st' show ?thesis by (auto simp: sees_def)
qed

lemma sees_subs:
  assumes s: "sees st root n" and p: "addr_of st root p = Some a" and f: "subs_op f g"
    and h: "cells st a = Some h" and st': "st' = put a (h\<lparr>cell_subscribers := g (cell_subscribers h)\<rparr>) st"
  shows "sees st' root (at_path f p n) \<and> addr_of st' root = addr_of st root"
proof -
  note own = seesD(1) [OF s]
  note u = put_subscribers [OF own h st']
  have "heap_view st' root x = tree_view (at_path f p n) x" for x
  proof -
    have v: "heap_view st root y = tree_view n y" for y using s by (simp add: sees_def)
    have vp: "tree_view n p = Some (cell_data h)" using v [of p] p h by (simp add: heap_view_def)
    have "b = a \<longleftrightarrow> x = p" if "addr_of st root x = Some b" for b
      using that p own by (auto simp: owned_def)
    then show ?thesis
      using v [of x] vp h p by (auto simp: heap_view_def u(2,3) tree_view_subs [OF f] cell_data_def
          split: option.splits)
  qed
  with u(1,2) show ?thesis by (simp add: sees_def fun_eq_iff)
qed

text \<open>The body of the loop over the nodes found does what the functional operation does at that path.\<close>

fun op_effect :: "tree_op \<Rightarrow> Node \<Rightarrow> Node" where
  "op_effect Match = (\<lambda>n. n)"
| "op_effect (Subscribe c cs q) = node_subscribe c cs q"
| "op_effect (Unsubscribe c) = node_unsubscribe c"

fun op_subs :: "tree_op \<Rightarrow> (string \<times> Subscription) list \<Rightarrow> (string \<times> Subscription) list" where
  "op_subs Match ss = ss"
| "op_subs (Subscribe c cs q) ss = um_assign c \<lparr>sub_session = cs, sub_qos = q\<rparr> ss"
| "op_subs (Unsubscribe c) ss = um_erase c ss"

definition op_finds :: "tree_op \<Rightarrow> path \<Rightarrow> Node \<Rightarrow> Subscription list" where
  "op_finds op p n = (if op = Match then map snd (subs_at n p) else [])"

lemma subs_op_effect: "subs_op (op_effect op) (op_subs op)"
  using subs_op_subscribe subs_op_unsubscribe by (cases op) (auto simp: subs_op_def)

lemma sees_op_step:
  assumes s: "sees st root n" and p: "addr_of st root p = Some a" and op: "op \<noteq> Match"
  shows "\<exists>st'. op_step op k a st = Some ([], None, st') \<and> sees st' root (at_path (op_effect op) p n) \<and>
    addr_of st' root = addr_of st root"
proof -
  obtain h m where h: "cells st a = Some h" "node_at n p = Some m" "cell_subscribers h = subscribers m"
    using seesD(3) [OF s p] by blast
  note w = sees_subs [OF s p subs_op_effect h(1) refl, of op]
  have same: "put a (h\<lparr>cell_subscribers := cell_subscribers h\<rparr>) st = st"
    using h(1) by (simp add: put_def fun_upd_idem)
  show ?thesis
  proof (cases op)
    case Match
    then show ?thesis using op by simp
  next
    case (Subscribe c cs q)
    then show ?thesis using w h by (simp add: heap_subscribe_def)
  next
    case (Unsubscribe c)
    then show ?thesis
      using w same h by (auto simp: heap_unsubscribe_def um_erase_absent)
  qed
qed

lemma sees_match_step:
  assumes "sees st root n" and "addr_of st root p = Some a"
  shows "op_step Match k a st = Some (if k < length (subs_at n p)
    then ([map snd (subs_at n p) ! k], Some (k + 1), st) else ([], None, st))"
proof -
  obtain h m where "cells st a = Some h" "node_at n p = Some m" "cell_subscribers h = subscribers m"
    using seesD(3) [OF assms] by blast
  then show ?thesis by (simp add: subs_at_def)
qed

subsection \<open>The same calls on the tree\<close>

text \<open>
  The calls with paths for pointers and the tree for the store. A path leads to a node of its own only
  while no node is replaced, so adding a link that is there is left out.
\<close>

fun path_step :: "path task \<Rightarrow> Node \<Rightarrow> (path task list \<times> path list \<times> Node) option" where
  "path_step (Walk p []) n = (if has_node n p then Some ([], [p], n) else None)"
| "path_step (Walk p (w # ws)) n =
     map_option (\<lambda>m.
       if w = ''+'' \<or> w = ''#'' then
         (if links m = [] then ([], [], n)
          else if w = ''+'' then (map (\<lambda>topic. Follow p topic ws) (map fst (links m)), [], n)
          else (map (Below p) (map fst (links m)), [p], n))
       else ([if getLink m w \<noteq> None then Follow p w ws else Missing p w ws], [], n)) (node_at n p)"
| "path_step (Missing p w ws) n =
     (if has_node n p \<and> \<not> has_node n (p @ [w])
      then Some ([Follow p w ws], [], at_path (addLink w) p n) else None)"
| "path_step (Follow p w ws) n = (if has_node n (p @ [w]) then Some ([Walk (p @ [w]) ws], [], n) else None)"
| "path_step (Below p t) n = (if has_node n (p @ [t]) then Some ([Wild (p @ [t])], [], n) else None)"
| "path_step (Wild p) n = map_option (\<lambda>m. (map (Below p) (map fst (links m)), [p], n)) (node_at n p)"

definition points :: "node_store \<Rightarrow> nat \<Rightarrow> nat \<Rightarrow> path \<Rightarrow> bool" where
  "points st root a p \<longleftrightarrow> addr_of st root p = Some a"

abbreviation same_task :: "node_store \<Rightarrow> nat \<Rightarrow> nat task \<Rightarrow> path task \<Rightarrow> bool" where
  "same_task st root \<equiv> rel_task (points st root)"

lemma node_at_append: "node_at n (p @ q) = (case node_at n p of None \<Rightarrow> None | Some m \<Rightarrow> node_at m q)"
  by (induction p arbitrary: n) (auto split: option.split)

lemma has_node_snoc:
  "has_node n (p @ [t]) \<longleftrightarrow> (\<exists>m. node_at n p = Some m \<and> getLink m t \<noteq> None)"
  by (auto simp: has_node_def node_at_append split: option.split)

lemma sees_getLink:
  assumes "sees st root n" and "points st root a p" and "has_node n (p @ [t])"
  shows "\<exists>b. heap_getLink a t st = Some b \<and> points st root b (p @ [t])"
proof -
  have "addr_of st root (p @ [t]) \<noteq> None" using seesD(2) [OF assms(1)] assms(3) by simp
  then show ?thesis
    using assms(2) by (auto simp: points_def addr_of_snoc split: option.split_asm if_split_asm)
qed

lemma keys_getLink: "getLink m w \<noteq> None \<longleftrightarrow> w \<in> set (map fst (links m))"
  by (cases m) (force simp: map_of_eq_None_iff)

lemma getLink_None_keys: "getLink m w = None \<longleftrightarrow> w \<notin> fst ` set (links m)"
  by (simp add: getLink_links map_of_eq_None_iff)

text \<open>Every call of the store follows the call of the tree, whatever else has been done to either.\<close>

lemma task_step_follows:
  assumes s: "sees st root n" and t: "same_task st root t pt" and r: "path_step pt n = Some (pts, ps, n')"
  shows "\<exists>ts as st'. task_step t st = Some (ts, as, st') \<and> sees st' root n' \<and>
    (\<forall>a p. points st root a p \<longrightarrow> points st' root a p) \<and>
    list_all2 (same_task st' root) ts pts \<and> list_all2 (points st' root) as ps"
proof (cases pt)
  case (Walk p ws)
  then obtain a where a: "t = Walk a ws" "points st root a p" using t by (cases t) auto
  show ?thesis
  proof (cases ws)
    case Nil
    then show ?thesis using r s Walk a by (auto split: if_splits)
  next
    case (Cons w ws')
    obtain h m where h: "cells st a = Some h" "node_at n p = Some m" "map fst (cell_links h) = map fst (links m)"
      using seesD(3) [OF s] a(2) unfolding points_def by blast
    have k: "heap_getLinkTopics a st = Some (map fst (links m))"
      using h by (simp add: heap_getLinkTopics_def)
    have "map_of (cell_links h) w = None \<longleftrightarrow> getLink m w = None"
      using arg_cong [OF h(3), of set] by (simp add: map_of_eq_None_iff getLink_None_keys)
    then have i: "heap_ispresent a w st = Some (getLink m w \<noteq> None)"
      using h(1) by (simp add: heap_ispresent_def del: not_None_eq)
    show ?thesis
      using r s Walk a h(2) k i Cons
      by (auto simp: list.rel_map intro!: list.rel_refl_strong split: if_splits)
  qed
next
  case (Missing p w ws)
  then obtain a where a: "t = Missing a w ws" "addr_of st root p = Some a"
    using t by (cases t) (auto simp: points_def)
  have n: "\<not> has_node n (p @ [w])" "pts = [Follow p w ws]" "ps = []" "n' = at_path (addLink w) p n"
    using r Missing by (auto split: if_splits)
  from sees_addLink [OF s a(2) n(1)] obtain st' where st': "heap_addLink a w st = Some st'" "sees st' root n'"
    "\<And>x. addr_of st' root x = (if x = p @ [w] then Some (next_cell st) else addr_of st root x)"
    unfolding n(4) by blast
  have "addr_of st root (p @ [w]) = None" using seesD(2) [OF s] n(1) by blast
  then have "points st root b x \<Longrightarrow> points st' root b x" for b x by (auto simp: points_def st'(3))
  then show ?thesis using st'(1,2) a n(2,3) by (auto simp: points_def)
next
  case (Follow p w ws)
  then obtain a where "t = Follow a w ws" "points st root a p" using t by (cases t) auto
  then show ?thesis
    using r s Follow sees_getLink [OF s, of a p w] by (auto split: if_splits)
next
  case (Below p k)
  then obtain a where "t = Below a k" "points st root a p" using t by (cases t) auto
  then show ?thesis
    using r s Below sees_getLink [OF s, of a p k] by (auto split: if_splits)
next
  case (Wild p)
  then obtain a where a: "t = Wild a" "points st root a p" using t by (cases t) auto
  obtain h m where h: "cells st a = Some h" "node_at n p = Some m" "map fst (cell_links h) = map fst (links m)"
    using seesD(3) [OF s] a(2) unfolding points_def by blast
  then show ?thesis
    using r s Wild a by (auto simp: heap_getLinkTopics_def list.rel_map intro!: list.rel_refl_strong)
qed

text \<open>Runs of calls.\<close>

inductive calls :: "('p task \<Rightarrow> 's \<Rightarrow> ('p task list \<times> 'p list \<times> 's) option) \<Rightarrow>
    'p task list \<times> 'p list \<times> 's \<Rightarrow> 'p task list \<times> 'p list \<times> 's \<Rightarrow> bool" for step where
  "step t s = Some (ts', ps', s') \<Longrightarrow> calls step (t # ts, ps, s) (ts' @ ts, ps @ ps', s')"

lemma calls_follow:
  assumes "(calls path_step)\<^sup>*\<^sup>* (pts, ps, n) (pts', ps', n')" and "sees st root n"
    and "list_all2 (same_task st root) ts pts" and "list_all2 (points st root) as ps"
  shows "\<exists>ts' as' st'. (calls task_step)\<^sup>*\<^sup>* (ts, as, st) (ts', as', st') \<and> sees st' root n' \<and>
    list_all2 (same_task st' root) ts' pts' \<and> list_all2 (points st' root) as' ps' \<and>
    (\<forall>a p. points st root a p \<longrightarrow> points st' root a p)"
  using assms
proof (induction "(pts, ps, n)" arbitrary: pts ps n ts as st rule: converse_rtranclp_induct)
  case base
  then show ?case by blast
next
  case (step y)
  from step.hyps(1) obtain pt qts us us' m qs where y: "pts = pt # qts" "y = (us @ qts, ps @ qs, m)"
    "path_step pt n = Some (us, qs, m)" by (auto elim: calls.cases)
  from step.prems(2) y(1) obtain t us1 where t: "ts = t # us1" "same_task st root t pt"
    "list_all2 (same_task st root) us1 qts" by (auto simp: list_all2_Cons2)
  from task_step_follows [OF step.prems(1) t(2) y(3)] obtain us2 qs2 st2 where u:
    "task_step t st = Some (us2, qs2, st2)" "sees st2 root m" "\<And>a p. points st root a p \<Longrightarrow> points st2 root a p"
    "list_all2 (same_task st2 root) us2 us" "list_all2 (points st2 root) qs2 qs" by blast
  have "list_all2 (same_task st2 root) (us2 @ us1) (us @ qts)"
    using t(3) u(3,4) by (auto intro!: list_all2_appendI elim!: list_all2_mono task.rel_mono_strong)
  moreover have "list_all2 (points st2 root) (as @ qs2) (ps @ qs)"
    using step.prems(3) u(3,5) by (auto intro!: list_all2_appendI elim!: list_all2_mono)
  moreover note step.hyps(3) [OF y(2) u(2)]
  ultimately obtain ts' as' st' where r: "(calls task_step)\<^sup>*\<^sup>* (us2 @ us1, as @ qs2, st2) (ts', as', st')"
    "sees st' root n'" "list_all2 (same_task st' root) ts' pts'" "list_all2 (points st' root) as' ps'"
    "\<forall>a p. points st2 root a p \<longrightarrow> points st' root a p" by blast
  have "calls task_step (ts, as, st) (us2 @ us1, as @ qs2, st2)" unfolding t(1) by (rule calls.intros) (rule u(1))
  then show ?case using r u(3) by (meson converse_rtranclp_into_rtranclp)
qed

subsection \<open>Alone, the calls of getNode give what getNode gives\<close>

lemma at_path_same: "node_at n p = Some m \<Longrightarrow> at_path (\<lambda>_. m) p n = n"
  by (induction p arbitrary: n) (auto simp: setLink_same split: option.splits)

lemma at_path_const: "node_at n p = Some m \<Longrightarrow> at_path f p n = at_path (\<lambda>_. f m) p n"
  by (induction p arbitrary: n) (auto split: option.splits)

lemma at_path_snoc:
  "node_at n p = Some m \<Longrightarrow> getLink m w = Some c \<Longrightarrow>
     at_path (\<lambda>_. x) (p @ [w]) n = at_path (\<lambda>_. setLink w x m) p n"
  by (induction p arbitrary: n) (auto split: option.splits)

lemma setLink_twice: "setLink t x (setLink t y n) = setLink t x n"
  by (cases n) simp

lemma at_path_twice: "at_path (\<lambda>_. x) p (at_path (\<lambda>_. y) p n) = at_path (\<lambda>_. x) p n"
  by (induction p arbitrary: n) (auto simp: setLink_twice split: option.splits)

lemma node_at_at_path: "has_node n p \<Longrightarrow> node_at (at_path (\<lambda>_. x) p n) p = Some x"
  by (induction p arbitrary: n) (auto split: option.splits)

lemma calls_first:
  assumes "path_step t n = Some (us, qs, n')"
    and "(calls path_step)\<^sup>*\<^sup>* (us @ ts, as @ qs, n') z"
  shows "(calls path_step)\<^sup>*\<^sup>* (t # ts, as, n) z"
  using converse_rtranclp_into_rtranclp [OF calls.intros [of path_step, OF assms(1)] assms(2)] .

lemma paths_below: "map ((@) (p @ [t])) xs = map (\<lambda>x. p @ t # x) xs"
  by simp

lemma paths_root: "map ((@) []) xs = xs"
  by (induction xs) simp_all

lemma calls_wild:
  "node_wf m \<Longrightarrow> node_at n p = Some m \<Longrightarrow>
     (calls path_step)\<^sup>*\<^sup>* (Wild p # ts, as, n) (ts, as @ map ((@) p) (handleWildCard m), n)"
proof (induction m arbitrary: p as ts rule: handleWildCard.induct)
  case (1 l ls ss)
  have kids: "(calls path_step)\<^sup>*\<^sup>* (map (Below p) (map fst xs) @ ts, as, n)
      (ts, as @ map ((@) p) (concat (map (\<lambda>(t, c). map (Cons t) (handleWildCard c)) xs)), n)"
    if "set xs \<subseteq> set ls" for xs as
    using that
  proof (induction xs arbitrary: as)
    case (Cons x xs)
    obtain t c where x: "x = (t, c)" by (cases x)
    have l: "(t, c) \<in> set ls" "ls \<noteq> []" "node_wf c" using Cons.prems "1.prems"(1) x by (auto simp: list_all_iff)
    then have "getLink (Node l ls ss) t = Some c" using "1.prems"(1) by simp
    then have at: "node_at n (p @ [t]) = Some c" using "1.prems"(2) by (simp add: node_at_append)
    have "(calls path_step)\<^sup>*\<^sup>* (Wild (p @ [t]) # map (Below p) (map fst xs) @ ts, as, n)
        (map (Below p) (map fst xs) @ ts, as @ map ((@) (p @ [t])) (handleWildCard c), n)"
      by (rule "1.IH" [OF l(2,1) refl l(3) at])
    note run = rtranclp_trans [OF this Cons.IH]
    show ?case
      unfolding x list.map fst_conv append_Cons
      by (rule calls_first [where us = "[Wild (p @ [t])]" and qs = "[]" and n' = n])
        (use run Cons.prems at in \<open>simp_all add: has_node_def o_def paths_below\<close>)
  qed simp
  show ?case
    by (rule calls_first [where us = "map (Below p) (map fst ls)" and qs = "[p]" and n' = n])
      (use "1.prems"(2) kids [of ls "as @ [p]"] in
        \<open>simp_all add: handleWildCard_eq [of "Node l ls ss"] del: handleWildCard.simps\<close>)
qed

lemma calls_each:
  assumes walk: "\<And>p m n ts as. node_wf m \<Longrightarrow> node_at n p = Some m \<Longrightarrow>
      (calls path_step)\<^sup>*\<^sup>* (Walk p ws # ts, as, n)
        (ts, as @ map ((@) p) (snd (getNode ws m)), at_path (\<lambda>_. fst (getNode ws m)) p n)"
    and n: "has_node n p" and g: "g = (\<lambda>(t, c). (t, fst (getNode ws c)))"
  shows "distinct (map fst (ds @ xs)) \<Longrightarrow> \<forall>(t, c) \<in> set xs. node_wf c \<Longrightarrow>
    (calls path_step)\<^sup>*\<^sup>* (map (\<lambda>t. Follow p t ws) (map fst xs) @ ts, as, at_path (\<lambda>_. Node l (map g ds @ xs) ss) p n)
      (ts, as @ map ((@) p) (concat (map (\<lambda>(t, c). map (Cons t) (snd (getNode ws c))) xs)),
       at_path (\<lambda>_. Node l (map g (ds @ xs)) ss) p n)"
proof (induction xs arbitrary: ds as)
  case (Cons x xs)
  obtain t c where x: "x = (t, c)" by (cases x)
  let ?M = "Node l (map g ds @ (t, c) # xs) ss" and ?g = "fst (getNode ws c)"
  let ?n = "at_path (\<lambda>_. ?M) p n"
  have t: "t \<notin> fst ` set ds" "map_of (map g ds) t = None"
    using Cons.prems(1) x by (auto simp: g map_of_eq_None_iff image_image case_prod_unfold)
  have at: "node_at ?n p = Some ?M" by (rule node_at_at_path [OF n])
  have m: "getLink ?M t = Some c" using t(2) by (simp add: map_add_def)
  have c: "node_at ?n (p @ [t]) = Some c" using at m by (simp add: node_at_append)
  have "setLink t ?g ?M = Node l (map g (ds @ [x]) @ xs) ss"
    using t(2) by (simp add: x g) (induction ds, auto)
  then have "at_path (\<lambda>_. ?g) (p @ [t]) ?n = at_path (\<lambda>_. Node l (map g (ds @ [x]) @ xs) ss) p n"
    by (simp add: at_path_snoc [OF at m] at_path_twice)
  then have "(calls path_step)\<^sup>*\<^sup>* (Walk (p @ [t]) ws # map (\<lambda>t. Follow p t ws) (map fst xs) @ ts, as, ?n)
      (map (\<lambda>t. Follow p t ws) (map fst xs) @ ts, as @ map ((@) (p @ [t])) (snd (getNode ws c)),
       at_path (\<lambda>_. Node l (map g (ds @ [x]) @ xs) ss) p n)"
    using walk [OF _ c] Cons.prems(2) x by fastforce
  note run = rtranclp_trans [OF this Cons.IH [of "ds @ [x]"]]
  show ?case
    unfolding x list.map fst_conv append_Cons
    by (rule calls_first [where us = "[Walk (p @ [t]) ws]" and qs = "[]" and n' = "?n"])
      (use run Cons.prems c in \<open>simp_all add: x has_node_def o_def paths_below\<close>)
qed simp

lemma calls_getNode:
  "node_wf m \<Longrightarrow> node_at n p = Some m \<Longrightarrow>
     (calls path_step)\<^sup>*\<^sup>* (Walk p ws # ts, as, n)
       (ts, as @ map ((@) p) (snd (getNode ws m)), at_path (\<lambda>_. fst (getNode ws m)) p n)"
proof (induction ws arbitrary: p m n ts as)
  case Nil
  then show ?case
    by (intro calls_first [where us = "[]" and qs = "[p]" and n' = n]) (simp_all add: has_node_def at_path_same)
next
  case (Cons w ws)
  obtain l ls ss where m: "m = Node l ls ss" by (cases m)
  have p: "has_node n p" "node_at n p = Some m" using Cons.prems by (simp_all add: has_node_def)
  show ?case
  proof (cases rule: word_cases [of w])
    case plus
    let ?g = "\<lambda>(t, c). (t, fst (getNode ws c))"
    have "distinct (map fst ls)" "\<forall>(t, c) \<in> set ls. node_wf c"
      using Cons.prems(1) by (auto simp: m list_all_iff)
    with calls_each [OF Cons.IH p(1) refl, of "[]" ls ts as l ss] have
      "(calls path_step)\<^sup>*\<^sup>* (map (\<lambda>t. Follow p t ws) (map fst ls) @ ts, as, n)
        (ts, as @ map ((@) p) (snd (getNode (w # ws) m)), at_path (\<lambda>_. fst (getNode (w # ws) m)) p n)"
      using at_path_same [OF p(2)] by (simp add: plus m getNode_wild for_links_def)
    then show ?thesis
      by (intro calls_first [where us = "map (\<lambda>t. Follow p t ws) (map fst ls)" and qs = "[]" and n' = n])
        (use p(2) plus in \<open>auto simp: m\<close>)
  next
    case hash
    show ?thesis
    proof (cases "ls = []")
      case True
      then show ?thesis
        by (intro calls_first [where us = "[]" and qs = "[]" and n' = n])
          (use p(2) hash in \<open>simp_all add: m getNode_wild at_path_same\<close>)
    next
      case False
      have w: "path_step (Walk p (w # ws)) n = path_step (Wild p) n" using False p(2) hash by (simp add: m)
      have "snd (getNode (w # ws) m) = handleWildCard m" "fst (getNode (w # ws) m) = m"
        using False hash by (simp_all add: m getNode_wild)
      then have e: "(calls path_step)\<^sup>*\<^sup>* (Wild p # ts, as, n)
          (ts, as @ map ((@) p) (snd (getNode (w # ws) m)), at_path (\<lambda>_. fst (getNode (w # ws) m)) p n)"
        using calls_wild [OF Cons.prems, of ts as] at_path_same [OF p(2)] by simp
      from this show ?thesis
      proof (cases rule: converse_rtranclpE)
        case base
        then show ?thesis by simp
      next
        case (step y)
        from step(1) obtain us qs n' where u: "path_step (Wild p) n = Some (us, qs, n')" "y = (us @ ts, as @ qs, n')"
          by (blast elim: calls.cases)
        show ?thesis
          by (rule calls_first [OF _ step(2) [unfolded u(2)]]) (simp only: w u(1))
      qed
    qed
  next
    case word
    let ?m = "with_link w m" and ?n = "at_path (\<lambda>_. with_link w m) p n"
    obtain c where c: "getLink ?m w = Some c" using with_link_the by blast
    have wf: "node_wf c" using node_wf_child [OF with_link_wf [OF Cons.prems(1)] c] by blast
    have at: "node_at ?n p = Some ?m" by (rule node_at_at_path [OF p(1)])
    then have cat: "node_at ?n (p @ [w]) = Some c" using c by (simp add: node_at_append)
    have g: "getNode (w # ws) m = (setLink w (fst (getNode ws c)) ?m, map (Cons w) (snd (getNode ws c)))"
      using word c by (simp add: getNode_word Let_def)
    have "(calls path_step)\<^sup>*\<^sup>* (Walk (p @ [w]) ws # ts, as, ?n)
        (ts, as @ map ((@) p) (snd (getNode (w # ws) m)), at_path (\<lambda>_. fst (getNode (w # ws) m)) p n)"
      using Cons.IH [OF wf cat, of ts as] by (simp add: g at_path_snoc [OF at c] at_path_twice o_def)
    then have f: "(calls path_step)\<^sup>*\<^sup>* (Follow p w ws # ts, as, ?n)
        (ts, as @ map ((@) p) (snd (getNode (w # ws) m)), at_path (\<lambda>_. fst (getNode (w # ws) m)) p n)"
      by (intro calls_first [where us = "[Walk (p @ [w]) ws]" and qs = "[]" and n' = ?n])
        (use cat in \<open>simp_all add: has_node_def\<close>)
    show ?thesis
    proof (cases "getLink m w")
      case None
      then have "at_path (addLink w) p n = ?n"
        using at_path_const [OF p(2), of "addLink w"] by (simp add: with_link_def)
      then have "(calls path_step)\<^sup>*\<^sup>* (Missing p w ws # ts, as, n)
          (ts, as @ map ((@) p) (snd (getNode (w # ws) m)), at_path (\<lambda>_. fst (getNode (w # ws) m)) p n)"
        by (intro calls_first [where us = "[Follow p w ws]" and qs = "[]" and n' = ?n])
          (use f p None in \<open>simp_all add: has_node_snoc\<close>)
      then show ?thesis
        by (intro calls_first [where us = "[Missing p w ws]" and qs = "[]" and n' = n])
          (use p(2) None word in simp_all)
    next
      case (Some d)
      then have "?n = n" using at_path_same [OF p(2)] by (simp add: with_link_def)
      with f show ?thesis
        by (intro calls_first [where us = "[Follow p w ws]" and qs = "[]" and n' = n])
          (use p(2) Some word in simp_all)
    qed
  qed
qed

subsection \<open>A thread alone\<close>

definition alone :: "thread \<Rightarrow> node_store \<Rightarrow> thread \<Rightarrow> node_store \<Rightarrow> bool" where
  "alone th st th' st' \<longleftrightarrow> (\<exists>k. run_threads (replicate k 0) ([th], st) = Some ([th'], st'))"

lemma alone_refl: "alone th st th st"
  unfolding alone_def by (rule exI [of _ 0]) simp

lemma alone_step:
  assumes "thread_step th st = Some (th1, st1)" and "alone th1 st1 th' st'" shows "alone th st th' st'"
proof -
  obtain k where "run_threads (replicate k 0) ([th1], st1) = Some ([th'], st')"
    using assms(2) by (auto simp: alone_def)
  then have "run_threads (replicate (Suc k) 0) ([th], st) = Some ([th'], st')" using assms(1) by simp
  then show ?thesis unfolding alone_def by blast
qed

lemma alone_calls:
  assumes "(calls task_step)\<^sup>*\<^sup>* (ts, as, st) (ts', as', st')"
    and "alone \<lparr>th_op = op, th_todo = ts', th_vec = as', th_pos = k, th_found = r\<rparr> st' th z"
  shows "alone \<lparr>th_op = op, th_todo = ts, th_vec = as, th_pos = k, th_found = r\<rparr> st th z"
  using assms
proof (induction "(ts, as, st)" arbitrary: ts as st rule: converse_rtranclp_induct)
  case (step y)
  from step.hyps(1) obtain t us qs us' bs st1 where y: "ts = t # us" "y = (us' @ us, as @ bs, st1)"
    "task_step t st = Some (us', bs, st1)" by (auto elim: calls.cases)
  from step.hyps(3) [OF y(2) step.prems] y(1,3) show ?case
    by (auto simp: thread_step_def intro: alone_step)
qed

lemma at_path_id: "at_path (\<lambda>n. n) p n = n"
  by (induction p arbitrary: n) (auto simp: setLink_same split: option.split)

lemma op_finds_after: "op_finds op x (at_path (op_effect op) p n) = op_finds op x n"
  by (cases op) (simp_all add: op_finds_def at_path_id)

lemma alone_trans: "alone th st th1 st1 \<Longrightarrow> alone th1 st1 th' st' \<Longrightarrow> alone th st th' st'"
proof -
  have "run_threads (replicate k 0) ([th], st) = Some ([th1], st1) \<Longrightarrow> alone th1 st1 th' st' \<Longrightarrow> alone th st th' st'" for k
  proof (induction k arbitrary: th st)
    case (Suc k)
    then obtain th2 st2 where "thread_step th st = Some (th2, st2)"
      "run_threads (replicate k 0) ([th2], st2) = Some ([th1], st1)" by (auto split: option.split_asm)
    with Suc show ?case by (blast intro: alone_step)
  qed simp
  then show "alone th st th1 st1 \<Longrightarrow> alone th1 st1 th' st' \<Longrightarrow> alone th st th' st'" unfolding alone_def [of th st th1] by blast
qed

text \<open>One node: a write, or the inner loop of \<open>match\<close>.\<close>

lemma alone_match_node:
  assumes "sees st root n" and "addr_of st root p = Some a"
  shows "alone \<lparr>th_op = Match, th_todo = [], th_vec = a # as, th_pos = k, th_found = r\<rparr> st
    \<lparr>th_op = Match, th_todo = [], th_vec = as, th_pos = 0, th_found = r @ drop k (map snd (subs_at n p))\<rparr> st"
proof (induction "length (subs_at n p) - k" arbitrary: k r)
  case 0
  then have "thread_step \<lparr>th_op = Match, th_todo = [], th_vec = a # as, th_pos = k, th_found = r\<rparr> st =
      Some (\<lparr>th_op = Match, th_todo = [], th_vec = as, th_pos = 0, th_found = r\<rparr>, st)"
    using sees_match_step [OF assms, of k] by (simp add: thread_step_def del: op_step.simps)
  from alone_step [OF this alone_refl] 0 show ?case by simp
next
  case (Suc l)
  then have k: "k < length (subs_at n p)" by linarith
  then have d: "drop k (map snd (subs_at n p)) = map snd (subs_at n p) ! k # drop (Suc k) (map snd (subs_at n p))"
    by (metis Cons_nth_drop_Suc length_map)
  have "thread_step \<lparr>th_op = Match, th_todo = [], th_vec = a # as, th_pos = k, th_found = r\<rparr> st =
      Some (\<lparr>th_op = Match, th_todo = [], th_vec = a # as, th_pos = Suc k,
        th_found = r @ [map snd (subs_at n p) ! k]\<rparr>, st)"
    using sees_match_step [OF assms, of k] k by (simp add: thread_step_def del: op_step.simps)
  from alone_step [OF this Suc.hyps(1)] Suc.hyps(2) show ?case unfolding d by simp
qed

lemma alone_node:
  assumes "sees st root n" and "addr_of st root p = Some a"
  shows "\<exists>st'. alone \<lparr>th_op = op, th_todo = [], th_vec = a # as, th_pos = 0, th_found = r\<rparr> st
      \<lparr>th_op = op, th_todo = [], th_vec = as, th_pos = 0, th_found = r @ op_finds op p n\<rparr> st' \<and>
    sees st' root (at_path (op_effect op) p n) \<and> addr_of st' root = addr_of st root"
proof (cases "op = Match")
  case True
  with alone_match_node [OF assms, of as 0 r] assms(1) show ?thesis
    by (auto simp: op_finds_def at_path_id)
next
  case False
  with sees_op_step [OF assms, of op 0] obtain st' where st': "op_step op 0 a st = Some ([], None, st')"
    "sees st' root (at_path (op_effect op) p n)" "addr_of st' root = addr_of st root" by blast
  then have "thread_step \<lparr>th_op = op, th_todo = [], th_vec = a # as, th_pos = 0, th_found = r\<rparr> st =
      Some (\<lparr>th_op = op, th_todo = [], th_vec = as, th_pos = 0, th_found = r\<rparr>, st')"
    by (simp add: thread_step_def)
  from alone_step [OF this alone_refl] st' False show ?thesis by (auto simp: op_finds_def)
qed

lemma alone_visit:
  assumes "list_all2 (points st root) as ps" and "sees st root n"
  shows "\<exists>st'. alone \<lparr>th_op = op, th_todo = [], th_vec = as, th_pos = 0, th_found = r\<rparr> st
      \<lparr>th_op = op, th_todo = [], th_vec = [], th_pos = 0, th_found = r @ concat (map (\<lambda>p. op_finds op p n) ps)\<rparr> st' \<and>
    sees st' root (at_paths (op_effect op) ps n)"
  using assms
proof (induction ps arbitrary: as st n r rule: list.induct)
  case Nil
  have "as = []" using Nil.prems(1) by simp
  then show ?case using Nil.prems(2) alone_refl by (fastforce simp: at_paths_simps)
next
  case (Cons p ps)
  then obtain a bs where a: "as = a # bs" "points st root a p" "list_all2 (points st root) bs ps"
    by (auto simp: list_all2_Cons2)
  from alone_node [OF Cons.prems(2) a(2) [unfolded points_def], of op bs r] obtain st1 where st1:
    "alone \<lparr>th_op = op, th_todo = [], th_vec = a # bs, th_pos = 0, th_found = r\<rparr> st
      \<lparr>th_op = op, th_todo = [], th_vec = bs, th_pos = 0, th_found = r @ op_finds op p n\<rparr> st1"
    "sees st1 root (at_path (op_effect op) p n)" "addr_of st1 root = addr_of st root" by blast
  have "list_all2 (points st1 root) bs ps" using a(3) st1(3) by (simp add: points_def [abs_def])
  from Cons.IH [OF this st1(2), of "r @ op_finds op p n"] obtain st' where st':
    "alone \<lparr>th_op = op, th_todo = [], th_vec = bs, th_pos = 0, th_found = r @ op_finds op p n\<rparr> st1 \<lparr>th_op = op,
       th_todo = [], th_vec = [], th_pos = 0, th_found = r @ concat (map (\<lambda>p. op_finds op p n) (p # ps))\<rparr> st'"
    "sees st' root (at_paths (op_effect op) (p # ps) n)"
    by (auto simp: at_paths_simps op_finds_after)
  from alone_trans [OF st1(1) st'(1)] st'(2) show ?case unfolding a(1) by blast
qed

text \<open>The operations of the functional tree, with what they find.\<close>

fun tree_run :: "tree_op \<Rightarrow> string \<Rightarrow> Node \<Rightarrow> Node \<times> Subscription list" where
  "tree_run Match topic n = tree_match topic n"
| "tree_run (Subscribe c cs q) topic n = (tree_subscribe topic c cs q n, [])"
| "tree_run (Unsubscribe c) topic n = (tree_unsubscribe topic c n, [])"

lemma at_paths_id: "at_paths (\<lambda>n. n) ps n = n"
  by (induction ps) (simp_all add: at_paths_simps at_path_id)

lemma tree_run_eq:
  "tree_run op topic n = (at_paths (op_effect op) (reach topic n) (grown topic n),
     concat (map (\<lambda>p. op_finds op p (grown topic n)) (reach topic n)))"
proof (cases op)
  case Match
  have "subs_at (grown topic n) p = subs_at n p" for p by (simp add: grown_def subs_at_getNode)
  with Match show ?thesis by (simp add: prod_eq_iff tree_ops match_result op_finds_def at_paths_id)
qed (simp_all add: tree_ops op_finds_def)

text \<open>C13: Without interleaving, the critical sections of \<open>match\<close>, \<open>subscribe\<close> and \<open>unsubscribe\<close>, for topics and
  for filters with wildcards, implement the operations of the functional tree. On a store of owned nodes
  that stands for a tree, level by level and in the order of its links, the operation comes to its end,
  uses no destroyed node, has found the subscriptions that the functional operation finds, in its order,
  and leaves an owned store that stands for the functional tree after the operation.\<close>

theorem sequential_operation_refines:
  assumes "sees st root n" and "node_wf n"
  shows "\<exists>k th st'. run_threads (replicate k 0) ([start_thread root (op, topic)], st) = Some ([th], st') \<and>
    finished th \<and> th_found th = snd (tree_run op topic n) \<and> sees st' root (fst (tree_run op topic n))"
proof -
  have root: "addr_of st root [] = Some root" using seesD(1) [OF assms(1)] by (simp add: owned_def)
  then have "same_task st root (Walk root (split topic)) (Walk [] (split topic))" by (simp add: points_def)
  moreover have "(calls path_step)\<^sup>*\<^sup>* ([Walk [] (split topic)], [], n) ([], reach topic n, grown topic n)"
    using calls_getNode [OF assms(2), of n "[]" "split topic" "[]" "[]"] by (simp add: reach_def grown_def paths_root)
  ultimately obtain as st1 where r: "(calls task_step)\<^sup>*\<^sup>* ([Walk root (split topic)], [], st) ([], as, st1)"
    "sees st1 root (grown topic n)" "list_all2 (points st1 root) as (reach topic n)"
    using calls_follow [of "[Walk [] (split topic)]" "[]" n "[]" _ _ st root "[Walk root (split topic)]" "[]"] assms(1)
    by fastforce
  from alone_visit [OF r(3,2), of op "[]"] obtain st' where
    "alone \<lparr>th_op = op, th_todo = [], th_vec = as, th_pos = 0, th_found = []\<rparr> st1 \<lparr>th_op = op, th_todo = [], th_vec = [],
       th_pos = 0, th_found = snd (tree_run op topic n)\<rparr> st'" "sees st' root (fst (tree_run op topic n))"
    by (auto simp: tree_run_eq)
  with alone_calls [OF r(1) this(1)] show ?thesis
    by (fastforce simp: alone_def start_thread_def finished_def)
qed

lemma root_store_sees: "sees root_store 0 TopicTree_new"
proof -
  have "heap_getLink a t root_store = None" for a t
    by (simp add: heap_getLink_def root_store_def empty_cell_def)
  then have addr: "addr_of root_store 0 p = (if p = [] then Some 0 else None)" for p
    by (cases p) (simp_all add: root_store_def)
  have "heap_view root_store 0 p = tree_view TopicTree_new p" for p
    unfolding heap_view_def addr
    by (cases p) (simp_all add: tree_view_simps root_store_def cell_data_def empty_cell_def
        TopicTree_new_def new_node_def)
  then show ?thesis using root_store_ok(1) by (simp add: sees_def fun_eq_iff)
qed

theorem sequential_operation_refines_witness:
  "\<exists>k th st j th' st'. run_threads (replicate k 0) ([start_thread 0 (Subscribe ''c'' 4 1, ''/a'')], root_store) = Some ([th], st) \<and>
     run_threads (replicate j 0) ([start_thread 0 (Match, ''/+'')], st) = Some ([th'], st') \<and>
     finished th' \<and> th_found th' = [\<lparr>sub_session = 4, sub_qos = 1\<rparr>]"
proof -
  let ?n = "tree_subscribe ''/a'' ''c'' 4 1 TopicTree_new"
  have new: "node_wf TopicTree_new" by (simp add: TopicTree_new_def)
  have n: "?n = Node ''*'' [(''/'', Node ''/'' [(''a'', Node ''a'' [] [(''c'', \<lparr>sub_session = 4, sub_qos = 1\<rparr>)])] [])] []"
    by (simp add: tree_subscribe_def TopicTree_new_def getNode.simps(2) new_node_def Let_def)
  have m: "snd (tree_match ''/+'' ?n) = [\<lparr>sub_session = 4, sub_qos = 1\<rparr>]"
    unfolding n by (simp add: tree_match_def getNode.simps(2) Let_def)
  obtain k th st where s: "run_threads (replicate k 0) ([start_thread 0 (Subscribe ''c'' 4 1, ''/a'')], root_store) = Some ([th], st)"
    "sees st 0 ?n"
    using sequential_operation_refines [OF root_store_sees new, of "Subscribe ''c'' 4 1" "''/a''"]
    unfolding tree_run.simps fst_conv by blast
  from sequential_operation_refines [OF s(2) tree_ops_wf(1) [OF new], of Match "''/+''"] m s(1)
  show ?thesis unfolding tree_run.simps by fastforce
qed

end
