(* ===== verification/Tree_Sharing.thy ===== *)
theory Tree_Sharing
  imports Tree_Threads
begin

text \<open>
  Any number of threads on one topic tree. As long as the filters need no new node and no \<open>match\<close> comes to
  a node that a SUBSCRIBE or UNSUBSCRIBE writes, no interleaving of the steps uses a destroyed node or
  races, every thread ends after a number of steps that the tree and its filter determine, and threads
  that work for different clients keep out of each other's way. (When two threads need the same new node,
  a subscription can be lost: theory Topic_Race. When \<open>match\<close> meets a write, they race: Lock_Programs.)
\<close>

subsection \<open>Filters that need no new node\<close>

text \<open>
  The calls of such a filter, on the structure of the tree (its \<open>shape\<close>): what they will reach, and the
  number of steps they take.
\<close>

fun wild_cost :: "Node \<Rightarrow> nat" where
  "wild_cost (Node l ls ss) = Suc (sum_list (map (\<lambda>(t, c). Suc (wild_cost c)) ls))"

primrec walk_cost :: "string list \<Rightarrow> Node \<Rightarrow> nat" where
  "walk_cost [] = (\<lambda>n. 1)"
| "walk_cost (w # ws) = (\<lambda>n. Suc
     (if w = ''+'' then sum_list (map (\<lambda>(t, c). Suc (walk_cost ws c)) (links n))
      else if w = ''#'' then sum_list (map (\<lambda>(t, c). Suc (wild_cost c)) (links n))
      else case getLink n w of None \<Rightarrow> 0 | Some c \<Rightarrow> Suc (walk_cost ws c)))"

text \<open>
  An operation: the calls, and for each node it reaches one step, or with \<open>match\<close> one for each subscriber
  and one to leave.
\<close>

definition visit_cost :: "tree_op \<Rightarrow> Node \<Rightarrow> path \<Rightarrow> nat" where
  "visit_cost op n p = (if op = Match then Suc (length (subs_at n p)) else 1)"

definition op_cost :: "tree_op \<Rightarrow> string \<Rightarrow> Node \<Rightarrow> nat" where
  "op_cost op topic n = walk_cost (split topic) n + sum_list (map (visit_cost op n) (reach topic n))"

fun fits :: "Node \<Rightarrow> path task \<Rightarrow> bool" where
  "fits s (Walk p ws) = (case node_at s p of None \<Rightarrow> False | Some m \<Rightarrow> fst (getNode ws m) = m)"
| "fits s (Missing p w ws) = False"
| "fits s (Follow p w ws) = (case node_at s (p @ [w]) of None \<Rightarrow> False | Some m \<Rightarrow> fst (getNode ws m) = m)"
| "fits s (Below p t) = has_node s (p @ [t])"
| "fits s (Wild p) = has_node s p"

fun reaches :: "Node \<Rightarrow> path task \<Rightarrow> path list" where
  "reaches s (Walk p ws) = map ((@) p) (snd (getNode ws (the (node_at s p))))"
| "reaches s (Missing p w ws) = []"
| "reaches s (Follow p w ws) = map ((@) (p @ [w])) (snd (getNode ws (the (node_at s (p @ [w])))))"
| "reaches s (Below p t) = map ((@) (p @ [t])) (handleWildCard (the (node_at s (p @ [t]))))"
| "reaches s (Wild p) = map ((@) p) (handleWildCard (the (node_at s p)))"

fun cost :: "Node \<Rightarrow> path task \<Rightarrow> nat" where
  "cost s (Walk p ws) = walk_cost ws (the (node_at s p))"
| "cost s (Missing p w ws) = 0"
| "cost s (Follow p w ws) = Suc (walk_cost ws (the (node_at s (p @ [w]))))"
| "cost s (Below p t) = Suc (wild_cost (the (node_at s (p @ [t]))))"
| "cost s (Wild p) = wild_cost (the (node_at s p))"

lemma map_fixed: "map g xs = xs \<Longrightarrow> x \<in> set xs \<Longrightarrow> g x = x"
  by (induction xs) auto

lemma for_links_fixed: "for_links f n = n \<Longrightarrow> (t, c) \<in> set (links n) \<Longrightarrow> f c = c"
  using map_fixed [of "\<lambda>(t, c). (t, f c)" "links n" "(t, c)"] by (cases n) (simp add: for_links_def)

lemma word_fixed:
  assumes "w \<noteq> ''+''" and "w \<noteq> ''#''" and "fst (getNode (w # ws) n) = n"
  obtains c where "getLink n w = Some c" and "fst (getNode ws c) = c"
proof -
  let ?c = "the (getLink (with_link w n) w)"
  have n: "setLink w (fst (getNode ws ?c)) (with_link w n) = n"
    using assms by (simp add: getNode_word Let_def)
  then have g: "getLink n w = Some (fst (getNode ws ?c))"
    using setLink_sel(3) [of w "fst (getNode ws ?c)" "with_link w n"] by (metis fun_upd_same)
  have "with_link w n = n" by (subst with_link_def) (use g in \<open>metis option.distinct(1)\<close>)
  then have "getLink (with_link w n) w = Some (fst (getNode ws ?c))" using g by argo
  then have "?c = fst (getNode ws ?c)" by (metis option.sel)
  with that [OF g] show ?thesis by metis
qed

lemma node_at_kid:
  "node_at s p = Some m \<Longrightarrow> node_wf m \<Longrightarrow> x \<in> set (links m) \<Longrightarrow> node_at s (p @ [fst x]) = Some (snd x)"
  by (cases x) (simp add: node_at_append in_links)

lemma node_wf_at: "node_wf s \<Longrightarrow> node_at s p = Some m \<Longrightarrow> node_wf m"
  by (induction p arbitrary: s) (auto split: option.splits dest: node_wf_child)

lemma fits_step:
  assumes wf: "node_wf s" and f: "fits s pt"
  shows "\<exists>pts ps. path_step pt s = Some (pts, ps, s) \<and> list_all (fits s) pts \<and>
    reaches s pt = ps @ concat (map (reaches s) pts) \<and> cost s pt = Suc (sum_list (map (cost s) pts))"
proof (cases pt)
  case (Walk p ws)
  then obtain m where m: "node_at s p = Some m" "fst (getNode ws m) = m" "node_wf m"
    using f node_wf_at [OF wf] by (auto split: option.splits)
  note kid = node_at_kid [OF m(1,3)]
  show ?thesis
  proof (cases ws)
    case Nil
    with Walk m show ?thesis by (simp add: has_node_def)
  next
    case ws: (Cons w ws')
    show ?thesis
    proof (cases rule: word_cases [of w])
      case plus
      have "fst (getNode ws' c) = c" if "(t, c) \<in> set (links m)" for t c
        using m(2) for_links_fixed [OF _ that] by (simp add: ws plus getNode_wild)
      then show ?thesis
        using Walk m(1) kid
        by (auto simp: ws plus getNode_wild list_all_iff map_concat o_def case_prod_unfold cong: map_cong)
    next
      case hash
      show ?thesis
        using Walk m(1) kid
        by (auto simp: ws hash getNode_wild list_all_iff map_concat o_def case_prod_unfold has_node_def
            handleWildCard_eq [of m] cong: map_cong)
    next
      case word
      obtain c where c: "getLink m w = Some c" "fst (getNode ws' c) = c"
        using word_fixed [OF word] m(2) ws by blast
      then have "node_at s (p @ [w]) = Some c" using m(1) by (simp add: node_at_append)
      with c show ?thesis
        using Walk m(1) word by (simp add: ws getNode_word Let_def with_link_def o_def)
    qed
  qed
next
  case (Follow p w ws)
  with f show ?thesis by (auto simp: has_node_def split: option.splits)
next
  case (Wild p)
  then obtain m where m: "node_at s p = Some m" "node_wf m"
    using f node_wf_at [OF wf] by (auto simp: has_node_def)
  note kid = node_at_kid [OF m]
  have "wild_cost m = Suc (sum_list (map (\<lambda>x. Suc (wild_cost (snd x))) (links m)))"
    by (cases m) (simp add: case_prod_unfold)
  then show ?thesis
    using Wild m(1) kid
    by (auto simp: list_all_iff map_concat o_def case_prod_unfold has_node_def handleWildCard_eq [of m] cong: map_cong)
qed (use f in \<open>auto simp: has_node_def\<close>)

subsection \<open>Any number of threads\<close>

text \<open>Subscribers come and go, the structure stays.\<close>

lemma node_at_shape: "node_at (shape n) p = map_option shape (node_at n p)"
  by (induction p arbitrary: n) (auto split: option.split)

lemma has_node_shape: "has_node (shape n) p = has_node n p"
  by (simp add: has_node_def node_at_shape)

lemma shape_wf: "node_wf n \<Longrightarrow> node_wf (shape n)"
  by (induction n rule: node_wf.induct) (auto simp: list_all_iff o_def case_prod_unfold)

lemma shape_shape [simp]: "shape (shape n) = shape n"
  by (induction n rule: shape.induct) auto

lemma wild_cost_shape: "wild_cost (shape n) = wild_cost n"
proof (induction n rule: wild_cost.induct)
  case (1 l ls ss)
  then have "map (\<lambda>x. Suc (wild_cost (shape (snd x)))) ls = map (\<lambda>x. Suc (wild_cost (snd x))) ls" by auto
  then show ?case by (simp add: o_def case_prod_unfold del: map_eq_conv)
qed

lemma walk_cost_shape: "walk_cost ws (shape n) = walk_cost ws n"
  by (induction ws arbitrary: n) (simp_all add: wild_cost_shape o_def case_prod_unfold split: option.split)

lemma map_fst_shape: "map fst (map (\<lambda>(t, c). (t, f c)) xs) = map fst xs"
  by (simp add: o_def case_prod_unfold)

lemma path_step_shape:
  assumes "path_step pt (shape n) = Some (pts, ps, shape n)" and "fits (shape n) pt"
  shows "path_step pt n = Some (pts, ps, n)"
proof -
  have "path_step pt n = map_option (\<lambda>(pts, ps, s). (pts, ps, n)) (path_step pt (shape n))"
  proof (cases pt)
    case (Walk p ws)
    then show ?thesis
      by (cases ws; cases "node_at n p")
        (simp_all add: has_node_shape node_at_shape map_fst_shape del: map_map)
  next
    case (Missing p w ws)
    then show ?thesis using assms(2) by simp
  next
    case (Wild p)
    then show ?thesis
      by (cases "node_at n p") (simp_all add: node_at_shape map_fst_shape del: map_map)
  qed (simp_all add: has_node_shape)
  then show ?thesis using assms(1) by simp
qed

text \<open>
  What a thread has done (\<open>ds\<close>) and has still to do, in \<open>k\<close> steps, of the nodes \<open>rs\<close> it reaches, and what
  a \<open>match\<close> has found; \<open>n\<close> is the tree at the beginning.
\<close>

definition found_so_far :: "Node \<Rightarrow> path list \<Rightarrow> path list \<Rightarrow> thread \<Rightarrow> Subscription list" where
  "found_so_far n rs ds th =
     (if th_op th = Match
      then concat (map (\<lambda>x. map snd (subs_at n x)) ds) @ take (th_pos th) (map snd (subs_at n (rs ! length ds)))
      else [])"

definition on_the_way :: "node_store \<Rightarrow> nat \<Rightarrow> Node \<Rightarrow> path list \<Rightarrow> thread \<Rightarrow> path list \<Rightarrow> nat \<Rightarrow> bool" where
  "on_the_way st root n rs th ds k \<longleftrightarrow>
     (\<exists>ps pts. list_all2 (points st root) (th_vec th) ps \<and> list_all2 (same_task st root) (th_todo th) pts \<and>
        list_all (fits (shape n)) pts \<and> rs = ds @ ps @ concat (map (reaches (shape n)) pts) \<and> (ds = [] \<or> pts = []) \<and>
        k + th_pos th = sum_list (map (cost (shape n)) pts) +
          sum_list (map (visit_cost (th_op th) n) (ps @ concat (map (reaches (shape n)) pts))) \<and>
        (th_pos th = 0 \<or> th_op th = Match \<and> pts = [] \<and> ps \<noteq> [] \<and> th_pos th \<le> length (subs_at n (hd ps))) \<and>
        th_found th = found_so_far n rs ds th)"

lemma on_the_way_frame: "addr_of st' root = addr_of st root \<Longrightarrow> on_the_way st' root = on_the_way st root"
  by (simp add: on_the_way_def [abs_def] points_def [abs_def])

lemma on_the_way_start:
  assumes s: "sees st root n" "node_wf n" and fit: "grown topic n = n"
  shows "on_the_way st root n (reach topic n) (start_thread root (op, topic)) [] (op_cost op topic n)"
proof -
  have "addr_of st root [] = Some root" using seesD(1) [OF s(1)] by (simp add: owned_def)
  moreover have "fst (getNode (split topic) (shape n)) = shape n"
    using getNode_shape [of "split topic" n] fit by (simp add: grown_def)
  moreover have "snd (getNode (split topic) (shape n)) = reach topic n"
    using getNode_shape [of "split topic" n] by (simp add: reach_def)
  ultimately show ?thesis
    unfolding on_the_way_def
    by (intro exI [of _ "[]"] exI [of _ "[Walk [] (split topic)]"])
      (simp add: start_thread_def points_def paths_root op_cost_def walk_cost_shape found_so_far_def)
qed

lemma visit_cost_pos: "0 < visit_cost op n p"
  by (simp add: visit_cost_def)

lemma on_the_way_finished:
  assumes "node_wf n" and "on_the_way st root n rs th ds 0"
  shows "finished th \<and> ds = rs \<and> (th_op th = Match \<longrightarrow> th_found th = concat (map (\<lambda>x. map snd (subs_at n x)) rs))"
proof -
  from assms(2) obtain ps pts where p: "list_all2 (points st root) (th_vec th) ps"
    "list_all2 (same_task st root) (th_todo th) pts" "list_all (fits (shape n)) pts"
    "rs = ds @ ps @ concat (map (reaches (shape n)) pts)"
    "th_pos th = sum_list (map (cost (shape n)) pts) +
       sum_list (map (visit_cost (th_op th) n) (ps @ concat (map (reaches (shape n)) pts)))"
    "th_pos th = 0 \<or> th_op th = Match \<and> pts = [] \<and> ps \<noteq> [] \<and> th_pos th \<le> length (subs_at n (hd ps))"
    "th_found th = found_so_far n rs ds th" unfolding on_the_way_def by auto
  have z: "th_pos th = 0"
  proof (cases ps)
    case Nil
    with p(6) show ?thesis by simp
  next
    case (Cons x xs)
    have "th_op th = Match \<Longrightarrow> visit_cost (th_op th) n x = Suc (length (subs_at n x))" by (simp add: visit_cost_def)
    with p(5,6) Cons show ?thesis by auto
  qed
  have "pts = []"
  proof (cases pts)
    case (Cons t ts)
    then have "fits (shape n) t" "cost (shape n) t = 0" using p(3,5) z by auto
    with fits_step [OF shape_wf [OF assms(1)]] show ?thesis by fastforce
  qed
  moreover from this have "ps = []"
    using p(5) z visit_cost_pos [of "th_op th" n "hd ps"] by (cases ps) auto
  ultimately show ?thesis using p z by (auto simp: finished_def found_so_far_def)
qed

definition gives :: "tree_op \<Rightarrow> Subscription option" where
  "gives op = (case op of Subscribe c cs q \<Rightarrow> Some \<lparr>sub_session = cs, sub_qos = q\<rparr> | _ \<Rightarrow> None)"

definition clients_of :: "tree_op \<Rightarrow> string set" where
  "clients_of op = (case op of Match \<Rightarrow> {} | Subscribe c cs q \<Rightarrow> {c} | Unsubscribe c \<Rightarrow> {c})"

lemma look_op:
  "has_node n p \<Longrightarrow> look (at_path (op_effect op) p n) x c =
     (if x = p \<and> c \<in> clients_of op then gives op else look n x c)"
  using subs_at_at_path [OF subs_op_effect, of n p op x]
  by (cases op) (auto simp: look_def clients_of_def gives_def map_of_um_erase)

text \<open>One step of a thread: of its calls, of the inner loop of a \<open>match\<close>, or a write.\<close>

lemma call_step_ok:
  assumes s: "sees st root n'" "node_wf n'" "shape n' = shape n"
    and w: "on_the_way st root n rs th ds k" and t: "th_todo th = t # us"
  shows "\<exists>th' st'. thread_step th st = Some (th', st') \<and> sees st' root n' \<and>
    addr_of st' root = addr_of st root \<and> th_op th' = th_op th \<and> on_the_way st' root n rs th' ds (k - 1)"
proof -
  from w t obtain ps pt qts where p: "list_all2 (points st root) (th_vec th) ps"
    "same_task st root t pt" "list_all2 (same_task st root) us qts" "fits (shape n) pt" "list_all (fits (shape n)) qts"
    "rs = ds @ ps @ reaches (shape n) pt @ concat (map (reaches (shape n)) qts)" "ds = []" "th_pos th = 0"
    "k = cost (shape n) pt + sum_list (map (cost (shape n)) qts) +
       sum_list (map (visit_cost (th_op th) n) (ps @ reaches (shape n) pt @ concat (map (reaches (shape n)) qts)))"
    "th_found th = found_so_far n rs ds th"
    unfolding on_the_way_def by (auto simp: list_all2_Cons1)
  have wf: "node_wf (shape n)" using shape_wf [OF s(2)] s(3) by simp
  from fits_step [OF wf p(4)] obtain pts' ps' where f:
    "path_step pt (shape n) = Some (pts', ps', shape n)" "list_all (fits (shape n)) pts'"
    "reaches (shape n) pt = ps' @ concat (map (reaches (shape n)) pts')"
    "cost (shape n) pt = Suc (sum_list (map (cost (shape n)) pts'))" by blast
  have "path_step pt n' = Some (pts', ps', n')"
    using path_step_shape [of pt n' pts' ps'] f(1) p(4) s(3) by simp
  from task_step_follows [OF s(1) p(2) this] obtain ts' as st' where u:
    "task_step t st = Some (ts', as, st')" "sees st' root n'" "\<And>a x. points st root a x \<Longrightarrow> points st' root a x"
    "list_all2 (same_task st' root) ts' pts'" "list_all2 (points st' root) as ps'" by blast
  have addr: "addr_of st' root x = addr_of st root x" for x
  proof (cases "addr_of st root x")
    case None
    then show ?thesis using seesD(2) [OF s(1), of x] seesD(2) [OF u(2), of x] by auto
  next
    case (Some a)
    then show ?thesis using u(3) by (simp add: points_def)
  qed
  then have same: "points st' root = points st root" by (simp add: points_def fun_eq_iff)
  let ?th = "th\<lparr>th_todo := ts' @ us, th_vec := th_vec th @ as\<rparr>"
  have "list_all2 (points st' root) (th_vec ?th) (ps @ ps')" "list_all2 (same_task st' root) (th_todo ?th) (pts' @ qts)"
    using p(1,3) u(4,5) by (simp_all add: same list_all2_appendI)
  then have "on_the_way st' root n rs ?th ds (k - 1)"
    unfolding on_the_way_def
    by (intro exI [of _ "ps @ ps'"] exI [of _ "pts' @ qts"]) (use p(5-10) f(2-4) in \<open>simp add: found_so_far_def\<close>)
  moreover have "thread_step th st = Some (?th, st')" using t u(1) by (simp add: thread_step_def)
  ultimately show ?thesis using u(2) addr by (intro exI [of _ ?th] exI [of _ st']) auto
qed

text \<open>The node a thread is at is the next one it reaches.\<close>

lemma on_the_way_at:
  assumes w: "on_the_way st root n rs th ds k" and t: "th_todo th = []" "th_vec th = a # as"
  shows "\<exists>x xs. points st root a x \<and> list_all2 (points st root) as xs \<and> rs = ds @ x # xs \<and>
    k + th_pos th = visit_cost (th_op th) n x + sum_list (map (visit_cost (th_op th) n) xs) \<and>
    (th_pos th = 0 \<or> th_op th = Match \<and> th_pos th \<le> length (subs_at n x)) \<and> th_found th = found_so_far n rs ds th"
  using assms unfolding on_the_way_def by (auto simp: list_all2_Cons1)

lemma on_the_way_visited:
  assumes "list_all2 (points st root) as xs" and "rs = ds @ xs" and "th_todo th = []" and "th_vec th = as" and "th_pos th = 0"
    and "k = sum_list (map (visit_cost (th_op th) n) xs)" and "th_found th = found_so_far n rs ds th"
  shows "on_the_way st root n rs th ds k"
  unfolding on_the_way_def using assms by (intro exI [of _ xs] exI [of _ "[]"]) simp

lemma match_step_ok:
  assumes s: "sees st root n'" and w: "on_the_way st root n rs th ds k" and t: "th_todo th = []" "th_op th = Match"
    and same: "\<forall>x \<in> set rs. subs_at n' x = subs_at n x"
  shows "\<exists>th' ds'. thread_step th st = Some (th', st) \<and> th_op th' = Match \<and> on_the_way st root n rs th' ds' (k - 1)"
proof (cases "th_vec th")
  case Nil
  with w t have "k - 1 = k" unfolding on_the_way_def by auto
  with w t Nil show ?thesis by (auto simp: thread_step_def)
next
  case (Cons a as)
  from on_the_way_at [OF w t(1) Cons] obtain x xs where x: "points st root a x" "list_all2 (points st root) as xs"
    "rs = ds @ x # xs" "k + th_pos th = Suc (length (subs_at n x)) + sum_list (map (visit_cost Match n) xs)"
    "th_pos th \<le> length (subs_at n x)" "th_found th = found_so_far n rs ds th"
    using t(2) by (auto simp: visit_cost_def)
  have m: "op_step Match (th_pos th) a st = Some (if th_pos th < length (subs_at n x)
      then ([map snd (subs_at n x) ! th_pos th], Some (th_pos th + 1), st) else ([], None, st))"
  proof -
    have "subs_at n' x = subs_at n x" using same x(3) by simp
    with sees_match_step [OF s x(1) [unfolded points_def], of "th_pos th"] show ?thesis by (simp only:)
  qed
  show ?thesis
  proof (cases "th_pos th < length (subs_at n x)")
    case True
    let ?th = "th\<lparr>th_pos := th_pos th + 1, th_found := th_found th @ [map snd (subs_at n x) ! th_pos th]\<rparr>"
    have "th_found ?th = found_so_far n rs ds ?th"
      using x(3,6) t(2) True by (simp add: found_so_far_def take_Suc_conv_app_nth)
    then have "on_the_way st root n rs ?th ds (k - 1)"
      unfolding on_the_way_def
      by (intro exI [of _ "x # xs"] exI [of _ "[]"]) (use x(1-5) t Cons True in \<open>simp add: visit_cost_def\<close>)
    moreover have "thread_step th st = Some (?th, st)" using m True t Cons by (simp add: thread_step_def del: op_step.simps)
    ultimately show ?thesis using t(2) by (intro exI [of _ ?th] exI [of _ ds]) simp
  next
    case False
    let ?th = "th\<lparr>th_vec := as, th_pos := 0\<rparr>"
    have "th_pos th = length (subs_at n x)" using False x(5) by simp
    then have "on_the_way st root n rs ?th (ds @ [x]) (k - 1)"
      using x t by (intro on_the_way_visited [OF x(2)]) (simp_all add: found_so_far_def)
    moreover have "thread_step th st = Some (?th, st)" using m False t Cons by (simp add: thread_step_def del: op_step.simps)
    ultimately show ?thesis using t(2) by (intro exI [of _ ?th] exI [of _ "ds @ [x]"]) simp
  qed
qed

lemma write_step_ok:
  assumes s: "sees st root n'" "node_wf n'" and w: "on_the_way st root n rs th ds k"
    and t: "th_todo th = []" "th_op th \<noteq> Match" and v: "th_vec th = a # as"
  shows "\<exists>th' st' x. thread_step th st = Some (th', st') \<and> th_op th' = th_op th \<and> x \<in> set rs \<and> has_node n' x \<and>
    on_the_way st' root n rs th' (ds @ [x]) (k - 1) \<and> sees st' root (at_path (op_effect (th_op th)) x n') \<and>
    node_wf (at_path (op_effect (th_op th)) x n') \<and> shape (at_path (op_effect (th_op th)) x n') = shape n' \<and>
    addr_of st' root = addr_of st root"
proof -
  from on_the_way_at [OF w t(1) v] t(2) obtain x xs where x: "points st root a x" "list_all2 (points st root) as xs"
    "rs = ds @ x # xs" "k = 1 + sum_list (map (visit_cost (th_op th) n) xs)" "th_pos th = 0"
    "th_found th = found_so_far n rs ds th" by (auto simp: visit_cost_def)
  from sees_op_step [OF s(1) x(1) [unfolded points_def] t(2), of 0] obtain st' where u:
    "op_step (th_op th) 0 a st = Some ([], None, st')"
    "sees st' root (at_path (op_effect (th_op th)) x n')" "addr_of st' root = addr_of st root" by blast
  let ?th = "th\<lparr>th_vec := as\<rparr>"
  have "thread_step th st = Some (?th, st')" using u(1) t v x(5) by (simp add: thread_step_def)
  moreover have "on_the_way st' root n rs ?th (ds @ [x]) (k - 1)"
    unfolding on_the_way_frame [OF u(3)]
    using x t by (intro on_the_way_visited [OF x(2)]) (simp_all add: found_so_far_def)
  moreover have "um_ok (op_subs op ss)" if "um_ok ss" for op ss using that by (cases op) auto
  then have "node_wf (at_path (op_effect (th_op th)) x n')" "shape (at_path (op_effect (th_op th)) x n') = shape n'"
    using at_path_wf [OF subs_op_effect _ s(2)] shape_at_path [OF subs_op_effect] by auto
  moreover have "has_node n' x" using x(1) seesD(2) [OF s(1), of x] by (simp add: points_def)
  ultimately show ?thesis using u(2,3) x(3) by (intro exI [of _ ?th] exI [of _ st'] exI [of _ x]) simp
qed

abbreviation untouched :: "(tree_op \<times> string) list \<Rightarrow> string \<Rightarrow> bool" where
  "untouched reqs c \<equiv> \<forall>j < length reqs. c \<notin> clients_of (fst (reqs ! j))"

text \<open>The writers work for different clients, and no \<open>match\<close> reaches a node that a writer reaches.\<close>

definition apart :: "Node \<Rightarrow> (tree_op \<times> string) list \<Rightarrow> bool" where
  "apart n reqs \<longleftrightarrow>
     (\<forall>i < length reqs. \<forall>j < length reqs. i \<noteq> j \<longrightarrow> clients_of (fst (reqs ! i)) \<inter> clients_of (fst (reqs ! j)) = {}) \<and>
     (\<forall>(op, topic) \<in> set reqs. \<forall>(op', topic') \<in> set reqs. op = Match \<longrightarrow> op' \<noteq> Match \<longrightarrow>
        set (reach topic n) \<inter> set (reach topic' n) = {})"

lemma apartD:
  assumes "apart n reqs" and "i < length reqs" and "j < length reqs"
  shows "i \<noteq> j \<Longrightarrow> c \<in> clients_of (fst (reqs ! i)) \<Longrightarrow> c \<notin> clients_of (fst (reqs ! j))"
    "fst (reqs ! i) = Match \<Longrightarrow> fst (reqs ! j) \<noteq> Match \<Longrightarrow> x \<in> set (reach (snd (reqs ! i)) n) \<Longrightarrow>
       x \<notin> set (reach (snd (reqs ! j)) n)"
proof -
  have "\<forall>i < length reqs. \<forall>j < length reqs. i \<noteq> j \<longrightarrow> clients_of (fst (reqs ! i)) \<inter> clients_of (fst (reqs ! j)) = {}"
    using assms(1) by (simp add: apart_def)
  with assms(2,3) show "i \<noteq> j \<Longrightarrow> c \<in> clients_of (fst (reqs ! i)) \<Longrightarrow> c \<notin> clients_of (fst (reqs ! j))" by blast
  have "\<forall>(op, topic) \<in> set reqs. \<forall>(op', topic') \<in> set reqs. op = Match \<longrightarrow> op' \<noteq> Match \<longrightarrow>
      set (reach topic n) \<inter> set (reach topic' n) = {}"
    using assms(1) by (simp add: apart_def)
  moreover have "(fst (reqs ! i), snd (reqs ! i)) \<in> set reqs" "(fst (reqs ! j), snd (reqs ! j)) \<in> set reqs"
    using assms(2,3) by simp_all
  ultimately show "fst (reqs ! i) = Match \<Longrightarrow> fst (reqs ! j) \<noteq> Match \<Longrightarrow> x \<in> set (reach (snd (reqs ! i)) n) \<Longrightarrow>
      x \<notin> set (reach (snd (reqs ! j)) n)" by fast
qed

text \<open>
  The threads of a list of requests, part of the way: \<open>ds i\<close> are the nodes thread \<open>i\<close> has visited,
  \<open>ks i\<close> the steps it still needs.
\<close>

definition together ::
    "nat \<Rightarrow> Node \<Rightarrow> (tree_op \<times> string) list \<Rightarrow> (nat \<Rightarrow> path list) \<Rightarrow> (nat \<Rightarrow> nat) \<Rightarrow> thread list \<Rightarrow> node_store \<Rightarrow> Node \<Rightarrow> bool"
where
  "together root n reqs ds ks ths st n' \<longleftrightarrow>
     sees st root n' \<and> node_wf n' \<and> shape n' = shape n \<and> length ths = length reqs \<and>
     (\<forall>i < length reqs. th_op (ths ! i) = fst (reqs ! i) \<and>
        on_the_way st root n (reach (snd (reqs ! i)) n) (ths ! i) (ds i) (ks i)) \<and>
     (\<forall>i < length reqs. \<forall>c \<in> clients_of (fst (reqs ! i)). \<forall>x.
        look n' x c = (if x \<in> set (ds i) then gives (fst (reqs ! i)) else look n x c)) \<and>
     (\<forall>c x. untouched reqs c \<longrightarrow> look n' x c = look n x c) \<and>
     (\<forall>i < length reqs. fst (reqs ! i) = Match \<longrightarrow> (\<forall>x \<in> set (reach (snd (reqs ! i)) n). subs_at n' x = subs_at n x))"

lemma togetherD:
  assumes "together root n reqs ds ks ths st n'"
  shows "sees st root n'" "node_wf n'" "shape n' = shape n" "length ths = length reqs"
    "i < length reqs \<Longrightarrow> th_op (ths ! i) = fst (reqs ! i)"
    "i < length reqs \<Longrightarrow> on_the_way st root n (reach (snd (reqs ! i)) n) (ths ! i) (ds i) (ks i)"
    "i < length reqs \<Longrightarrow> c \<in> clients_of (fst (reqs ! i)) \<Longrightarrow>
       look n' x c = (if x \<in> set (ds i) then gives (fst (reqs ! i)) else look n x c)"
    "untouched reqs c \<Longrightarrow> look n' x c = look n x c"
    "i < length reqs \<Longrightarrow> fst (reqs ! i) = Match \<Longrightarrow> x \<in> set (reach (snd (reqs ! i)) n) \<Longrightarrow> subs_at n' x = subs_at n x"
  using assms unfolding together_def by blast+

text \<open>Two threads at the same address are at the same path, so none of them is a \<open>match\<close> and one a writer.\<close>

lemma together_no_race:
  assumes t: "together root n reqs ds ks ths st n'" and apart: "apart n reqs"
  shows "\<not> racing ths"
proof
  assume "racing ths"
  then obtain th th' a where r: "th \<in> set ths" "th' \<in> set ths" "at_node th = Some a" "at_node th' = Some a"
    "th_op th = Match" "th_op th' \<noteq> Match" unfolding racing_def by fastforce
  obtain i j where ij: "i < length reqs" "ths ! i = th" "j < length reqs" "ths ! j = th'"
    using r(1,2) togetherD(4) [OF t] by (metis in_set_conv_nth)
  have at: "\<exists>x \<in> set (reach (snd (reqs ! k)) n). addr_of st root x = Some a" if k: "k < length reqs" "at_node (ths ! k) = Some a" for k
  proof -
    obtain as where "th_todo (ths ! k) = []" "th_vec (ths ! k) = a # as"
      using k(2) by (auto simp: at_node_def split: list.split_asm)
    from on_the_way_at [OF togetherD(6) [OF t k(1)] this] show ?thesis by (auto simp: points_def)
  qed
  obtain x y where xy: "x \<in> set (reach (snd (reqs ! i)) n)" "addr_of st root x = Some a"
    "y \<in> set (reach (snd (reqs ! j)) n)" "addr_of st root y = Some a"
    using at [of i] at [of j] ij r(3,4) by blast
  have "x = y" using xy(2,4) seesD(1) [OF togetherD(1) [OF t]] by (simp add: owned_def)
  moreover have "fst (reqs ! i) = Match" "fst (reqs ! j) \<noteq> Match"
    using togetherD(5) [OF t] ij r(5,6) by auto
  ultimately show False using apartD(2) [OF apart ij(1,3)] xy(1,3) by blast
qed

lemma together_step:
  assumes t: "together root n reqs ds ks ths st n'" and i: "i < length reqs" and apart: "apart n reqs"
  shows "\<exists>th st' ds' n''. thread_step (ths ! i) st = Some (th, st') \<and>
    together root n reqs ds' (ks(i := ks i - 1)) (ths[i := th]) st' n''"
proof -
  let ?op = "fst (reqs ! i)" and ?rs = "reach (snd (reqs ! i)) n"
  have h: "sees st root n'" "node_wf n'" "shape n' = shape n" "length ths = length reqs" "th_op (ths ! i) = ?op"
    "on_the_way st root n ?rs (ths ! i) (ds i) (ks i)"
    using togetherD(1-6) [OF t] i by simp_all
  have others: "\<forall>j < length reqs. th_op (ths[i := th] ! j) = fst (reqs ! j) \<and>
      on_the_way st' root n (reach (snd (reqs ! j)) n) (ths[i := th] ! j) ((ds(i := d)) j) ((ks(i := ks i - 1)) j)"
    if "addr_of st' root = addr_of st root" "th_op th = ?op" "on_the_way st' root n ?rs th d (ks i - 1)" for th st' d
    using t that h(4) on_the_way_frame [OF that(1)] by (simp add: together_def nth_list_update)
  show ?thesis
  proof (cases "th_todo (ths ! i) = [] \<and> th_vec (ths ! i) \<noteq> [] \<and> ?op \<noteq> Match")
    case False
    have "\<exists>th st' d. thread_step (ths ! i) st = Some (th, st') \<and> sees st' root n' \<and> addr_of st' root = addr_of st root \<and>
        th_op th = ?op \<and> on_the_way st' root n ?rs th d (ks i - 1) \<and> (?op \<noteq> Match \<longrightarrow> d = ds i)"
    proof (cases "th_todo (ths ! i)")
      case (Cons u us)
      from call_step_ok [OF h(1-3,6) Cons, unfolded h(5)] show ?thesis by blast
    next
      case Nil
      show ?thesis
      proof (cases "?op = Match")
        case True
        from match_step_ok [OF h(1,6) Nil] h(5) True togetherD(9) [OF t i] h(1) show ?thesis by fastforce
      next
        case op: False
        then have v: "th_vec (ths ! i) = []" using False Nil by blast
        then have "ks i - 1 = ks i" using h(5,6) Nil op unfolding on_the_way_def by auto
        moreover have "thread_step (ths ! i) st = Some (ths ! i, st)" using Nil v by (simp add: thread_step_def)
        ultimately show ?thesis using h by auto
      qed
    qed
    then obtain th st' d where u: "thread_step (ths ! i) st = Some (th, st')" "sees st' root n'"
      "addr_of st' root = addr_of st root" "th_op th = ?op" "on_the_way st' root n ?rs th d (ks i - 1)"
      "?op \<noteq> Match \<longrightarrow> d = ds i" by blast
    have "look n' x c = (if x \<in> set ((ds(i := d)) j) then gives (fst (reqs ! j)) else look n x c)"
      if "j < length reqs" "c \<in> clients_of (fst (reqs ! j))" for j c x
      using togetherD(7) [OF t that, of x] that(2) u(6) by (cases "j = i") (auto simp: clients_of_def split: tree_op.splits)
    then have "together root n reqs (ds(i := d)) (ks(i := ks i - 1)) (ths[i := th]) st' n'"
      using others [OF u(3-5)] t u(2) h(4) unfolding together_def by simp
    with u(1) show ?thesis by blast
  next
    case True
    then obtain a as where v: "th_todo (ths ! i) = []" "th_vec (ths ! i) = a # as" "th_op (ths ! i) \<noteq> Match"
      using h(5) by (auto simp: neq_Nil_conv)
    from write_step_ok [OF h(1,2,6) v(1,3,2)] obtain th st' p where u: "thread_step (ths ! i) st = Some (th, st')"
      "th_op th = ?op" "p \<in> set ?rs" "has_node n' p" "on_the_way st' root n ?rs th (ds i @ [p]) (ks i - 1)"
      "sees st' root (at_path (op_effect ?op) p n')" "node_wf (at_path (op_effect ?op) p n')"
      "shape (at_path (op_effect ?op) p n') = shape n" "addr_of st' root = addr_of st root"
      using h(3,5) by auto
    let ?n = "at_path (op_effect ?op) p n'" and ?ds = "ds(i := ds i @ [p])"
    have l: "look ?n x c = (if x = p \<and> c \<in> clients_of ?op then gives ?op else look n' x c)" for x c
      by (rule look_op [OF u(4)])
    have "look ?n x c = (if x \<in> set (?ds j) then gives (fst (reqs ! j)) else look n x c)"
      if j: "j < length reqs" "c \<in> clients_of (fst (reqs ! j))" for j c x
    proof -
      have "c \<in> clients_of ?op \<longleftrightarrow> j = i" using apartD(1) [OF apart j(1) i _ j(2)] j(2) by blast
      with togetherD(7) [OF t j, of x] show ?thesis by (auto simp: l)
    qed
    moreover have "look ?n x c = look n x c" if "untouched reqs c" for c x
      using togetherD(8) [OF t that] that i by (simp add: l)
    moreover have "subs_at ?n x = subs_at n x"
      if j: "j < length reqs" "fst (reqs ! j) = Match" "x \<in> set (reach (snd (reqs ! j)) n)" for j x
    proof -
      have "x \<noteq> p" using apartD(2) [OF apart j(1) i j(2) _ j(3)] u(3) True by blast
      then show ?thesis using togetherD(9) [OF t j] subs_at_at_path [OF subs_op_effect u(4)] by simp
    qed
    ultimately have "together root n reqs ?ds (ks(i := ks i - 1)) (ths[i := th]) st' ?n"
      using others [OF u(9,2,5)] u(6-8) h(4) unfolding together_def by simp
    with u(1) show ?thesis by blast
  qed
qed

lemma together_run:
  assumes "together root n reqs ds ks ths st n'" and "apart n reqs"
  shows "\<exists>ths' st' ds' n''. run_threads sch (ths, st) = Some (ths', st') \<and>
    together root n reqs ds' (\<lambda>i. ks i - count_list sch i) ths' st' n''"
  using assms(1)
proof (induction sch arbitrary: ds ks ths st n')
  case Nil
  then show ?case using together_no_race [OF Nil.prems assms(2)] by auto
next
  case (Cons i sch)
  note len = togetherD(4) [OF Cons.prems] and nr = together_no_race [OF Cons.prems assms(2)]
  show ?case
  proof (cases "i < length reqs")
    case True
    from together_step [OF Cons.prems True assms(2)] obtain th st1 ds1 n1 where
      "thread_step (ths ! i) st = Some (th, st1)" "together root n reqs ds1 (ks(i := ks i - 1)) (ths[i := th]) st1 n1"
      by blast
    moreover have "(\<lambda>j. (ks(i := ks i - 1)) j - count_list sch j) = (\<lambda>j. ks j - count_list (i # sch) j)"
      by (auto simp: fun_eq_iff)
    ultimately show ?thesis using Cons.IH [of ds1 "ks(i := ks i - 1)"] True len nr by (simp del: fun_upd_apply)
  next
    case False
    have "together root n reqs d (\<lambda>k. ks k - count_list (i # sch) k) t s m \<longleftrightarrow>
        together root n reqs d (\<lambda>k. ks k - count_list sch k) t s m" for d t s m
      using False by (auto simp: together_def)
    with Cons.IH [OF Cons.prems] False len nr show ?thesis by simp
  qed
qed

lemma together_start:
  assumes "sees st root n" and "node_wf n" and "\<forall>(op, topic) \<in> set reqs. grown topic n = n"
  shows "together root n reqs (\<lambda>i. []) (\<lambda>i. op_cost (fst (reqs ! i)) (snd (reqs ! i)) n) (map (start_thread root) reqs) st n"
proof -
  have "on_the_way st root n (reach (snd (reqs ! i)) n) (start_thread root (reqs ! i)) []
      (op_cost (fst (reqs ! i)) (snd (reqs ! i)) n)"
    if "i < length reqs" for i
    using on_the_way_start [OF assms(1,2), of "snd (reqs ! i)" "fst (reqs ! i)"] assms(3) nth_mem [OF that] by auto
  then show ?thesis
    using assms(1,2) unfolding together_def by (simp add: start_thread_def)
qed

subsection \<open>Properties\<close>

text \<open>C18: Operations on filters that need no new node, and that do not read what another one writes, are
  safe at once. Let any number of threads run \<open>match\<close>, \<open>subscribe\<close> and \<open>unsubscribe\<close> on such filters, the last
  two for different clients and at nodes that no \<open>match\<close> of the others comes to, in any interleaving of
  the critical sections and of the turns of the unlocked loop of \<open>match\<close>. No step uses a destroyed node and no
  \<open>match\<close> is ever about to read subscribers that another thread is about to change. A thread that has made
  as many steps as the tree and its filter say is finished, however the others were scheduled: its
  subscription is then at, or gone from, exactly the nodes the operation alone would leave it at, or off;
  a \<open>match\<close> has found exactly what it finds alone, in the same order. The other clients' subscriptions
  and the structure are as before.\<close>

theorem concurrent_operations_independent:
  assumes "sees st root n" and "node_wf n" and "\<forall>(op, topic) \<in> set reqs. grown topic n = n"
    and "\<forall>i < length reqs. \<forall>j < length reqs. i \<noteq> j \<longrightarrow> clients_of (fst (reqs ! i)) \<inter> clients_of (fst (reqs ! j)) = {}"
    and "\<forall>(op, topic) \<in> set reqs. \<forall>(op', topic') \<in> set reqs. op = Match \<longrightarrow> op' \<noteq> Match \<longrightarrow>
      set (reach topic n) \<inter> set (reach topic' n) = {}"
  shows "\<exists>ths st' n'. run_threads sch (map (start_thread root) reqs, st) = Some (ths, st') \<and>
    sees st' root n' \<and> shape n' = shape n \<and> (\<forall>c x. untouched reqs c \<longrightarrow> look n' x c = look n x c) \<and>
    (\<forall>i < length reqs. op_cost (fst (reqs ! i)) (snd (reqs ! i)) n \<le> count_list sch i \<longrightarrow> finished (ths ! i) \<and>
       (case reqs ! i of
          (Subscribe c cs q, topic) \<Rightarrow> (\<forall>x. look n' x c = look (tree_subscribe topic c cs q n) x c)
        | (Unsubscribe c, topic) \<Rightarrow> (\<forall>x. look n' x c = look (tree_unsubscribe topic c n) x c)
        | (Match, topic) \<Rightarrow> th_found (ths ! i) = snd (tree_match topic n)))"
proof -
  have "apart n reqs" using assms(4,5) by (simp add: apart_def)
  from together_run [OF together_start [OF assms(1-3)] this, of sch] obtain ths st' ds n' where
    r: "run_threads sch (map (start_thread root) reqs, st) = Some (ths, st')"
    and t: "together root n reqs ds (\<lambda>i. op_cost (fst (reqs ! i)) (snd (reqs ! i)) n - count_list sch i) ths st' n'" by blast
  have "finished (ths ! i) \<and>
       (case reqs ! i of
          (Subscribe c cs q, topic) \<Rightarrow> (\<forall>x. look n' x c = look (tree_subscribe topic c cs q n) x c)
        | (Unsubscribe c, topic) \<Rightarrow> (\<forall>x. look n' x c = look (tree_unsubscribe topic c n) x c)
        | (Match, topic) \<Rightarrow> th_found (ths ! i) = snd (tree_match topic n))"
    if i: "i < length reqs" and k: "op_cost (fst (reqs ! i)) (snd (reqs ! i)) n \<le> count_list sch i" for i
  proof -
    obtain op topic where q: "reqs ! i = (op, topic)" by (cases "reqs ! i")
    have "on_the_way st' root n (reach topic n) (ths ! i) (ds i) 0"
      using togetherD(6) [OF t i] k q by simp
    from on_the_way_finished [OF assms(2) this] have f: "finished (ths ! i)" "ds i = reach topic n"
      "op = Match \<Longrightarrow> th_found (ths ! i) = snd (tree_match topic n)"
      using togetherD(5) [OF t i] q by (auto simp: match_result)
    have own: "\<forall>c \<in> clients_of op. \<forall>x. look n' x c = (if x \<in> set (reach topic n) then gives op else look n x c)"
      using togetherD(7) [OF t i] by (simp add: q f(2))
    show ?thesis
    proof (cases op)
      case Match
      then show ?thesis using f q by simp
    next
      case (Subscribe c cs v)
      then show ?thesis using f own q by (simp add: clients_of_def gives_def look_subscribe [OF assms(2)])
    next
      case (Unsubscribe c)
      then show ?thesis using f own q by (simp add: clients_of_def gives_def look_unsubscribe [OF assms(2)])
    qed
  qed
  then show ?thesis using r t by (intro exI [of _ ths] exI [of _ st'] exI [of _ n']) (simp add: togetherD [OF t])
qed

definition two_level_tree :: Node where
  "two_level_tree =
     Node ''*'' [(''/'', Node ''/'' [(''a'', Node ''a'' [] [])] [(''e'', \<lparr>sub_session = 3, sub_qos = 1\<rparr>)])] []"

definition two_level_store :: node_store where
  "two_level_store =
     \<lparr>cells = [0 \<mapsto> \<lparr>cell_level = ''*'', cell_links = [(''/'', 1)], cell_subscribers = []\<rparr>,
        1 \<mapsto> \<lparr>cell_level = ''/'', cell_links = [(''a'', 2)], cell_subscribers = [(''e'', \<lparr>sub_session = 3, sub_qos = 1\<rparr>)]\<rparr>,
        2 \<mapsto> empty_cell ''a''],
      next_cell = 3\<rparr>"

lemma two_level_sees: "sees two_level_store 0 two_level_tree"
proof -
  have link: "heap_getLink 0 t two_level_store = (if t = ''/'' then Some 1 else None)"
    "heap_getLink (Suc 0) t two_level_store = (if t = ''a'' then Some 2 else None)"
    "heap_getLink 2 t two_level_store = None" for t
    by (simp_all add: heap_getLink_def two_level_store_def empty_cell_def)
  have live: "\<exists>h. cells two_level_store 0 = Some h" "\<exists>h. cells two_level_store (Suc 0) = Some h"
    "\<exists>h. cells two_level_store 2 = Some h"
    by (simp_all add: two_level_store_def)
  have leaf: "addr_of two_level_store 2 p = (if p = [] then Some 2 else None)" for p
    using live by (cases p) (auto simp: link)
  have mid: "addr_of two_level_store (Suc 0) p = (if p = [] then Some 1 else if p = [''a''] then Some 2 else None)" for p
    using live by (cases p) (auto simp: link leaf)
  have addr: "addr_of two_level_store 0 p = (if p = [] then Some 0 else if p = [''/''] then Some 1
      else if p = [''/'', ''a''] then Some 2 else None)" for p
    using live by (cases p) (auto simp: link mid)
  have "tree_view two_level_tree p = (if p = [] then Some (''*'', [''/''], []) else if p = [''/''] then Some (''/'', [''a''], [(''e'', \<lparr>sub_session = 3, sub_qos = 1\<rparr>)])
      else if p = [''/'', ''a''] then Some (''a'', [], []) else None)" for p
    by (cases p; cases "tl p"; cases "tl (tl p)") (auto simp: tree_view_simps two_level_tree_def)
  moreover have "heap_view two_level_store 0 p = (if p = [] then Some (''*'', [''/''], []) else if p = [''/''] then Some (''/'', [''a''], [(''e'', \<lparr>sub_session = 3, sub_qos = 1\<rparr>)])
      else if p = [''/'', ''a''] then Some (''a'', [], []) else None)" for p
    unfolding heap_view_def addr by (simp add: two_level_store_def cell_data_def empty_cell_def)
  moreover have "owned two_level_store 0"
    unfolding owned_def addr using live
    by (auto simp: two_level_store_def empty_cell_def split: if_splits)
  ultimately show ?thesis by (simp add: sees_def fun_eq_iff)
qed

theorem concurrent_operations_independent_witness:
  "\<exists>ths st' n'. run_threads (concat (replicate 7 [0, 1, 2])) (map (start_thread 0)
       [(Subscribe ''c'' 4 1, ''/a''), (Subscribe ''d'' 5 2, ''/+''), (Match, ''/'')], two_level_store) = Some (ths, st') \<and>
     finished (ths ! 0) \<and> finished (ths ! 1) \<and> finished (ths ! 2) \<and> sees st' 0 n' \<and>
     look n' [''/'', ''a''] ''c'' = Some \<lparr>sub_session = 4, sub_qos = 1\<rparr> \<and>
     look n' [''/'', ''a''] ''d'' = Some \<lparr>sub_session = 5, sub_qos = 2\<rparr> \<and>
     th_found (ths ! 2) = [\<lparr>sub_session = 3, sub_qos = 1\<rparr>]"
proof -
  let ?reqs = "[(Subscribe ''c'' 4 1, ''/a''), (Subscribe ''d'' 5 2, ''/+''), (Match, ''/'')]"
  have wf: "node_wf two_level_tree" by (simp add: two_level_tree_def)
  have r: "reach ''/a'' two_level_tree = [[''/'', ''a'']]" "reach ''/+'' two_level_tree = [[''/'', ''a'']]"
    "reach ''/'' two_level_tree = [[''/'']]"
    by (simp_all add: reach_def two_level_tree_def getNode.simps(2) Let_def)
  have g: "\<forall>(op, topic) \<in> set ?reqs. grown topic two_level_tree = two_level_tree"
    by (simp add: grown_def two_level_tree_def getNode.simps(2) Let_def)
  have k: "op_cost (Subscribe ''c'' 4 1) ''/a'' two_level_tree = 6" "op_cost (Subscribe ''d'' 5 2) ''/+'' two_level_tree = 6"
    "op_cost Match ''/'' two_level_tree = 5"
    unfolding op_cost_def r by (simp_all add: two_level_tree_def visit_cost_def subs_at_simps)
  have m: "snd (tree_match ''/'' two_level_tree) = [\<lparr>sub_session = 3, sub_qos = 1\<rparr>]"
    unfolding match_result r by (simp add: two_level_tree_def subs_at_simps)
  have apart: "\<forall>i < length ?reqs. \<forall>j < length ?reqs. i \<noteq> j \<longrightarrow>
      clients_of (fst (?reqs ! i)) \<inter> clients_of (fst (?reqs ! j)) = {}"
    by (auto simp: less_Suc_eq clients_of_def)
  have apart': "\<forall>(op, topic) \<in> set ?reqs. \<forall>(op', topic') \<in> set ?reqs. op = Match \<longrightarrow> op' \<noteq> Match \<longrightarrow>
      set (reach topic two_level_tree) \<inter> set (reach topic' two_level_tree) = {}"
    by (simp add: r)
  have c: "count_list (concat (replicate 7 [0, Suc 0, 2])) 0 = 7" "count_list (concat (replicate 7 [0, Suc 0, 2])) (Suc 0) = 7"
    "count_list (concat (replicate 7 [0, Suc 0, 2])) 2 = 7"
    by (simp_all add: eval_nat_numeral)
  obtain ths st' n' where s: "run_threads (concat (replicate 7 [0, 1, 2])) (map (start_thread 0) ?reqs, two_level_store) = Some (ths, st')"
    "sees st' 0 n'"
    and all: "\<And>i. i < length ?reqs \<Longrightarrow>
      op_cost (fst (?reqs ! i)) (snd (?reqs ! i)) two_level_tree \<le> count_list (concat (replicate 7 [0, 1, 2])) i \<Longrightarrow>
      finished (ths ! i) \<and>
       (case ?reqs ! i of
          (Subscribe c cs q, topic) \<Rightarrow> (\<forall>x. look n' x c = look (tree_subscribe topic c cs q two_level_tree) x c)
        | (Unsubscribe c, topic) \<Rightarrow> (\<forall>x. look n' x c = look (tree_unsubscribe topic c two_level_tree) x c)
        | (Match, topic) \<Rightarrow> th_found (ths ! i) = snd (tree_match topic two_level_tree))"
    using concurrent_operations_independent [OF two_level_sees wf g apart apart', of "concat (replicate 7 [0, 1, 2])"]
    by blast
  have "finished (ths ! 0) \<and> (\<forall>x. look n' x ''c'' = look (tree_subscribe ''/a'' ''c'' 4 1 two_level_tree) x ''c'')"
    "finished (ths ! 1) \<and> (\<forall>x. look n' x ''d'' = look (tree_subscribe ''/+'' ''d'' 5 2 two_level_tree) x ''d'')"
    "finished (ths ! 2) \<and> th_found (ths ! 2) = [\<lparr>sub_session = 3, sub_qos = 1\<rparr>]"
    using all [of 0] all [of 1] all [of 2] by (simp_all add: c k m)
  with s show ?thesis by (auto simp: look_subscribe [OF wf] r)
qed

end
