(* ===== verification/Spec2Isabelle.thy ===== *)
theory Spec2Isabelle
  imports Service Isolation Segments Queue_Independence Program_Entry Lock_Programs Tree_Sharing
begin

text \<open>
  A verification development for the Culex MQTT broker, the C++ program under \<open>src/mqtt\<close>.

  The program. A TCP server (the culex-core library) delivers bytes to a transport, an \<open>MqttSession\<close>,
  whose \<open>parseData\<close> runs in a worker task: it decodes one packet from the receive buffer (\<open>unpack\<close>),
  calls the handler of the packet's type from a table, and acts on the handler's return code. The
  handlers read and write the session manager, \<open>ManageSessions\<close>: the registry of client sessions (the
  persistent state of a client, \<open>ClientSession\<close>), the topic tree of subscriptions, and two heaps of
  timers, one for keep-alive and one for retransmission. The event loop \<open>Broker::run\<close> polls the core
  and, after each batch of events, runs the two timers.

  The theories, in import order, and what they model.
    Prelude: width types, faults as values, conversions between \<open>size_t\<close> and \<open>int\<close>, association lists
      for \<open>std::unordered_map\<close>, loops as \<open>while_option\<close>, the locale \<open>priority_queue\<close> and its model.
    Packets (\<open>include/packets.h\<close>, \<open>src/packets.cpp\<close>): the structs as records, the packet type and the
      variant as datatypes, header and flag bytes, the remaining-length coding.
    Core_Interface: the parts of culex-core the broker calls, as the record \<open>core\<close> (see below).
    Unpack (\<open>include/unpack.h\<close>, \<open>src/unpack.cpp\<close>): the decoders and their jump table.
    Builders (the end of \<open>src/packethandlers.cpp\<close>): the serialisers.
    Client_Session (\<open>struct ClientSession\<close> in \<open>include/mqttsession.h\<close>): packet ids, in-flight maps, queue.
    Topic_Tree (\<open>include/topictree.h\<close>, \<open>src/topictree.cpp\<close>): nodes, \<open>getNode\<close>, \<open>match\<close>, \<open>subscribe\<close>,
      \<open>unsubscribe\<close>, \<open>split\<close>; a pointer into the tree is a path of link keys.
    Sessions (\<open>include/managesessions.h\<close>, \<open>src/managesession.cpp\<close>): the state \<open>world\<close> of all shared
      objects and every operation of \<open>ManageSessions\<close> on it.
    Session_Invariants, Sample_State: the invariant \<open>world_inv\<close> and its preservation; a concrete state.
    Keep_Alive, Delivery: the proofs about the two timers, sending and routing.
    Handlers, Handler_Properties (\<open>include/packethandlers.h\<close>, \<open>src/packethandlers.cpp\<close>): the ten handlers
      and their table.
    Transport (\<open>src/mqttsession.cpp\<close>): \<open>parseData\<close>.
    Isolation: what a parse task, by its bytes, cannot change of the other clients.
    Segments: packets that arrive in pieces, with a parse task after each.
    Broker (\<open>include/broker.h\<close>): a round of the event loop, and the step relation \<open>broker_step\<close> of the
      running program with its reachable states.
    Queue_Independence: the offline queues have no influence on what is sent or done.
    Program_Entry (\<open>include/broker.h\<close>, \<open>src/broker.cpp\<close>): construction, the loop of \<open>run\<close> and \<open>main\<close>.
    End_To_End: packets from the receive buffer of one transport to the output of another.
    Service: an abstract publish/subscribe service and the simulation of it by parse tasks.
    Locking: threads, mutexes and shared fields in general: interleaving, deadlock, data races.
    Lock_Programs: for every operation of the broker, the mutexes it takes and the fields it accesses.
    Topic_Race: the subscription of a topic at the grain of its critical sections, on a store of nodes.
    Tree_Threads, Tree_Sharing: all operations of the tree, wildcards included, at that grain: one thread
      alone, and any number of threads.

  State and faults. Shared objects live in stores under numbers, so that a write through one pointer is
  seen through all; a \<open>weak_ptr\<close> locks while the registry (client sessions), or the core's session map
  or a running task (transports), owns the object. A throw, a null dereference, a read out of bounds
  and an unbounded loop are values: \<open>Inl fault\<close>, or \<open>None\<close> for a loop that does not end.

  Interfaces. \<open>byte_codec\<close> (header and connect flags), \<open>packet_store\<close> (both in-flight maps),
  \<open>subscription_index\<close> (what the tree promises: after subscribing or unsubscribing, what \<open>match\<close> finds),
  \<open>priority_queue\<close> (both heaps), \<open>packet_handler\<close> (every entry of the handler table) and
  \<open>isolated_handler\<close>, which extends it, \<open>lock_order\<close> and \<open>lock_discipline\<close> (what the lock programs keep
  to) are locales; each is interpreted on the model's own definitions.

  Three levels of concurrency. In Broker an operation is one atomic step, and the interleavings are those
  of whole parse tasks, timer runs and connections. In Lock_Programs a step is one mutex operation or one
  access to a shared field: there the code is its locking only, with what it reads as arguments. In
  Topic_Race, Tree_Threads and Tree_Sharing a step is one critical section of a node, with its effect, or,
  where \<open>match\<close> reads the subscribers of a node without a mutex, one turn of its loop; a state in which it
  is about to read what another thread is about to write has no meaning (\<open>racing\<close>).

  What the lemmas show. Decoding: it inverts the wire format, waits for incomplete packets, and which
  faults it can end in. Topic tree: which nodes a filter reaches, and what the operations do to the
  finite map from node and client to subscription that the tree stands for. Sessions: packet ids do not
  repeat, an in-flight packet stays until it is acknowledged. Timers: when their loops end, whom keep-alive
  disconnects and whom it does not, which retransmissions block the rest. Routing: who is sent what, with
  which QoS, and what is queued. Handlers: connection, subscription and the QoS 2 exchange. Broker: the
  invariant of every reachable state and the outcome of a round of the loop. Isolation: a task changes the
  session, registration and subscriptions of no client it does not act for. Segments: how a packet is cut
  does not matter, except within its remaining length. Queue_Independence: nothing stored for an offline
  client is ever delivered. Service: abstracting after a parse task is serving after abstracting. Locking:
  no circular wait for mutexes, though no bound on a wait, and which fields race. Tree_Threads: alone,
  the critical sections implement the functional tree. Topic_Race, Tree_Sharing: interleaved, they lose
  subscriptions when two threads need the same new node, and are independent when none is needed and no
  \<open>match\<close> comes to a node that is written.

  Parameters. The sources of culex-core are a git submodule and not part of the repository. Its byte
  readers and writers, receive buffer and byte order are fields of \<open>core\<close>, and its server operations are
  fields of \<open>server\<close>; what the broker relies on are the named hypotheses \<open>core_reads\<close>, \<open>core_writes\<close>,
  \<open>core_buffer\<close> and \<open>server_ok\<close>, which \<open>ref_core\<close> and \<open>sample_server\<close> satisfy. The locks of \<open>pushDataToSend\<close>
  are a parameter too: \<open>core_push_ok\<close> says that it takes mutexes of the core only, in one order, which
  \<open>leaf_push\<close> does; the core has no access to the broker's own mutexes, and its calls into the broker are
  taken to be made with no mutex of the core held. An operation of \<open>server\<close> may throw, and so may
  \<open>TCPServer::init\<close>: what follows is modelled up to the exit code of \<open>main\<close>; \<open>pushDataToSend\<close> is taken to return.

  Bounds. The payload loops of the decoder for SUBSCRIBE and UNSUBSCRIBE run with a fuel of one more than
  the readable bytes, since every iteration reads a byte or faults; \<open>OutOfFuel\<close> is proved not to occur.
  The loops of the two timers are \<open>while_option\<close> and the loop of \<open>run\<close> is a \<open>partial_function\<close>, so not
  ending is a result and not an assumption. A \<open>while\<close> of the code is a \<open>Loop\<close> of the lock programs, which
  may run for ever (\<open>expiry_scan_starves\<close> shows it does); a loop over a list is the sequence of its passes,
  for a list of any length. \<open>destroy\<close> of Topic_Race recurses at most as deep as there are allocated nodes.

  Not modelled. Sockets, logging and the build files; the test clients under \<open>mqtt/test\<close>; what the worker
  pool of the core does with its queue of tasks. \<open>ClientSession::subscriptions\<close> and
  \<open>MqttSession::m_topicTree\<close> are not used by the program. The order in which an \<open>unordered_map\<close> is visited
  is the order of its list, and the theorems hold for every list.
\<close>

subsection \<open>A server\<close>

text \<open>The core as the broker expects it: one readable connection, tasks that run to their end.\<close>

definition sample_server :: server where
  "sample_server =
     \<lparr>srv_poll = (\<lambda>timeout w. Inr ([\<lparr>ev_events = EPOLLIN, ev_fd = 5\<rparr>, \<lparr>ev_events = EPOLLIN, ev_fd = 3\<rparr>], w)),
      srv_getServerFd = 3,
      srv_closeConnection = (\<lambda>fd w. Inr (removeSession fd w)),
      srv_newConnection = (\<lambda>w. Inr (addSession 9 w)),
      srv_SessionEvent = (\<lambda>fd w. Inr (case map_of (m_sessions w) fd of
          None \<Rightarrow> w
        | Some tid \<Rightarrow> (case parseData ref_core tid (hold tid w) of Inr w' \<Rightarrow> release tid w' | Inl e \<Rightarrow> w)))\<rparr>"

lemma sample_server_ok: "server_ok sample_server"
proof -
  have s: "broker_step ref_core w w' \<Longrightarrow> world_inv w \<Longrightarrow> steps w w'" for w w'
    by (rule broker_step_steps [OF ref_core_ok(1)])
  have "steps w (case map_of (m_sessions w) fd of None \<Rightarrow> w
      | Some tid \<Rightarrow> (case parseData ref_core tid (hold tid w) of Inr w' \<Rightarrow> release tid w' | Inl e \<Rightarrow> w))"
    if "world_inv w" for fd w
  proof (cases "map_of (m_sessions w) fd")
    case (Some tid)
    then have "transport_alive w tid" by (force simp: transport_alive_def dest: map_of_SomeD)
    then show ?thesis
      using Some s [OF broker_step.task that] steps_refl [OF that] by (auto split: sum.split)
  qed (use that steps_refl in simp)
  then show ?thesis
    using s [OF broker_step.accept] s [OF broker_step.close] steps_refl
    by (simp add: server_ok_def sample_server_def)
qed

lemma sample_reachable: "reachable ref_core (addSession 6 (addSession 5 (world_init 0)))"
  by (intro reachable.step [OF reachable.step [OF reachable.init broker_step.accept] broker_step.accept]) simp

subsection \<open>Properties\<close>

text \<open>C1: In every state the broker can reach, whatever bytes arrive and however connections, tasks, timers
  and the clock interleave: the invariant holds; a client is registered under its own id; a subscription
  is stored under the id of the client it points to, with a QoS below 3; a packet in flight is a PUBLISH
  of QoS above 0 under its own id; and only packets of QoS above 0 wait in an offline queue.\<close>

theorem reachable_states_consistent:
  assumes "core_reads C" and "reachable C w"
  shows "world_inv w \<and>
    (\<forall>c sid. sessionPresent c w = Some sid \<longrightarrow> sid < next_sid w \<and> client_id (clients w sid) = c) \<and>
    (\<forall>path c s. look (m_topicTree w) path c = Some s \<longrightarrow>
      client_id (clients w (sub_session s)) = c \<and> sub_qos s < 3) \<and>
    (\<forall>sid k p. map_of (inflight (clients w sid)) k = Some p \<longrightarrow>
      0 < hdr_qos (header p) \<and> (\<exists>pub. pkt p = VPublish pub \<and> pub_packet_id pub = k)) \<and>
    (\<forall>sid. \<forall>p \<in> set (message_queue (clients w sid)). 0 < hdr_qos (header p))"
proof -
  have inv: "world_inv w" using reachable_inv [OF assms] .
  have "0 < hdr_qos (header p) \<and> (\<exists>pub. pkt p = VPublish pub \<and> pub_packet_id pub = k)"
    if "map_of (inflight (clients w sid)) k = Some p" for sid k p
  proof -
    have "inflight_entry_ok (k, p)"
      using world_wf [OF inv, of sid] that
      by (auto simp: session_wf_def list_all_iff dest: map_of_in_set)
    then show ?thesis by (cases "pkt p") (auto simp: inflight_entry_ok_def publish_id_def)
  qed
  moreover have "0 < hdr_qos (header p)" if "p \<in> set (message_queue (clients w sid))" for sid p
    using world_wf [OF inv, of sid] that by (auto simp: session_wf_def list_all_iff queued_ok_def)
  moreover have "client_id (clients w (sub_session s)) = c \<and> sub_qos s < 3"
    if "look (m_topicTree w) path c = Some s" for path c s
    using inv that unfolding world_inv_def tree_inv_def by blast
  ultimately show ?thesis using inv sessionPresent_less [OF inv] by blast
qed

theorem reachable_states_consistent_witness:
  "world_inv (addSession 6 (addSession 5 (world_init 0)))"
  using reachable_states_consistent [OF ref_core_ok(1) sample_reachable] by blast

text \<open>C23: A message queued for an offline client is never taken out again and never delivered. Along every
  run, from any state that keeps the invariant, the queue of an existing session is only appended to, and
  the session keeps its client id. And what is stored has no influence on anything the broker does: with
  other messages \<open>Q\<close> stored in front, every parse task (whatever it received, a reconnecting CONNECT
  included), the expiry of sessions and the retransmission send the same bytes and do the same to the
  rest of the state, leaving \<open>Q\<close> where it is; and every run has its counterpart, step by step, from the
  state with \<open>Q\<close> to the one with \<open>Q\<close>. So no stored message is ever sent, after a reconnection either.\<close>

theorem offline_queue_never_drained:
  assumes "core_reads C" and "world_inv w" and "(broker_step C)\<^sup>*\<^sup>* w w'" and "sid < next_sid w"
  shows "prefix (message_queue (clients w sid)) (message_queue (clients w' sid)) \<and>
    client_id (clients w' sid) = client_id (clients w sid) \<and> prefix (sent w) (sent w') \<and>
    (\<forall>Q. (\<forall>s \<ge> next_sid w. Q s = []) \<longrightarrow>
       (\<forall>tid. parseData C tid (stored_before Q w) = map_sum id (stored_before Q) (parseData C tid w)) \<and>
       processExpiredSessions (stored_before Q w) = map_option (stored_before Q) (processExpiredSessions w) \<and>
       processRetransmissions C (stored_before Q w) =
         map_option (map_sum id (stored_before Q)) (processRetransmissions C w) \<and>
       (broker_step C)\<^sup>*\<^sup>* (stored_before Q w) (stored_before Q w') \<and>
       sent (stored_before Q w') = sent w')"
proof -
  have "prefix (message_queue (clients w sid)) (message_queue (clients w' sid)) \<and>
      client_id (clients w' sid) = client_id (clients w sid) \<and> prefix (sent w) (sent w')"
    using run_evolves [OF assms(1,3,2)] assms(4) by (simp add: steps_def evolves_def)
  moreover have "Q (next_sid w) = []" if "\<forall>s \<ge> next_sid w. Q s = []" for Q :: "nat \<Rightarrow> Packet list"
    using that by simp
  ultimately show ?thesis
    by (simp add: parseData_stored_before processExpiredSessions_stored_before
        processRetransmissions_stored_before stored_before_sel(12) run_stored_before [OF assms(1,3,2)])
qed

theorem offline_queue_never_drained_witness:
  "prefix (message_queue (clients (sample_world True 1000) 1))
     (message_queue (clients (removeSession 5 (addSession 9 (sample_world True 1000))) 1)) \<and>
   parseData ref_core 0 (stored_before ((\<lambda>_. [])(1 := [sample_publish 1])) (sample_world True 1000)) =
     map_sum id (stored_before ((\<lambda>_. [])(1 := [sample_publish 1]))) (parseData ref_core 0 (sample_world True 1000))"
proof -
  have "(broker_step ref_core)\<^sup>*\<^sup>* (sample_world True 1000) (removeSession 5 (addSession 9 (sample_world True 1000)))"
    using broker_step.accept broker_step.close by (meson rtranclp.rtrancl_into_rtrancl rtranclp.rtrancl_refl)
  note r = offline_queue_never_drained [OF ref_core_ok(1) sample_world_inv [of 1000 True] this]
  have n: "next_sid (sample_world True 1000) = 2" by simp
  have "\<forall>s \<ge> next_sid (sample_world True 1000). ((\<lambda>_. [])(1 := [sample_publish 1])) s = []" unfolding n by simp
  with r [of 1] show ?thesis by (simp add: n)
qed

text \<open>C6: One round of the event loop, over any server that keeps the invariant or throws. An exception of the
  poller or of a connection event is that of the round. Otherwise, after the events, the round comes to
  its end, without a fault, in a state that keeps the invariant and in which no keep-alive entry is due,
  exactly when every due entry belongs to a registered session; otherwise the loop hangs in
  \<open>processExpiredSessions\<close>.\<close>

theorem loop_round_outcome:
  assumes "server_ok S" and "world_inv w"
  shows "case and_then (srv_poll S (getNextTimeoutMs w) w) (\<lambda>(events, u). handle_events S events u) of
      Inl e \<Rightarrow> run_iteration C S w = Some (Inl e) \<and> is_exception e
    | Inr v \<Rightarrow>
        if \<forall>e \<in> set (m_expiryHeap v). ee_expiry_ms e \<le> now_ms v \<longrightarrow> client_alive v (ee_session e)
        then \<exists>w'. run_iteration C S w = Some (Inr w') \<and> world_inv w' \<and> evolves w w' \<and>
          (\<forall>e \<in> set (m_expiryHeap w'). now_ms v < ee_expiry_ms e)
        else run_iteration C S w = None"
proof (cases "and_then (srv_poll S (getNextTimeoutMs w) w) (\<lambda>(events, u). handle_events S events u)")
  case (Inl e)
  then show ?thesis using loop_events_steps [OF assms, of "getNextTimeoutMs w"] by (simp add: run_iteration_def)
next
  case ev: (Inr v)
  then have v: "steps w v" using loop_events_steps [OF assms, of "getNextTimeoutMs w"] by simp
  have r: "run_iteration C S w =
      (case processExpiredSessions v of None \<Rightarrow> None | Some w \<Rightarrow> processRetransmissions C w)"
    by (simp add: run_iteration_def ev Let_def)
  show ?thesis
  proof (cases "processExpiredSessions v")
    case None
    then have "\<not> (\<forall>e \<in> set (m_expiryHeap v). due v e \<longrightarrow> client_alive v (ee_session e))"
      using processExpiredSessions_returns [of v] by simp
    then show ?thesis using None ev by (auto simp: r due_def)
  next
    case (Some u)
    then have a: "\<forall>e \<in> set (m_expiryHeap v). ee_expiry_ms e \<le> now_ms v \<longrightarrow> client_alive v (ee_session e)"
      using processExpiredSessions_returns [of v] by (simp add: due_def)
    have u: "steps w u" using processExpired_steps [OF steps_inv [OF v] Some] steps_trans [OF v] by blast
    obtain w' where w': "processRetransmissions C u = Some (Inr w')" "world_inv w'" "keeps u w'"
      using processRetransmissions_ok [OF steps_inv [OF u]] by blast
    have "evolves w w'" using u evolves_keeps [OF w'(3)] evolves_trans unfolding steps_def by blast
    moreover have "now_ms v < ee_expiry_ms e" if "e \<in> set (m_expiryHeap w')" for e
      using processExpiredSessions_rest_later [OF Some] that w'(3) by (simp add: keeps_def)
    ultimately show ?thesis using a w'(1,2) Some by (simp add: r ev)
  qed
qed

theorem loop_round_outcome_witness:
  "\<exists>w'. run_iteration ref_core sample_server (world_init 0) = Some (Inr w') \<and> world_inv w'"
proof -
  have inv: "world_inv (world_init 0)" by (rule world_inv_init) simp
  have s: "srv_SessionEvent sample_server 5 (world_init 0) = Inr (world_init 0)"
    by (simp add: sample_server_def world_init_def)
  have e: "srv_poll sample_server t w = Inr ([\<lparr>ev_events = EPOLLIN, ev_fd = 5\<rparr>, \<lparr>ev_events = EPOLLIN, ev_fd = 3\<rparr>], w)"
    "srv_getServerFd sample_server = 3" "srv_newConnection sample_server w = Inr (addSession 9 w)" for t w
    by (simp_all add: sample_server_def)
  have v: "and_then (srv_poll sample_server (getNextTimeoutMs (world_init 0)) (world_init 0))
      (\<lambda>(events, u). handle_events sample_server events u) = Inr (addSession 9 (world_init 0))"
    by (simp add: e s handle_event_def)
  have "m_expiryHeap (addSession 9 (world_init 0)) = []" by (simp add: addSession_def world_init_def)
  with loop_round_outcome [OF sample_server_ok inv, of ref_core] v show ?thesis by auto
qed

text \<open>C24: The broker can be brought to a halt by one client. With any core that keeps its contract there is a
  reachable state in which \<open>processExpiredSessions\<close> does not return, and with it the event loop; the run
  constructed is two CONNECT packets with a clean session and one client id, followed by silence.\<close>

theorem event_loop_can_hang:
  assumes "core_reads C" and "core_buffer C"
  shows "\<exists>w. reachable C w \<and> processExpiredSessions w = None \<and>
    (\<forall>S. (\<forall>t. srv_poll S t w = Inr ([], w)) \<longrightarrow> run_iteration C S w = None)"
proof -
  obtain w where "reachable C w" "processExpiredSessions w = None"
    using reachable_hang [OF assms] by blast
  then show ?thesis by (auto simp: run_iteration_def)
qed

theorem event_loop_can_hang_witness:
  "\<exists>w. reachable ref_core w \<and> processExpiredSessions w = None"
  using event_loop_can_hang [OF ref_core_ok(1,3)] by blast

end
